(* ===== verification/WD_Prelude.thy ===== *)
theory WD_Prelude
  imports Main "HOL-Library.Word" "HOL-Library.Multiset"
begin

text \<open>
  Shared material of the development: the widths of the machine integers the program uses,
  the panics of the Rust program as values and the sequencing of computations that may panic,
  checked indexing and slicing of vectors, checked arithmetic on \<open>usize\<close>, and reachability
  with the generic invariant rule.

  The model is the program as \<open>cargo build\<close> compiles it with the profile of
  \<open>Cargo.toml\<close> (no override): arithmetic overflow panics and \<open>debug_assert!\<close> is
  evaluated, on a target where \<open>usize\<close> has 64 bits.
\<close>

subsection \<open>Machine integers\<close>

type_synonym u8 = "8 word"
type_synonym u16 = "16 word"
type_synonym u32 = "32 word"
type_synonym u64 = "64 word"
type_synonym u128 = "128 word"

named_theorems wd_inv \<open>facts that an operation keeps an invariant\<close>
named_theorems wd_total \<open>facts that an operation does not panic\<close>

subsection \<open>Panics as values\<close>

text \<open>
  Every way the modelled code can panic. \<open>IndexOutOfBounds\<close> carries the index and the
  length, \<open>SliceRange\<close> the bounds and the length, \<open>CopyLength\<close> the two lengths of
  \<open>copy_from_slice\<close>, \<open>Assertion\<close> and \<open>Expectation\<close> the message.
\<close>

datatype panic =
    IndexOutOfBounds nat nat
  | SliceRange nat nat nat
  | CopyLength nat nat
  | ArithmeticOverflow
  | Assertion string
  | Expectation string

type_synonym 'a outcome = "panic + 'a"

fun res_bind :: "'e + 'a \<Rightarrow> ('a \<Rightarrow> 'e + 'b) \<Rightarrow> 'e + 'b" where
  "res_bind (Inl e) f = Inl e"
| "res_bind (Inr x) f = f x"

lemma res_bind_cong [fundef_cong]:
  "r = s \<Longrightarrow> (\<And>x. s = Inr x \<Longrightarrow> f x = g x) \<Longrightarrow> res_bind r f = res_bind s g"
  by (cases s) auto

lemma res_bind_Inr_iff:
  "res_bind r f = Inr y \<longleftrightarrow> (\<exists>x. r = Inr x \<and> f x = Inr y)"
  by (cases r) auto

lemma res_bind_Inl_iff:
  "res_bind r f = Inl e \<longleftrightarrow> r = Inl e \<or> (\<exists>x. r = Inr x \<and> f x = Inl e)"
  by (cases r) auto

fun res_map :: "('a \<Rightarrow> 'b) \<Rightarrow> 'e + 'a \<Rightarrow> 'e + 'b" where
  "res_map f (Inl e) = Inl e"
| "res_map f (Inr x) = Inr (f x)"

lemma res_map_Inr_iff: "res_map f r = Inr y \<longleftrightarrow> (\<exists>x. r = Inr x \<and> y = f x)"
  by (cases r) auto

lemma Inr_res_map_iff: "Inr y = res_map f r \<longleftrightarrow> (\<exists>x. r = Inr x \<and> y = f x)"
  by (cases r) auto

text \<open>A loop whose body may panic.\<close>

fun res_fold :: "('x \<Rightarrow> 's \<Rightarrow> 'e + 's) \<Rightarrow> 'x list \<Rightarrow> 's \<Rightarrow> 'e + 's" where
  "res_fold f [] s = Inr s"
| "res_fold f (x # xs) s = res_bind (f x s) (res_fold f xs)"

lemma res_fold_map: "res_fold f (map g xs) s = res_fold (f \<circ> g) xs s"
  by (induction xs arbitrary: s) (simp_all add: comp_def cong: res_bind_cong)

lemma res_fold_append: "res_fold f (xs @ ys) s = res_bind (res_fold f xs s) (res_fold f ys)"
proof (induction xs arbitrary: s)
  case (Cons x xs)
  then show ?case by (cases "f x s") simp_all
qed simp

text \<open>\<open>Option::expect\<close> and \<open>Result::expect\<close>.\<close>

definition expect :: "string \<Rightarrow> 'e + 'a \<Rightarrow> 'a outcome" where
  "expect m r = (case r of Inl _ \<Rightarrow> Inl (Expectation m) | Inr x \<Rightarrow> Inr x)"

lemma expect_simps [simp]:
  "expect m (Inl e) = Inl (Expectation m)" "expect m (Inr x) = Inr x"
  by (simp_all add: expect_def)

text \<open>\<open>Result::unwrap\<close> and \<open>Option::unwrap\<close>.\<close>

definition unwrap :: "'e + 'a \<Rightarrow> 'a outcome" where
  "unwrap r = expect ''called unwrap on an error value'' r"

definition option_unwrap :: "'a option \<Rightarrow> 'a outcome" where
  "option_unwrap x = (case x of None \<Rightarrow> unwrap (Inl ()) | Some v \<Rightarrow> Inr v)"

subsection \<open>Assertions\<close>

definition assert_that :: "bool \<Rightarrow> unit outcome" where
  "assert_that b = (if b then Inr () else Inl (Assertion ''assertion failed''))"

definition assert_eq :: "'a \<Rightarrow> 'a \<Rightarrow> unit outcome" where
  "assert_eq x y = (if x = y then Inr () else Inl (Assertion ''left == right''))"

text \<open>A loop of checks: the first panic ends the test.\<close>

definition for_each :: "('a \<Rightarrow> unit outcome) \<Rightarrow> 'a list \<Rightarrow> unit outcome" where
  "for_each f xs = res_fold (\<lambda>x _. f x) xs ()"

lemma for_each_assert:
  "(\<And>x. x \<in> set xs \<Longrightarrow> f x = assert_that (P x)) \<Longrightarrow> for_each f xs = assert_that (\<forall>x \<in> set xs. P x)"
  by (induction xs) (auto simp: for_each_def assert_that_def)

subsection \<open>Vectors and slices\<close>

text \<open>\<open>v[i]\<close> read and written, and \<open>&v[a..b]\<close>.\<close>

definition vec_get :: "'a list \<Rightarrow> nat \<Rightarrow> 'a outcome" where
  "vec_get xs i = (if i < length xs then Inr (xs ! i) else Inl (IndexOutOfBounds i (length xs)))"

definition vec_set :: "'a list \<Rightarrow> nat \<Rightarrow> 'a \<Rightarrow> 'a list outcome" where
  "vec_set xs i x =
     (if i < length xs then Inr (xs[i := x]) else Inl (IndexOutOfBounds i (length xs)))"

definition vec_slice :: "'a list \<Rightarrow> nat \<Rightarrow> nat \<Rightarrow> 'a list outcome" where
  "vec_slice xs a b =
     (if a \<le> b \<and> b \<le> length xs then Inr (take (b - a) (drop a xs))
      else Inl (SliceRange a b (length xs)))"

text \<open>Writing through a mutable slice that starts at \<open>a\<close>.\<close>

definition vec_splice :: "'a list \<Rightarrow> nat \<Rightarrow> 'a list \<Rightarrow> 'a list" where
  "vec_splice xs a ys = take a xs @ ys @ drop (a + length ys) xs"

lemma vec_get_Inr [simp]: "i < length xs \<Longrightarrow> vec_get xs i = Inr (xs ! i)"
  by (simp add: vec_get_def)

lemma vec_get_0_Inl: "vec_get xs 0 = Inl p \<longleftrightarrow> xs = [] \<and> p = IndexOutOfBounds 0 0"
  by (auto simp: vec_get_def)

lemma vec_get_0_Inr: "vec_get xs 0 = Inr x \<longleftrightarrow> (\<exists>ys. xs = x # ys)"
  by (cases xs) (auto simp: vec_get_def)

lemma vec_set_Inr [simp]: "i < length xs \<Longrightarrow> vec_set xs i x = Inr (xs[i := x])"
  by (simp add: vec_set_def)

lemma vec_slice_Inr [simp]:
  "a \<le> b \<Longrightarrow> b \<le> length xs \<Longrightarrow> vec_slice xs a b = Inr (take (b - a) (drop a xs))"
  by (simp add: vec_slice_def)

lemma length_vec_splice [simp]:
  "a + length ys \<le> length xs \<Longrightarrow> length (vec_splice xs a ys) = length xs"
  by (simp add: vec_splice_def)

lemma nth_vec_splice:
  assumes "a + length ys \<le> length xs" and "i < length xs"
  shows "vec_splice xs a ys ! i =
    (if a \<le> i \<and> i < a + length ys then ys ! (i - a) else xs ! i)"
  using assms by (auto simp: vec_splice_def nth_append min_def)

subsection \<open>Arithmetic on usize\<close>

definition usize_range :: nat where
  "usize_range = 2 ^ 64"

definition usize_add :: "nat \<Rightarrow> nat \<Rightarrow> nat outcome" where
  "usize_add a b = (if a + b < usize_range then Inr (a + b) else Inl ArithmeticOverflow)"

definition usize_mul :: "nat \<Rightarrow> nat \<Rightarrow> nat outcome" where
  "usize_mul a b = (if a * b < usize_range then Inr (a * b) else Inl ArithmeticOverflow)"

definition usize_wrapping_add :: "nat \<Rightarrow> nat \<Rightarrow> nat" where
  "usize_wrapping_add a b = (a + b) mod usize_range"

definition usize_wrapping_sub :: "nat \<Rightarrow> nat \<Rightarrow> nat" where
  "usize_wrapping_sub a b = (a + (usize_range - b mod usize_range)) mod usize_range"

lemma usize_add_Inr [simp]: "a + b < usize_range \<Longrightarrow> usize_add a b = Inr (a + b)"
  by (simp add: usize_add_def)

lemma usize_mul_Inr [simp]: "a * b < usize_range \<Longrightarrow> usize_mul a b = Inr (a * b)"
  by (simp add: usize_mul_def)

subsection \<open>Tables split into buckets by rank\<close>

text \<open>
  A table is a list of buckets; \<open>placed\<close> says that every item stands in the bucket its key
  has the rank of. The locale is what such a table needs of the rank: it indexes a bucket.
  What a search in one bucket says about the whole table is proved once, here.
\<close>

definition placed :: "('k \<Rightarrow> nat) \<Rightarrow> ('x \<Rightarrow> 'k) \<Rightarrow> 'x list list \<Rightarrow> bool" where
  "placed rank key bs \<longleftrightarrow> (\<forall>i < length bs. \<forall>x \<in> set (bs ! i). rank (key x) = i)"

lemma placedI: "(\<And>i x. i < length bs \<Longrightarrow> x \<in> set (bs ! i) \<Longrightarrow> rank (key x) = i) \<Longrightarrow> placed rank key bs"
  by (simp add: placed_def)

lemma placedD: "placed rank key bs \<Longrightarrow> i < length bs \<Longrightarrow> x \<in> set (bs ! i) \<Longrightarrow> rank (key x) = i"
  by (simp add: placed_def)

lemma placed_update:
  assumes "placed rank key bs" and "\<And>x. x \<in> set b \<Longrightarrow> rank (key x) = i"
  shows "placed rank key (bs[i := b])"
proof (rule placedI)
  fix j x
  assume "j < length (bs[i := b])" and "x \<in> set (bs[i := b] ! j)"
  with assms show "rank (key x) = j"
    by (cases "j = i") (auto simp: placed_def)
qed

text \<open>Visiting several buckets, none twice, meets no key twice.\<close>

lemma placed_visit_distinct:
  assumes "placed rank key bs" and "distinct is" and "set is \<subseteq> {..<length bs}"
    and "\<And>i. i < length bs \<Longrightarrow> distinct (map key (bs ! i))"
  shows "distinct (map key (concat (map ((!) bs) is)))"
  using assms(2,3)
proof (induction "is")
  case (Cons i "is")
  have "key x \<noteq> key y" if "x \<in> set (bs ! i)" "j \<in> set is" "y \<in> set (bs ! j)" for x y j
    using that Cons.prems placedD [OF assms(1), of i x] placedD [OF assms(1), of j y] by auto
  then show ?case using Cons assms(4) by fastforce
qed simp

locale bucketing =
  fixes rank :: "'k \<Rightarrow> nat" and n :: nat
  assumes rank_bound: "rank k < n"
begin

lemma placed_mem_concat:
  assumes "placed rank key bs" and "length bs = n"
  shows "x \<in> set (concat bs) \<longleftrightarrow> x \<in> set (bs ! rank (key x))"
proof
  assume "x \<in> set (concat bs)"
  then obtain i where "i < length bs" "x \<in> set (bs ! i)"
    by (metis UN_E in_set_conv_nth set_concat)
  then show "x \<in> set (bs ! rank (key x))" using placedD [OF assms(1)] by simp
next
  assume "x \<in> set (bs ! rank (key x))"
  then show "x \<in> set (concat bs)"
    using rank_bound [of "key x"] assms(2) by (metis UN_I nth_mem set_concat)
qed

lemma placed_distinct_keys:
  assumes "placed rank key bs" and "\<And>i. i < length bs \<Longrightarrow> distinct (map key (bs ! i))"
  shows "distinct (map key (concat bs))"
  using placed_visit_distinct [OF assms(1) _ _ assms(2), of "[0..<length bs]"]
  by (simp add: map_nth subset_eq)

end

subsection \<open>Reachable states\<close>

text \<open>
  A transition system is a predicate on start states and a step relation. The locale is the
  contract of an inductive invariant; its lemma is what every safety property of the
  development rests on.
\<close>

inductive reach :: "('s \<Rightarrow> bool) \<Rightarrow> ('s \<Rightarrow> 's \<Rightarrow> bool) \<Rightarrow> 's \<Rightarrow> bool"
  for init :: "'s \<Rightarrow> bool" and step :: "'s \<Rightarrow> 's \<Rightarrow> bool" where
  reach_init: "init s \<Longrightarrow> reach init step s"
| reach_step: "reach init step s \<Longrightarrow> step s t \<Longrightarrow> reach init step t"

locale inductive_invariant =
  fixes init :: "'s \<Rightarrow> bool" and step :: "'s \<Rightarrow> 's \<Rightarrow> bool" and inv :: "'s \<Rightarrow> bool"
  assumes inv_init: "init s \<Longrightarrow> inv s"
    and inv_step: "inv s \<Longrightarrow> step s t \<Longrightarrow> inv t"
begin

lemma inv_reachable: "reach init step s \<Longrightarrow> inv s"
  by (induction rule: reach.induct) (auto intro: inv_init inv_step)

lemma inv_steps: "inv s \<Longrightarrow> step\<^sup>*\<^sup>* s t \<Longrightarrow> inv t"
  by (rotate_tac) (induction rule: rtranclp_induct; auto intro: inv_step)

end

lemma reach_rtranclp: "reach init step s \<Longrightarrow> step\<^sup>*\<^sup>* s t \<Longrightarrow> reach init step t"
  by (rotate_tac) (induction rule: rtranclp_induct; auto intro: reach_step)

text \<open>A system in which every run is bounded comes to rest.\<close>

lemma bounded_run_ends:
  assumes "\<And>n t. (step ^^ n) s t \<Longrightarrow> n \<le> b"
  shows "\<exists>n t. (step ^^ n) s t \<and> \<not> (\<exists>u. step t u)"
proof (rule ccontr)
  assume go: "\<not> ?thesis"
  have "\<exists>t. (step ^^ n) s t" for n
  proof (induction n)
    case (Suc n)
    then obtain t where "(step ^^ n) s t" by blast
    moreover from this go obtain u where "step t u" by blast
    ultimately show ?case by auto
  qed simp
  then obtain t where "(step ^^ Suc b) s t" by blast
  from assms [OF this] show False by simp
qed

end
