(* ===== verification/Hash.thy ===== *)
theory Hash
  imports WD_Prelude
begin

unbundle bit_operations_syntax

text \<open>
  The model of \<open>src/src/hash.rs\<close>: the 256-bit hash that identifies peers, its order, its
  exclusive or, its (de)serialisation through a third-party format, its constructors and its
  leading-zero count. The digest function and the serialisation format are not part of the
  repository; they are arguments of the definitions that call them.
\<close>

subsection \<open>The data\<close>

definition BLAKE2_HASH_SIZE :: nat where
  "BLAKE2_HASH_SIZE = 32"

text \<open>\<open>struct Blake2Hash(pub [u8; BLAKE2_HASH_SIZE])\<close>: the length is part of the type.\<close>

typedef blake2_hash = "{bs :: u8 list. length bs = BLAKE2_HASH_SIZE}"
  morphisms hash_bytes Blake2Hash
  by (rule exI [of _ "replicate BLAKE2_HASH_SIZE 0"]) simp

lemma length_hash_bytes [simp]: "length (hash_bytes h) = 32"
  using hash_bytes [of h] by (simp add: BLAKE2_HASH_SIZE_def)

lemma hash_bytes_Blake2Hash [simp]: "length bs = 32 \<Longrightarrow> hash_bytes (Blake2Hash bs) = bs"
  by (simp add: Blake2Hash_inverse BLAKE2_HASH_SIZE_def)

lemma Blake2Hash_hash_bytes [simp]: "Blake2Hash (hash_bytes h) = h"
  by (rule hash_bytes_inverse)

lemma hash_eqI: "(\<And>i. i < 32 \<Longrightarrow> hash_bytes a ! i = hash_bytes b ! i) \<Longrightarrow> a = b"
  by (rule hash_bytes_inject [THEN iffD1]) (auto intro: nth_equalityI)

text \<open>\<open>Blake2Hash::max_power\<close>.\<close>

definition max_power :: nat where
  "max_power = BLAKE2_HASH_SIZE * 8"

lemma max_power_eq [simp]: "max_power = 256"
  by (simp add: max_power_def BLAKE2_HASH_SIZE_def)

subsection \<open>Equality and order\<close>

definition hash_eq :: "blake2_hash \<Rightarrow> blake2_hash \<Rightarrow> bool" where
  "hash_eq a b = (hash_bytes a = hash_bytes b)"

lemma hash_eq_iff [simp]: "hash_eq a b = (a = b)"
  by (simp add: hash_eq_def hash_bytes_inject)

instantiation blake2_hash :: equal
begin

definition equal_blake2_hash :: "blake2_hash \<Rightarrow> blake2_hash \<Rightarrow> bool" where
  "equal_blake2_hash a b = hash_eq a b"

instance
  by standard (simp add: equal_blake2_hash_def)

end

datatype ordering = Less | Equal | Greater

fun ordering_reverse :: "ordering \<Rightarrow> ordering" where
  "ordering_reverse Less = Greater"
| "ordering_reverse Equal = Equal"
| "ordering_reverse Greater = Less"

text \<open>\<open>Ord\<close> of byte slices in the standard library: the first difference decides.\<close>

fun slice_cmp :: "'a :: linorder list \<Rightarrow> 'a list \<Rightarrow> ordering" where
  "slice_cmp [] [] = Equal"
| "slice_cmp [] (y # ys) = Less"
| "slice_cmp (x # xs) [] = Greater"
| "slice_cmp (x # xs) (y # ys) =
     (if x < y then Less else if y < x then Greater else slice_cmp xs ys)"

definition hash_cmp :: "blake2_hash \<Rightarrow> blake2_hash \<Rightarrow> ordering" where
  "hash_cmp a b = slice_cmp (hash_bytes a) (hash_bytes b)"

definition hash_partial_cmp :: "blake2_hash \<Rightarrow> blake2_hash \<Rightarrow> ordering option" where
  "hash_partial_cmp a b = Some (hash_cmp a b)"

lemma slice_cmp_Equal [simp]: "slice_cmp xs ys = Equal \<longleftrightarrow> xs = ys"
  by (induction xs ys rule: slice_cmp.induct) auto

lemma slice_cmp_reverse: "slice_cmp ys xs = ordering_reverse (slice_cmp xs ys)"
  by (induction xs ys rule: slice_cmp.induct) auto

lemma slice_cmp_Less_trans:
  "slice_cmp xs ys = Less \<Longrightarrow> slice_cmp ys zs = Less \<Longrightarrow> slice_cmp xs zs = Less"
proof (induction xs ys arbitrary: zs rule: slice_cmp.induct)
  case (2 y ys)
  then show ?case by (cases zs) auto
next
  case (4 x xs y ys)
  then show ?case by (cases zs) (auto split: if_splits)
qed auto

lemma ordering_reverse_Greater [simp]: "ordering_reverse c = Greater \<longleftrightarrow> c = Less"
  by (cases c) auto

lemma slice_cmp_Greater: "slice_cmp xs ys = Greater \<longleftrightarrow> slice_cmp ys xs = Less"
  by (simp add: slice_cmp_reverse [of xs ys])

lemma slice_cmp_not_Greater: "slice_cmp xs ys \<noteq> Greater \<longleftrightarrow> xs = ys \<or> slice_cmp xs ys = Less"
  by (cases "slice_cmp xs ys") (auto simp flip: slice_cmp_Equal)

instantiation blake2_hash :: linorder
begin

definition less_eq_blake2_hash :: "blake2_hash \<Rightarrow> blake2_hash \<Rightarrow> bool" where
  "a \<le> b \<longleftrightarrow> hash_cmp a b \<noteq> Greater"

definition less_blake2_hash :: "blake2_hash \<Rightarrow> blake2_hash \<Rightarrow> bool" where
  "a < b \<longleftrightarrow> hash_cmp a b = Less"

instance
proof
  note defs = less_eq_blake2_hash_def less_blake2_hash_def hash_cmp_def
  fix a b c :: blake2_hash
  show "a < b \<longleftrightarrow> a \<le> b \<and> \<not> b \<le> a"
    unfolding defs by (metis ordering.distinct(3) slice_cmp_Greater)
  show "a \<le> a"
    unfolding defs by (metis ordering.distinct(5) slice_cmp_Equal)
  show "a \<le> b \<Longrightarrow> b \<le> c \<Longrightarrow> a \<le> c"
    unfolding defs slice_cmp_not_Greater by (auto dest: slice_cmp_Less_trans simp: hash_bytes_inject)
  show "a \<le> b \<Longrightarrow> b \<le> a \<Longrightarrow> a = b"
    unfolding defs slice_cmp_not_Greater
    by (metis hash_bytes_inject ordering.distinct(3) slice_cmp_Greater)
  show "a \<le> b \<or> b \<le> a"
    unfolding defs by (metis ordering.distinct(3) slice_cmp_Greater)
qed

end

subsection \<open>Exclusive or\<close>

text \<open>\<open>BitXor::bitxor\<close>: the slots of a zeroed array are written from the two operands.\<close>

definition bitxor :: "blake2_hash \<Rightarrow> blake2_hash \<Rightarrow> blake2_hash" where
  "bitxor a rhs = Blake2Hash
     (map (\<lambda>(i, item). if i < length (hash_bytes a) then hash_bytes a ! i XOR hash_bytes rhs ! i else item)
       (enumerate 0 (replicate BLAKE2_HASH_SIZE 0)))"

definition hash_zero :: blake2_hash where
  "hash_zero = Blake2Hash (replicate BLAKE2_HASH_SIZE 0)"

lemma hash_bytes_zero [simp]: "hash_bytes hash_zero = replicate 32 0"
  by (simp add: hash_zero_def BLAKE2_HASH_SIZE_def)

lemma hash_zero_nth [simp]: "i < 32 \<Longrightarrow> hash_bytes hash_zero ! i = 0"
  by (simp add: hash_zero_def BLAKE2_HASH_SIZE_def)

lemma bitxor_nth [simp]:
  "i < 32 \<Longrightarrow> hash_bytes (bitxor a b) ! i = hash_bytes a ! i XOR hash_bytes b ! i"
  by (simp add: bitxor_def BLAKE2_HASH_SIZE_def nth_enumerate_eq)

lemma bitxor_commute: "bitxor a b = bitxor b a"
  by (rule hash_eqI) (simp add: xor.commute)

lemma bitxor_Blake2Hash:
  "length xs = 32 \<Longrightarrow> length ys = 32 \<Longrightarrow> bitxor (Blake2Hash xs) (Blake2Hash ys) = Blake2Hash (map2 (XOR) xs ys)"
  by (rule hash_eqI) simp

lemma bitxor_assoc: "bitxor (bitxor a b) c = bitxor a (bitxor b c)"
  by (rule hash_eqI) (simp add: xor.assoc)

lemma bitxor_self [simp]: "bitxor a a = hash_zero"
  by (rule hash_eqI) simp

lemma bitxor_zero [simp]: "bitxor a hash_zero = a" "bitxor hash_zero a = a"
  by (rule hash_eqI; simp)+

lemma bitxor_eq_zero_iff [simp]: "bitxor a b = hash_zero \<longleftrightarrow> a = b"
  by (metis bitxor_assoc bitxor_self bitxor_zero)

subsection \<open>Hashing and serialisation\<close>

text \<open>
  \<open>copy_from_slice\<close> of the standard library panics when the lengths differ.
  \<open>blake2s\<close> stands for the digest of the crate \<open>blake2\<close>, \<open>slice_hash\<close> for the hasher's
  \<open>Hash\<close> of a byte slice, \<open>serialize_bytes\<close> and \<open>deserialize_bytes\<close> for the serde
  data format, \<open>base64_encode\<close> for the crate \<open>base64\<close>.
\<close>

definition copy_from_slice :: "'a list \<Rightarrow> 'a list \<Rightarrow> 'a list outcome" where
  "copy_from_slice dst src =
     (if length dst = length src then Inr src else Inl (CopyLength (length dst) (length src)))"

definition hash_hash :: "(u8 list \<Rightarrow> 's \<Rightarrow> 's) \<Rightarrow> blake2_hash \<Rightarrow> 's \<Rightarrow> 's" where
  "hash_hash slice_hash h state = slice_hash (hash_bytes h) state"

definition visit_bytes :: "u8 list \<Rightarrow> ('e + blake2_hash) outcome" where
  "visit_bytes value =
     res_bind (copy_from_slice (replicate BLAKE2_HASH_SIZE 0) value) (\<lambda>out. Inr (Inr (Blake2Hash out)))"

definition hash_serialize :: "(u8 list \<Rightarrow> 'e + 'o) \<Rightarrow> blake2_hash \<Rightarrow> 'e + 'o" where
  "hash_serialize serialize_bytes h = serialize_bytes (hash_bytes h)"

definition hash_deserialize :: "('d \<Rightarrow> 'e + u8 list) \<Rightarrow> 'd \<Rightarrow> ('e + blake2_hash) outcome" where
  "hash_deserialize deserialize_bytes d =
     (case deserialize_bytes d of Inl e \<Rightarrow> Inr (Inl e) | Inr value \<Rightarrow> visit_bytes value)"

definition hash_new :: "(u8 list \<Rightarrow> u8 list) \<Rightarrow> u8 list \<Rightarrow> blake2_hash outcome" where
  "hash_new blake2s seed =
     res_bind (copy_from_slice (replicate BLAKE2_HASH_SIZE 0) (blake2s seed)) (\<lambda>out. Inr (Blake2Hash out))"

definition new_raw :: "u8 list \<Rightarrow> blake2_hash outcome" where
  "new_raw bytes =
     (if length bytes \<noteq> BLAKE2_HASH_SIZE then Inl (Assertion ''bytes.len() == BLAKE2_HASH_SIZE'')
      else res_bind (copy_from_slice (replicate BLAKE2_HASH_SIZE 0) bytes) (\<lambda>out. Inr (Blake2Hash out)))"

definition hash_to_base64 :: "(u8 list \<Rightarrow> string) \<Rightarrow> blake2_hash \<Rightarrow> string" where
  "hash_to_base64 base64_encode h = base64_encode (hash_bytes h)"

text \<open>The \<open>Debug\<close> output: the bytes in decimal, as the standard library prints a slice.\<close>

definition u8_debug :: "u8 \<Rightarrow> string" where
  "u8_debug b =
     (let n = unat b; digit = (\<lambda>k. char_of (48 + k :: nat)) in
      (if 100 \<le> n then [digit (n div 100)] else []) @ (if 10 \<le> n then [digit (n div 10 mod 10)] else []) @ [digit (n mod 10)])"

fun comma_separated :: "string list \<Rightarrow> string" where
  "comma_separated [] = []"
| "comma_separated [x] = x"
| "comma_separated (x # y # zs) = x @ '', '' @ comma_separated (y # zs)"

definition hash_debug :: "blake2_hash \<Rightarrow> string" where
  "hash_debug h = ''B['' @ comma_separated (map u8_debug (hash_bytes h)) @ '']''"

lemma visit_bytes_eq:
  "visit_bytes value =
     (if length value = 32 then Inr (Inr (Blake2Hash value)) else Inl (CopyLength 32 (length value)))"
  by (auto simp: visit_bytes_def copy_from_slice_def BLAKE2_HASH_SIZE_def)

lemma hash_new_eq:
  "hash_new blake2s seed =
     (if length (blake2s seed) = 32 then Inr (Blake2Hash (blake2s seed))
      else Inl (CopyLength 32 (length (blake2s seed))))"
  by (auto simp: hash_new_def copy_from_slice_def BLAKE2_HASH_SIZE_def)

lemma new_raw_eq:
  "new_raw bs = (if length bs = 32 then Inr (Blake2Hash bs)
     else Inl (Assertion ''bytes.len() == BLAKE2_HASH_SIZE''))"
  by (auto simp: new_raw_def copy_from_slice_def BLAKE2_HASH_SIZE_def)

subsection \<open>Leading zeros\<close>

text \<open>\<open>u8::leading_zeros\<close> of the standard library, counted from bit 7 down.\<close>

definition byte_bits :: "u8 \<Rightarrow> bool list" where
  "byte_bits b = map (bit b) [7, 6, 5, 4, 3, 2, 1, 0]"

definition byte_lz :: "u8 \<Rightarrow> nat" where
  "byte_lz b = length (takeWhile Not (byte_bits b))"

definition u8_leading_zeros :: "u8 \<Rightarrow> u32" where
  "u8_leading_zeros b = of_nat (byte_lz b)"

definition u32_saturating_sub :: "u32 \<Rightarrow> u32 \<Rightarrow> u32" where
  "u32_saturating_sub a b = (if a < b then 0 else a - b)"

text \<open>\<open>Blake2Hash::leading_zeros\<close>: the loop overwrites \<open>res\<close> at every non-zero byte.\<close>

definition lz_step :: "nat \<times> u8 \<Rightarrow> u32 \<Rightarrow> u32" where
  "lz_step = (\<lambda>(i, itm) res. if itm = 0 then res else 8 * of_nat i + u8_leading_zeros itm)"

definition leading_zeros :: "blake2_hash \<Rightarrow> u32" where
  "leading_zeros h =
     u32_saturating_sub (fold lz_step (enumerate 0 (hash_bytes h)) (of_nat max_power)) 1"

text \<open>
  What the comment of \<open>leading_zeros\<close> describes: the number of leading zero bits of the
  big-endian number, minus one, and 0 where that would be negative.
\<close>

definition documented_leading_zeros :: "blake2_hash \<Rightarrow> nat" where
  "documented_leading_zeros h = length (takeWhile Not (concat (map byte_bits (hash_bytes h)))) - 1"

lemma byte_lz_le: "byte_lz b \<le> 8"
  using length_takeWhile_le [of Not "byte_bits b"] by (simp add: byte_lz_def byte_bits_def)

lemma byte_bits_zero [simp]: "byte_bits 0 = replicate 8 False"
  by (simp add: byte_bits_def numeral_eq_Suc)

lemma byte_bits_nonzero: "b \<noteq> 0 \<Longrightarrow> True \<in> set (byte_bits b)"
proof -
  assume "b \<noteq> 0"
  then obtain k where "bit b k" by (auto simp: bit_eq_iff)
  moreover from this have "k < 8" using bit_imp_le_length [of b k] by simp
  then have "k \<in> {7, 6, 5, 4, 3, 2, 1, 0}" by auto
  ultimately show ?thesis by (auto simp: byte_bits_def)
qed

lemma byte_lz_nonzero: "b \<noteq> 0 \<Longrightarrow> byte_lz b < 8"
proof -
  assume "b \<noteq> 0"
  then have "\<exists>x \<in> set (byte_bits b). \<not> Not x" using byte_bits_nonzero by auto
  then have "takeWhile Not (byte_bits b) \<noteq> byte_bits b"
    by (metis takeWhile_eq_all_conv)
  then have "length (takeWhile Not (byte_bits b)) < length (byte_bits b)"
    by (metis le_neq_implies_less length_takeWhile_le takeWhile_eq_take take_all_iff order_refl)
  then show ?thesis by (simp add: byte_lz_def byte_bits_def)
qed

lemma lz_fold_zeros: "\<forall>b \<in> set bs. b = 0 \<Longrightarrow> fold lz_step (enumerate k bs) r = r"
  by (induction bs arbitrary: k) (auto simp: lz_step_def)

lemma lz_fold_last:
  assumes "b \<noteq> 0" and "\<forall>y \<in> set ys. y = 0"
  shows "fold lz_step (enumerate k (xs @ b # ys)) r = 8 * of_nat (k + length xs) + u8_leading_zeros b"
  using assms lz_fold_zeros [of ys] by (simp add: enumerate_append_eq lz_step_def)

lemma unat_lz: "i < 32 \<Longrightarrow> unat (8 * of_nat i + u8_leading_zeros b :: u32) = 8 * i + byte_lz b"
proof -
  assume "i < 32"
  then have "8 * i + byte_lz b < 2 ^ 32" using byte_lz_le [of b] by simp
  moreover have "8 * of_nat i + u8_leading_zeros b = (of_nat (8 * i + byte_lz b) :: u32)"
    by (simp add: u8_leading_zeros_def)
  ultimately show ?thesis by (simp only: unat_of_nat) simp
qed

lemma unat_saturating_sub: "unat (u32_saturating_sub a b) = unat a - unat b"
  by (simp add: u32_saturating_sub_def unat_sub_if' word_less_nat_alt)

lemma leading_zeros_all_zero: "leading_zeros hash_zero = 255"
  by (simp add: leading_zeros_def lz_fold_zeros hash_zero_def BLAKE2_HASH_SIZE_def u32_saturating_sub_def)

lemma leading_zeros_split:
  assumes "hash_bytes h = xs @ b # ys" and "b \<noteq> 0" and "\<forall>y \<in> set ys. y = 0"
  shows "unat (leading_zeros h) = 8 * length xs + byte_lz b - 1"
proof -
  from assms(1) have "length xs < 32"
    using length_hash_bytes [of h] by simp
  with assms show ?thesis
    using lz_fold_last [of b ys 0 xs] by (simp add: leading_zeros_def unat_saturating_sub unat_lz)
qed

lemma hash_cases_last:
  obtains (zero) "h = hash_zero"
  | (last) xs b ys where "hash_bytes h = xs @ b # ys" "b \<noteq> 0" "\<forall>y \<in> set ys. y = 0"
proof (cases "\<exists>b \<in> set (hash_bytes h). b \<noteq> 0")
  case True
  from split_list_last_prop [OF this] show ?thesis using that(2) by blast
next
  case False
  then have "h = hash_zero" by (intro hash_eqI) (simp add: list_all_iff all_set_conv_all_nth)
  then show ?thesis by (rule that(1))
qed

lemma leading_zeros_le: "unat (leading_zeros h) \<le> 255"
proof (cases h rule: hash_cases_last)
  case zero
  then show ?thesis by (simp add: leading_zeros_all_zero)
next
  case (last xs b ys)
  then show ?thesis
    using leading_zeros_split [OF last] byte_lz_nonzero [of b] length_hash_bytes [of h] by simp
qed

lemma leading_zeros_255: "unat (leading_zeros h) = 255 \<longleftrightarrow> h = hash_zero"
proof (cases h rule: hash_cases_last)
  case zero
  then show ?thesis by (simp add: leading_zeros_all_zero)
next
  case (last xs b ys)
  then have "b \<in> set (hash_bytes h)" by simp
  then have "h \<noteq> hash_zero" using last(2) by (auto simp: hash_zero_def BLAKE2_HASH_SIZE_def)
  then show ?thesis
    using leading_zeros_split [OF last] byte_lz_nonzero [of b] last(1,2) length_hash_bytes [of h] by simp
qed

lemma concat_bits_split:
  assumes "\<forall>x \<in> set xs. x = (0 :: u8)" and "b \<noteq> 0"
  shows "length (takeWhile Not (concat (map byte_bits (xs @ b # ys)))) = 8 * length xs + byte_lz b"
proof -
  have "\<And>x. x \<in> set (concat (map byte_bits xs)) \<Longrightarrow> \<not> x"
    using assms(1) by auto
  then have "takeWhile Not (concat (map byte_bits xs) @ byte_bits b @ concat (map byte_bits ys)) =
      concat (map byte_bits xs) @ takeWhile Not (byte_bits b @ concat (map byte_bits ys))"
    by (rule takeWhile_append2)
  moreover have "takeWhile Not (byte_bits b @ concat (map byte_bits ys)) = takeWhile Not (byte_bits b)"
    by (rule takeWhile_append1 [of True]) (use byte_bits_nonzero [OF assms(2)] in auto)
  moreover have "length (concat (map byte_bits xs)) = 8 * length xs"
    by (induction xs) (simp_all add: byte_bits_def)
  ultimately show ?thesis by (simp add: byte_lz_def)
qed


text \<open>
  C28. \<open>leading_zeros\<close> returns what its comment describes exactly for the hashes with at most
  one non-zero byte: the loop does not stop at the first non-zero byte, so any two non-zero
  bytes make the result differ from the number of leading zero bits minus one.
\<close>

theorem leading_zeros_documented_iff:
  "unat (leading_zeros h) = documented_leading_zeros h \<longleftrightarrow>
     length (filter (\<lambda>b. b \<noteq> 0) (hash_bytes h)) \<le> 1"
proof (cases h rule: hash_cases_last)
  case zero
  have "concat (map byte_bits (replicate 32 0)) = replicate 256 False"
    by (simp add: numeral_eq_Suc)
  then show ?thesis
    by (simp add: zero leading_zeros_all_zero documented_leading_zeros_def takeWhile_replicate)
next
  case (last xs b ys)
  have flt: "length (filter (\<lambda>b. b \<noteq> 0) (hash_bytes h)) = Suc (length (filter (\<lambda>b. b \<noteq> 0) xs))"
    using last by (simp add: filter_empty_conv)
  show ?thesis
  proof (cases "\<exists>c \<in> set xs. c \<noteq> 0")
    case True
    from split_list_first_prop [OF this]
    obtain us c vs where xs: "xs = us @ c # vs" "c \<noteq> 0" "\<forall>u \<in> set us. u = 0"
      by auto
    then have "documented_leading_zeros h = 8 * length us + byte_lz c - 1"
      using concat_bits_split [OF xs(3,2), of "vs @ b # ys"] last(1) by (simp add: documented_leading_zeros_def)
    then show ?thesis
      using leading_zeros_split [OF last] byte_lz_nonzero [OF xs(2)] xs(1,2) flt by simp
  next
    case False
    then have "documented_leading_zeros h = 8 * length xs + byte_lz b - 1"
      using concat_bits_split [of xs b ys] last by (simp add: documented_leading_zeros_def)
    moreover have "filter (\<lambda>b. b \<noteq> 0) xs = []" using False by (simp add: filter_empty_conv)
    ultimately show ?thesis using leading_zeros_split [OF last] flt by simp
  qed
qed

text \<open>
  C30. Deserialising a hash panics exactly when the data format hands over a byte string that is
  not 32 bytes long: the \<open>copy_from_slice\<close> of \<open>visit_bytes\<close> is the only failure, it is a
  panic and not a deserialisation error, and the format's own errors are passed on.
\<close>

theorem hash_deserialize_panic_iff:
  "(\<exists>p. hash_deserialize deserialize_bytes d = Inl p) \<longleftrightarrow>
     (\<exists>value. deserialize_bytes d = Inr value \<and> length value \<noteq> 32)"
  by (cases "deserialize_bytes d") (auto simp: hash_deserialize_def visit_bytes_eq)

text \<open>
  C29. A hash survives serialisation: for every data format that hands back the byte string it
  was given, deserialising what \<open>serialize\<close> wrote gives the hash again, without a panic.
\<close>

theorem hash_serialize_roundtrip:
  assumes "\<And>bs out. serialize_bytes bs = Inr out \<Longrightarrow> deserialize_bytes out = Inr bs"
    and "hash_serialize serialize_bytes h = Inr out"
  shows "hash_deserialize deserialize_bytes out = Inr (Inr h)"
  using assms by (simp add: hash_deserialize_def hash_serialize_def visit_bytes_eq)

theorem hash_serialize_roundtrip_witness:
  "hash_deserialize (\<lambda>ws. if ws = [] then Inl ''eof'' else Inr (tl ws)) (196 # replicate 32 0) =
     Inr (Inr hash_zero)"
proof (rule hash_serialize_roundtrip [of "\<lambda>bs. Inr (196 # bs) :: string + u8 list"])
  show "hash_serialize (\<lambda>bs. Inr (196 # bs)) hash_zero = (Inr (196 # replicate 32 0) :: string + u8 list)"
    by (simp add: hash_serialize_def)
qed auto

end
