(* ===== verification/Std_HashMap.thy ===== *)
theory Std_HashMap
  imports WD_Prelude "HOL-Library.AList"
begin

text \<open>
  What the program uses of \<open>std::collections::HashMap\<close>: \<open>new\<close>, \<open>insert\<close>, \<open>get\<close>,
  \<open>len\<close>, iteration and \<open>drain\<close>. A map holds its entries in the order of first insertion
  and the iteration order of its hasher, which \<open>HashMap::new\<close> draws at random: a function
  from the keys in insertion order to the keys in iteration order. The program never removes a
  single key, so the keys in insertion order determine the table's layout.
\<close>

record ('k, 'v) hash_map =
  hm_entries :: "('k \<times> 'v) list"
  hm_order :: "'k list \<Rightarrow> 'k list"

definition hm_new :: "('k list \<Rightarrow> 'k list) \<Rightarrow> ('k, 'v) hash_map" where
  "hm_new order = \<lparr>hm_entries = [], hm_order = order\<rparr>"

definition hm_get :: "('k, 'v) hash_map \<Rightarrow> 'k \<Rightarrow> 'v option" where
  "hm_get m k = map_of (hm_entries m) k"

text \<open>\<open>insert\<close> returns the value the key had.\<close>

definition hm_insert :: "'k \<Rightarrow> 'v \<Rightarrow> ('k, 'v) hash_map \<Rightarrow> 'v option \<times> ('k, 'v) hash_map" where
  "hm_insert k v m = (hm_get m k, m\<lparr>hm_entries := AList.update k v (hm_entries m)\<rparr>)"

definition hm_len :: "('k, 'v) hash_map \<Rightarrow> nat" where
  "hm_len m = length (hm_entries m)"

definition hm_keys :: "('k, 'v) hash_map \<Rightarrow> 'k list" where
  "hm_keys m = hm_order m (map fst (hm_entries m))"

definition hm_iter :: "('k, 'v) hash_map \<Rightarrow> ('k \<times> 'v) list" where
  "hm_iter m = map (\<lambda>k. (k, the (hm_get m k))) (hm_keys m)"

definition hm_drain :: "('k, 'v) hash_map \<Rightarrow> ('k \<times> 'v) list \<times> ('k, 'v) hash_map" where
  "hm_drain m = (hm_iter m, m\<lparr>hm_entries := []\<rparr>)"

text \<open>An iteration order enumerates the keys, each once.\<close>

definition enumerates :: "('k list \<Rightarrow> 'k list) \<Rightarrow> bool" where
  "enumerates order \<longleftrightarrow> (\<forall>ks. mset (order ks) = mset ks)"

definition hm_wf :: "('k, 'v) hash_map \<Rightarrow> bool" where
  "hm_wf m \<longleftrightarrow> distinct (map fst (hm_entries m)) \<and> enumerates (hm_order m)"

lemma enumerates_id [simp]: "enumerates (\<lambda>ks. ks)"
  by (simp add: enumerates_def)

lemma enumerates_rev [simp]: "enumerates rev"
  by (simp add: enumerates_def)

lemma length_alist_update:
  "length (AList.update k v al) = (if k \<in> fst ` set al then length al else Suc (length al))"
  by (induction al) auto

lemma hm_order_insert [simp]: "hm_order (snd (hm_insert k v m)) = hm_order m"
  by (simp add: hm_insert_def)

lemma hm_get_new [simp]: "hm_get (hm_new order) = (\<lambda>k. None)"
  by (simp add: hm_get_def hm_new_def fun_eq_iff)

lemma hm_get_insert [simp]: "hm_get (snd (hm_insert k v m)) = (hm_get m)(k \<mapsto> v)"
  by (simp add: hm_insert_def hm_get_def update_conv' fun_eq_iff)

lemma hm_wf_new [simp]: "hm_wf (hm_new order) \<longleftrightarrow> enumerates order"
  by (simp add: hm_wf_def hm_new_def)

lemma hm_wf_insert [simp, intro]: "hm_wf m \<Longrightarrow> hm_wf (snd (hm_insert k v m))"
  by (simp add: hm_wf_def hm_insert_def distinct_update)

lemma mset_hm_keys: "hm_wf m \<Longrightarrow> mset (hm_keys m) = mset (map fst (hm_entries m))"
  by (simp add: hm_keys_def hm_wf_def enumerates_def)

lemma set_hm_keys: "hm_wf m \<Longrightarrow> set (hm_keys m) = dom (hm_get m)"
  by (metis dom_map_of_conv_image_fst hm_get_def list.set_map mset_eq_setD mset_hm_keys ext)

lemma distinct_hm_keys: "hm_wf m \<Longrightarrow> distinct (hm_keys m)"
  by (metis hm_wf_def mset_eq_imp_distinct_iff mset_hm_keys)

lemma length_hm_iter [simp]: "hm_wf m \<Longrightarrow> length (hm_iter m) = hm_len m"
  using mset_eq_length [OF mset_hm_keys, of m] by (simp add: hm_iter_def hm_len_def)

lemma fst_hm_iter [simp]: "map fst (hm_iter m) = hm_keys m"
  by (simp add: hm_iter_def comp_def)

lemma set_hm_iter: "hm_wf m \<Longrightarrow> (k, v) \<in> set (hm_iter m) \<longleftrightarrow> hm_get m k = Some v"
  using set_hm_keys [of m] by (force simp: hm_iter_def)

lemma distinct_hm_iter: "hm_wf m \<Longrightarrow> distinct (hm_iter m)"
  using distinct_hm_keys [of m] by (metis distinct_map fst_hm_iter)

lemma hm_len_card: "hm_wf m \<Longrightarrow> hm_len m = card (dom (hm_get m))"
  by (metis distinct_card distinct_hm_keys fst_hm_iter length_hm_iter length_map set_hm_keys)

lemma hm_iter_new [simp]: "enumerates order \<Longrightarrow> hm_iter (hm_new order) = []"
  by (metis ext fst_hm_iter hm_get_new hm_wf_new length_0_conv length_map list.set_intros(1)
      neq_Nil_conv option.distinct(1) set_hm_iter surj_pair)

subsection \<open>The contract of a finite map\<close>

locale finite_map =
  fixes is_new :: "'m \<Rightarrow> bool" and insert :: "'k \<Rightarrow> 'v \<Rightarrow> 'm \<Rightarrow> 'm" and get :: "'m \<Rightarrow> 'k \<Rightarrow> 'v option"
    and iter :: "'m \<Rightarrow> ('k \<times> 'v) list" and invar :: "'m \<Rightarrow> bool"
  assumes get_new: "is_new m \<Longrightarrow> get m = (\<lambda>_. None)"
    and get_insert: "invar m \<Longrightarrow> get (insert k v m) = (get m)(k \<mapsto> v)"
    and iter_iff: "invar m \<Longrightarrow> (k, v) \<in> set (iter m) \<longleftrightarrow> get m k = Some v"
    and iter_distinct: "invar m \<Longrightarrow> distinct (map fst (iter m))"
    and invar_new: "is_new m \<Longrightarrow> invar m"
    and invar_insert: "invar m \<Longrightarrow> invar (insert k v m)"
begin

lemma invar_inserts: "invar m \<Longrightarrow> invar (fold (\<lambda>(k, v). insert k v) kvs m)"
  by (induction kvs arbitrary: m) (auto intro: invar_insert)

lemma get_inserts: "invar m \<Longrightarrow> get (fold (\<lambda>(k, v). insert k v) kvs m) = get m ++ map_of (rev kvs)"
  by (induction kvs arbitrary: m) (auto simp: get_insert invar_insert map_add_def split: option.splits)

lemma iter_map_of: "invar m \<Longrightarrow> map_of (iter m) = get m"
  by (metis ext iter_distinct iter_iff map_of_eq_Some_iff not_None_eq)

lemma length_iter_insert:
  "invar m \<Longrightarrow> length (iter (insert k v m)) =
     (if get m k = None then Suc (length (iter m)) else length (iter m))"
proof -
  assume m: "invar m"
  have len: "length (iter m') = card (dom (get m'))" if "invar m'" for m'
    using distinct_card [OF iter_distinct [OF that]] iter_map_of [OF that]
    by (metis dom_map_of_conv_image_fst length_map list.set_map)
  have "finite (dom (get m))" by (metis finite_dom_map_of iter_map_of m)
  then show ?thesis
    using len [OF m] len [OF invar_insert [OF m]] by (auto simp: get_insert [OF m] card_insert_if domIff)
qed

end

text \<open>The maps of the standard library are finite maps, whatever their iteration order.\<close>

interpretation std_map: finite_map "\<lambda>m. \<exists>order. enumerates order \<and> m = hm_new order"
  "\<lambda>k v m. snd (hm_insert k v m)" hm_get hm_iter hm_wf
  by unfold_locales (auto simp: set_hm_iter distinct_hm_keys)

end
