(* ===== verification/Types.thy ===== *)
theory Types
  imports Hash Std_HashMap
begin

text \<open>
  The value types of \<open>src/src/types.rs\<close>: \<open>PeerId\<close> with its distance rank, the protocol's
  \<open>Message\<close> and \<open>Contact\<close>, with \<open>SocketAddr\<close> as the standard library defines it.
\<close>

subsection \<open>PeerId\<close>

datatype peer_id = PeerId (peer_hash: blake2_hash)

definition peer_id_new :: "(u8 list \<Rightarrow> u8 list) \<Rightarrow> u8 list \<Rightarrow> peer_id outcome" where
  "peer_id_new blake2s seed = res_map PeerId (hash_new blake2s seed)"

text \<open>The argument of \<open>raw\<close> is an array of 32 bytes.\<close>

definition peer_id_raw :: "u8 list \<Rightarrow> peer_id" where
  "peer_id_raw bytes = PeerId (Blake2Hash bytes)"

text \<open>
  \<open>new_insecure_random\<close>: \<open>rand_u64\<close> stands for \<open>oorandom::Rand64::rand_u64\<close> on the
  generator's state and \<open>bytes_of\<close> for \<open>bytemuck::bytes_of\<close> on an array of 64-bit words.
\<close>

fun fill_random :: "('r \<Rightarrow> u64 \<times> 'r) \<Rightarrow> nat \<Rightarrow> 'r \<Rightarrow> u64 list \<times> 'r" where
  "fill_random rand_u64 0 rng = ([], rng)"
| "fill_random rand_u64 (Suc n) rng =
     (let (v, rng1) = rand_u64 rng; (vs, rng2) = fill_random rand_u64 n rng1 in (v # vs, rng2))"

definition new_insecure_random ::
  "('r \<Rightarrow> u64 \<times> 'r) \<Rightarrow> (u64 list \<Rightarrow> u8 list) \<Rightarrow> (u8 list \<Rightarrow> u8 list) \<Rightarrow> 'r \<Rightarrow> (peer_id \<times> 'r) outcome" where
  "new_insecure_random rand_u64 bytes_of blake2s rng =
     (let (data, rng') = fill_random rand_u64 BLAKE2_HASH_SIZE rng
      in res_map (\<lambda>h. (PeerId h, rng')) (hash_new blake2s (bytes_of data)))"

definition peer_id_to_base64 :: "(u8 list \<Rightarrow> string) \<Rightarrow> peer_id \<Rightarrow> string" where
  "peer_id_to_base64 base64_encode p = hash_to_base64 base64_encode (peer_hash p)"

text \<open>The \<open>Debug\<close> output of a peer id.\<close>

definition peer_id_debug :: "(u8 list \<Rightarrow> string) \<Rightarrow> peer_id \<Rightarrow> string" where
  "peer_id_debug base64_encode p = ''PEERID:'' @ peer_id_to_base64 base64_encode p"

definition distance_rank :: "peer_id \<Rightarrow> peer_id \<Rightarrow> u32" where
  "distance_rank p other = leading_zeros (bitxor (peer_hash p) (peer_hash other))"

definition peer_id_bytes :: "peer_id \<Rightarrow> u8 list" where
  "peer_id_bytes p = hash_bytes (peer_hash p)"

definition peer_id_cmp :: "peer_id \<Rightarrow> peer_id \<Rightarrow> ordering" where
  "peer_id_cmp p q = hash_cmp (peer_hash p) (peer_hash q)"

text \<open>The derived \<open>Ord\<close> of the newtype is the order of the hashes.\<close>

instantiation peer_id :: linorder
begin

definition less_eq_peer_id :: "peer_id \<Rightarrow> peer_id \<Rightarrow> bool" where
  "p \<le> q \<longleftrightarrow> peer_id_cmp p q \<noteq> Greater"

definition less_peer_id :: "peer_id \<Rightarrow> peer_id \<Rightarrow> bool" where
  "p < q \<longleftrightarrow> peer_id_cmp p q = Less"

instance
proof
  fix p q r :: peer_id
  have le: "\<And>p q. p \<le> q \<longleftrightarrow> peer_hash p \<le> peer_hash q"
    by (simp add: less_eq_peer_id_def less_eq_blake2_hash_def peer_id_cmp_def)
  have less: "p < q \<longleftrightarrow> peer_hash p < peer_hash q"
    by (simp add: less_peer_id_def less_blake2_hash_def peer_id_cmp_def)
  show "p < q \<longleftrightarrow> p \<le> q \<and> \<not> q \<le> p" by (simp add: le less less_le_not_le)
  show "p \<le> p" by (simp add: le)
  show "p \<le> q \<Longrightarrow> q \<le> r \<Longrightarrow> p \<le> r" by (simp add: le)
  show "p \<le> q \<Longrightarrow> q \<le> p \<Longrightarrow> p = q" by (simp add: le peer_id.expand)
  show "p \<le> q \<or> q \<le> p" by (simp add: le linear)
qed

end

lemma peer_hash_eq [simp]: "peer_hash p = peer_hash q \<longleftrightarrow> p = q"
  by (auto intro: peer_id.expand)

abbreviation rank_of :: "peer_id \<Rightarrow> peer_id \<Rightarrow> nat" where
  "rank_of self_id p \<equiv> unat (distance_rank self_id p)"

lemma rank_of_less [simp]: "rank_of a b < 256"
  using leading_zeros_le [of "bitxor (peer_hash a) (peer_hash b)"] by (simp add: distance_rank_def)

lemma distance_rank_commute: "distance_rank a b = distance_rank b a"
  by (simp add: distance_rank_def bitxor_commute)

lemma rank_of_eq_255 [simp]: "rank_of a b = 255 \<longleftrightarrow> a = b"
  by (simp add: distance_rank_def leading_zeros_255)

lemma rank_of_self [simp]: "rank_of a a = 255"
  by simp

text \<open>
  Peers with a single non-zero byte, seen from the peer whose hash is zero: a source of
  concrete peers of every rank.
\<close>

abbreviation zero_peer :: peer_id where
  "zero_peer \<equiv> PeerId hash_zero"

definition unit_peer :: "nat \<Rightarrow> u8 \<Rightarrow> peer_id" where
  "unit_peer i b = peer_id_raw (replicate i 0 @ b # replicate (31 - i) 0)"

lemma rank_of_unit_peer:
  "i < 32 \<Longrightarrow> b \<noteq> 0 \<Longrightarrow> rank_of zero_peer (unit_peer i b) = 8 * i + byte_lz b - 1"
  by (simp add: unit_peer_def distance_rank_def peer_id_raw_def leading_zeros_split [of _ "replicate i 0" b "replicate (31 - i) 0"])

lemma unit_peer_not_zero: "i < 32 \<Longrightarrow> b \<noteq> 0 \<Longrightarrow> unit_peer i b \<noteq> zero_peer"
  using rank_of_unit_peer [of i b] byte_lz_nonzero [of b] by auto

lemma unit_peer_inject:
  assumes "i < 32" and "b \<noteq> 0"
  shows "unit_peer i b = unit_peer i c \<longleftrightarrow> b = c"
proof
  assume "unit_peer i b = unit_peer i c"
  then have "hash_bytes (peer_hash (unit_peer i b)) ! i = hash_bytes (peer_hash (unit_peer i c)) ! i"
    by simp
  then show "b = c" using assms by (simp add: unit_peer_def peer_id_raw_def nth_append)
qed simp

text \<open>The distance rank splits the peers into \<open>max_power\<close> buckets.\<close>

interpretation dist: bucketing "rank_of self_id" max_power for self_id
  by unfold_locales simp

lemma length_fill_random [simp]: "length (fst (fill_random rand_u64 n rng)) = n"
  by (induction n arbitrary: rng) (auto split: prod.splits dest: fstI)

subsection \<open>SocketAddr, Message and Contact\<close>

datatype socket_addr =
    V4 (v4_ip: u32) (v4_port: u16)
  | V6 (v6_ip: u128) (v6_port: u16) (flowinfo: u32) (scope_id: u32)

datatype message =
    Ping peer_id
  | Pong peer_id
  | FindPeer peer_id
  | FindPeerResponsePeerFound peer_id socket_addr
  | FindPeerResponsePeerNotFound peer_id "(peer_id \<times> socket_addr) list"

record contact =
  ct_peer_id :: peer_id
  ct_address :: socket_addr

text \<open>\<open>Ipv6Addr::LOCALHOST\<close> is \<open>::1\<close>.\<close>

definition new_dummy :: "peer_id \<Rightarrow> contact" where
  "new_dummy p = \<lparr>ct_peer_id = p, ct_address = V6 1 1234 0 0\<rparr>"

text \<open>The derived \<open>PartialEq\<close> and the hand-written \<open>Ord\<close> of \<open>Contact\<close>.\<close>

definition contact_eq :: "contact \<Rightarrow> contact \<Rightarrow> bool" where
  "contact_eq c d \<longleftrightarrow> ct_peer_id c = ct_peer_id d \<and> ct_address c = ct_address d"

definition contact_cmp :: "contact \<Rightarrow> contact \<Rightarrow> ordering" where
  "contact_cmp c d = peer_id_cmp (ct_peer_id c) (ct_peer_id d)"

definition contact_partial_cmp :: "contact \<Rightarrow> contact \<Rightarrow> ordering option" where
  "contact_partial_cmp c d = Some (contact_cmp c d)"

lemma peer_id_cmp_Equal [simp]: "peer_id_cmp p q = Equal \<longleftrightarrow> p = q"
  by (simp add: peer_id_cmp_def hash_cmp_def hash_bytes_inject)

subsection \<open>Properties\<close>

text \<open>
  C27. The distance rank of two peers always indexes one of the \<open>max_power\<close> buckets, does not
  depend on the order of the two, and is the last bucket exactly for a peer and itself: no
  other peer ever shares the bucket of the peer's own id.
\<close>

theorem distance_rank_laws:
  "unat (distance_rank a b) < max_power \<and> distance_rank a b = distance_rank b a \<and>
   (unat (distance_rank a b) = max_power - 1 \<longleftrightarrow> a = b)"
  by (simp add: distance_rank_commute)

text \<open>
  The order of contacts looks at the peer id alone while their equality looks at the address
  too: two contacts compare as \<open>Equal\<close> without being equal exactly when they give two addresses
  for one peer.
\<close>

theorem contact_order_vs_equality:
  "contact_cmp c d = Equal \<and> \<not> contact_eq c d \<longleftrightarrow>
     ct_peer_id c = ct_peer_id d \<and> ct_address c \<noteq> ct_address d"
  by (auto simp: contact_cmp_def contact_eq_def)

text \<open>
  A random peer id is made without a panic whenever the digest has the 32 bytes of BLAKE2s,
  its bytes are the digest of the generator's next 32 words, and the generator advances by
  exactly those.
\<close>

theorem new_insecure_random_result:
  assumes "\<And>bs. length (blake2s bs) = 32"
  shows "new_insecure_random rand_u64 bytes_of blake2s rng =
    Inr (peer_id_raw (blake2s (bytes_of (fst (fill_random rand_u64 32 rng)))),
         snd (fill_random rand_u64 32 rng))"
  using assms by (simp add: new_insecure_random_def hash_new_eq peer_id_raw_def BLAKE2_HASH_SIZE_def
      split: prod.splits)

theorem new_insecure_random_witness:
  "new_insecure_random (\<lambda>r :: u64. (r, r + 1)) (map ucast) (\<lambda>bs. take 32 (bs @ replicate 32 0)) 7 =
     Inr (peer_id_raw (map of_nat [7..<39]), 39)"
proof -
  have "fill_random (\<lambda>r :: u64. (r, r + 1)) 32 7 = (map of_nat [7..<39], 39)"
    by (simp add: numeral_eq_Suc)
  then show ?thesis
    using new_insecure_random_result [of "\<lambda>bs. take 32 (bs @ replicate 32 0)" "\<lambda>r :: u64. (r, r + 1)"
        "map ucast" 7]
    by (simp add: min_def comp_def)
qed

end
