(* ===== verification/PeerMap.thy ===== *)
theory PeerMap
  imports Types
begin

text \<open>
  \<open>Bucket\<close> and \<open>PeerMap\<close> of \<open>src/src/types.rs\<close>: the routing table the worker uses, one
  hash map per distance rank. The contract of a routing table (\<open>peer_table\<close>, and
  \<open>exact_peer_table\<close> where nothing is evicted) is stated here and interpreted on the
  definitions below; \<open>FlatPeerMap\<close> interprets the weaker one.
\<close>

subsection \<open>The contract of a routing table\<close>

locale peer_table =
  fixes invar :: "'t \<Rightarrow> bool" and view :: "'t \<Rightarrow> 'k \<Rightarrow> 'a option"
    and insert :: "'k \<times> 'a \<Rightarrow> 't \<Rightarrow> 't outcome" and contains :: "'t \<Rightarrow> 'k \<Rightarrow> ('k \<times> 'a) option outcome"
  assumes insert_total: "invar t \<Longrightarrow> \<exists>t'. insert x t = Inr t'"
    and insert_invar: "invar t \<Longrightarrow> insert x t = Inr t' \<Longrightarrow> invar t'"
    and insert_same: "invar t \<Longrightarrow> insert (k, a) t = Inr t' \<Longrightarrow> view t' k = Some a"
    and insert_other:
      "invar t \<Longrightarrow> insert (k, a) t = Inr t' \<Longrightarrow> k' \<noteq> k \<Longrightarrow> view t' k' = None \<or> view t' k' = view t k'"
    and contains_view: "invar t \<Longrightarrow> contains t k = Inr (map_option (Pair k) (view t k))"
begin

lemma inserts_total: "invar t \<Longrightarrow> \<exists>t'. res_fold insert xs t = Inr t' \<and> invar t'"
proof (induction xs arbitrary: t)
  case (Cons x xs)
  obtain t1 where "insert x t = Inr t1" using insert_total [OF Cons.prems] by blast
  then show ?case using Cons.IH [OF insert_invar [OF Cons.prems]] by simp
qed simp

lemma inserts_origin:
  "invar t \<Longrightarrow> res_fold insert xs t = Inr t' \<Longrightarrow> view t' k = Some a \<Longrightarrow>
     (k, a) \<in> set xs \<or> view t k = Some a"
proof (induction xs arbitrary: t)
  case (Cons x xs)
  obtain k1 a1 where x: "x = (k1, a1)" by fastforce
  from Cons.prems(2) obtain t1 where t1: "insert x t = Inr t1" "res_fold insert xs t1 = Inr t'"
    by (auto simp: res_bind_Inr_iff)
  from Cons.IH [OF insert_invar [OF Cons.prems(1) t1(1)] t1(2) Cons.prems(3)]
  show ?case
    using insert_same [OF Cons.prems(1), of k1 a1 t1] insert_other [OF Cons.prems(1), of k1 a1 t1 k] t1(1) x
    by (cases "k = k1") auto
qed simp

lemma insert_contains:
  "invar t \<Longrightarrow> insert (k, a) t = Inr t' \<Longrightarrow> contains t' k = Inr (Some (k, a))"
  by (simp add: contains_view [OF insert_invar] insert_same)

end

locale exact_peer_table = peer_table +
  assumes insert_keeps: "invar t \<Longrightarrow> insert (k, a) t = Inr t' \<Longrightarrow> k' \<noteq> k \<Longrightarrow> view t' k' = view t k'"
begin

lemma insert_view: "invar t \<Longrightarrow> insert (k, a) t = Inr t' \<Longrightarrow> view t' = (view t)(k \<mapsto> a)"
  by (rule ext) (simp add: insert_same insert_keeps)

lemma inserts_view:
  "invar t \<Longrightarrow> res_fold insert xs t = Inr t' \<Longrightarrow> view t' = view t ++ map_of (rev xs)"
proof (induction xs arbitrary: t)
  case (Cons x xs)
  obtain k a where x: "x = (k, a)" by fastforce
  from Cons.prems(2) obtain t1 where t1: "insert (k, a) t = Inr t1" "res_fold insert xs t1 = Inr t'"
    by (auto simp: res_bind_Inr_iff x)
  then show ?case
    using Cons.IH [OF insert_invar [OF Cons.prems(1) t1(1)] t1(2)] insert_view [OF Cons.prems(1) t1(1)]
    by (simp add: x map_add_def fun_eq_iff split: option.splits)
qed simp

end

subsection \<open>Bucket\<close>

record bucket =
  known_peers :: "(peer_id, socket_addr) hash_map"

definition bucket_new :: "(peer_id list \<Rightarrow> peer_id list) \<Rightarrow> bucket" where
  "bucket_new order = \<lparr>known_peers = hm_new order\<rparr>"

text \<open>The value that \<open>HashMap::insert\<close> returns only decides whether a line is logged.\<close>

definition bucket_insert :: "contact \<Rightarrow> bucket \<Rightarrow> bucket" where
  "bucket_insert peer b =
     b\<lparr>known_peers := snd (hm_insert (ct_peer_id peer) (ct_address peer) (known_peers b))\<rparr>"

definition bucket_contains :: "bucket \<Rightarrow> peer_id \<Rightarrow> (peer_id \<times> socket_addr) option" where
  "bucket_contains b peer = map_option (\<lambda>addr. (peer, addr)) (hm_get (known_peers b) peer)"

abbreviation bucket_items :: "bucket \<Rightarrow> (peer_id \<times> socket_addr) list" where
  "bucket_items b \<equiv> hm_iter (known_peers b)"

subsection \<open>PeerMap\<close>

record peer_map =
  buckets :: "bucket list"
  bucket_size :: nat

text \<open>\<open>Default::default\<close>: the vector holds clones of one empty bucket, hasher included.\<close>

definition peer_map_default :: "(peer_id list \<Rightarrow> peer_id list) \<Rightarrow> peer_map" where
  "peer_map_default order =
     (let initial_bucket = bucket_new order
      in \<lparr>buckets = replicate max_power initial_bucket, bucket_size = 16\<rparr>)"

definition peer_map_insert :: "peer_id \<Rightarrow> socket_addr \<Rightarrow> peer_id \<Rightarrow> peer_map \<Rightarrow> peer_map outcome" where
  "peer_map_insert self_id address peer_id pm =
     (let new_peer = \<lparr>ct_peer_id = peer_id, ct_address = address\<rparr>;
          rank = unat (distance_rank self_id peer_id)
      in res_bind (vec_get (buckets pm) rank) (\<lambda>b.
         res_map (\<lambda>bs. pm\<lparr>buckets := bs\<rparr>) (vec_set (buckets pm) rank (bucket_insert new_peer b))))"

text \<open>The loop of \<open>find_closest_peers\<close>; \<open>saturating_sub\<close> is the subtraction on \<open>nat\<close>.\<close>

definition extend_from :: "peer_map \<Rightarrow> nat \<Rightarrow> (peer_id \<times> socket_addr) list \<Rightarrow> (peer_id \<times> socket_addr) list outcome" where
  "extend_from pm i results = res_map (\<lambda>b. results @ bucket_items b) (vec_get (buckets pm) i)"

function closest_loop :: "peer_map \<Rightarrow> nat \<Rightarrow> nat \<Rightarrow> (peer_id \<times> socket_addr) list \<Rightarrow> (peer_id \<times> socket_addr) list outcome" where
  "closest_loop pm search_bucket search_width results =
     (if length results < bucket_size pm \<and> search_width < max_power then
        let target_behind = search_bucket - search_width
        in res_bind (usize_add search_bucket search_width) (\<lambda>target_ahead.
           res_bind (if search_width > search_bucket then extend_from pm target_behind results
                     else Inr results) (\<lambda>results1.
           res_bind (if target_ahead < max_power then extend_from pm target_ahead results1
                     else Inr results1) (\<lambda>results2.
           closest_loop pm search_bucket (search_width + 1) results2)))
      else Inr results)"
  by pat_completeness auto
termination
  by (relation "measure (\<lambda>(pm, sb, w, r). max_power - w)") auto

definition find_closest_peers :: "peer_map \<Rightarrow> peer_id \<Rightarrow> peer_id \<Rightarrow> (peer_id \<times> socket_addr) list outcome" where
  "find_closest_peers pm self_id peer_id =
     (let search_bucket = unat (distance_rank self_id peer_id)
      in res_bind (extend_from pm search_bucket []) (\<lambda>search_results.
         res_map (take (bucket_size pm)) (closest_loop pm search_bucket 1 search_results)))"

definition peer_map_contains :: "peer_map \<Rightarrow> peer_id \<Rightarrow> peer_id \<Rightarrow> (peer_id \<times> socket_addr) option outcome" where
  "peer_map_contains pm self_id peer_id =
     (let search_bucket = unat (distance_rank self_id peer_id)
      in res_map (\<lambda>b. bucket_contains b peer_id) (vec_get (buckets pm) search_bucket))"

text \<open>\<open>lookup\<close> returns a \<open>Result\<close>: \<open>Inr\<close> for \<open>Ok\<close>, \<open>Inl\<close> for \<open>Err\<close> with the neighbours.\<close>

definition peer_map_lookup ::
  "peer_map \<Rightarrow> peer_id \<Rightarrow> peer_id \<Rightarrow> ((peer_id \<times> socket_addr) list + peer_id \<times> socket_addr) outcome" where
  "peer_map_lookup pm self_id peer_id =
     res_bind (peer_map_contains pm self_id peer_id) (\<lambda>found.
       case found of Some res \<Rightarrow> Inr (Inr res)
       | None \<Rightarrow> res_map Inl (find_closest_peers pm self_id peer_id))"

definition u32_add :: "u32 \<Rightarrow> u32 \<Rightarrow> u32 outcome" where
  "u32_add a b = (if unat a + unat b < 2 ^ 32 then Inr (a + b) else Inl ArithmeticOverflow)"

definition peer_map_count :: "peer_map \<Rightarrow> u32 outcome" where
  "peer_map_count pm = res_fold (\<lambda>b acc. u32_add acc (of_nat (hm_len (known_peers b)))) (buckets pm) 0"

declare closest_loop.simps [simp del]

subsection \<open>Well-formed tables and what they know\<close>

definition pm_wf :: "peer_id \<Rightarrow> peer_map \<Rightarrow> bool" where
  "pm_wf self_id pm \<longleftrightarrow> length (buckets pm) = max_power \<and> (\<forall>b \<in> set (buckets pm). hm_wf (known_peers b)) \<and>
     placed (rank_of self_id) fst (map bucket_items (buckets pm))"

definition pm_view :: "peer_id \<Rightarrow> peer_map \<Rightarrow> peer_id \<Rightarrow> socket_addr option" where
  "pm_view self_id pm p = hm_get (known_peers (buckets pm ! rank_of self_id p)) p"

definition pm_items :: "peer_map \<Rightarrow> (peer_id \<times> socket_addr) list" where
  "pm_items pm = concat (map bucket_items (buckets pm))"

lemma pm_wfD:
  assumes "pm_wf self_id pm"
  shows "length (buckets pm) = 256" and "i < 256 \<Longrightarrow> hm_wf (known_peers (buckets pm ! i))"
    and "placed (rank_of self_id) fst (map bucket_items (buckets pm))"
  using assms by (auto simp: pm_wf_def)

lemma bucket_items_iff:
  assumes "pm_wf self_id pm" and "i < 256"
  shows "(p, a) \<in> set (bucket_items (buckets pm ! i)) \<longleftrightarrow>
    i = rank_of self_id p \<and> pm_view self_id pm p = Some a"
  using placedD [OF pm_wfD(3) [OF assms(1)], of i "(p, a)"] assms
  by (auto simp: pm_wfD pm_view_def set_hm_iter)

lemma pm_items_iff:
  "pm_wf self_id pm \<Longrightarrow> (p, a) \<in> set (pm_items pm) \<longleftrightarrow> pm_view self_id pm p = Some a"
  using dist.placed_mem_concat [OF pm_wfD(3), of self_id pm "(p, a)"]
  by (simp add: pm_items_def pm_wfD bucket_items_iff)

lemma pm_items_distinct: "pm_wf self_id pm \<Longrightarrow> distinct (map fst (pm_items pm))"
  unfolding pm_items_def
  by (rule dist.placed_distinct_keys [OF pm_wfD(3)]) (auto simp: pm_wfD distinct_hm_keys)

lemma dom_pm_view: "pm_wf self_id pm \<Longrightarrow> dom (pm_view self_id pm) = set (map fst (pm_items pm))"
  by (force simp: dom_def simp flip: pm_items_iff)

lemma length_pm_items: "pm_wf self_id pm \<Longrightarrow> length (pm_items pm) = card (dom (pm_view self_id pm))"
  by (metis distinct_card dom_pm_view length_map pm_items_distinct)

lemma pm_wf_default [simp, wd_inv]: "enumerates order \<Longrightarrow> pm_wf self_id (peer_map_default order)"
  by (auto simp: pm_wf_def peer_map_default_def bucket_new_def intro!: placedI)

lemma pm_view_default [simp]: "pm_view self_id (peer_map_default order) = (\<lambda>_. None)"
  by (simp add: pm_view_def peer_map_default_def bucket_new_def fun_eq_iff)

subsection \<open>Insertion and search of one peer\<close>

lemma peer_map_insert_eq [wd_total]:
  "pm_wf self_id pm \<Longrightarrow> peer_map_insert self_id a p pm =
     Inr (pm\<lparr>buckets := (buckets pm)[rank_of self_id p :=
       bucket_insert \<lparr>ct_peer_id = p, ct_address = a\<rparr> (buckets pm ! rank_of self_id p)]\<rparr>)"
  by (simp add: peer_map_insert_def pm_wfD Let_def)

lemma peer_map_insert_wf [wd_inv]:
  assumes wf: "pm_wf self_id pm" and ins: "peer_map_insert self_id a p pm = Inr pm'"
  shows "pm_wf self_id pm'"
proof -
  let ?i = "rank_of self_id p"
  let ?b = "bucket_insert \<lparr>ct_peer_id = p, ct_address = a\<rparr> (buckets pm ! ?i)"
  have pm': "pm' = pm\<lparr>buckets := (buckets pm)[?i := ?b]\<rparr>"
    using ins by (simp add: peer_map_insert_eq wf)
  have b: "hm_wf (known_peers ?b)"
    using pm_wfD(2) [OF wf] by (simp add: bucket_insert_def)
  have "rank_of self_id q = ?i" if "(q, v) \<in> set (bucket_items ?b)" for q v
    using that set_hm_iter [OF b] bucket_items_iff [OF wf, of ?i] pm_wfD(2) [OF wf, of ?i]
    by (auto simp: bucket_insert_def set_hm_iter split: if_splits)
  then have "placed (rank_of self_id) fst (map bucket_items ((buckets pm)[?i := ?b]))"
    using placed_update [OF pm_wfD(3) [OF wf], of "bucket_items ?b" ?i] by (auto simp: map_update)
  then show ?thesis
    using wf b by (auto simp: pm' pm_wf_def dest!: set_update_subset_insert [THEN subsetD])
qed

lemma peer_map_insert_view:
  assumes "pm_wf self_id pm" and "peer_map_insert self_id a p pm = Inr pm'"
  shows "pm_view self_id pm' = (pm_view self_id pm)(p \<mapsto> a)"
proof
  fix q
  show "pm_view self_id pm' q = ((pm_view self_id pm)(p \<mapsto> a)) q"
    using assms(2) pm_wfD(1) [OF assms(1)]
    by (cases "rank_of self_id q = rank_of self_id p")
       (auto simp: peer_map_insert_eq [OF assms(1)] pm_view_def bucket_insert_def)
qed

lemma peer_map_insert_size:
  "pm_wf self_id pm \<Longrightarrow> peer_map_insert self_id a p pm = Inr pm' \<Longrightarrow> bucket_size pm' = bucket_size pm"
  by (auto simp: peer_map_insert_eq)

lemma peer_map_contains_eq [wd_total]:
  "pm_wf self_id pm \<Longrightarrow> peer_map_contains pm self_id p = Inr (map_option (Pair p) (pm_view self_id pm p))"
  by (simp add: peer_map_contains_def bucket_contains_def pm_view_def pm_wfD Let_def)

text \<open>The table is an exact routing table for every peer that keeps it.\<close>

interpretation pmt: exact_peer_table "pm_wf self_id" "pm_view self_id"
  "\<lambda>(p, a). peer_map_insert self_id a p" "\<lambda>pm. peer_map_contains pm self_id" for self_id
proof
  fix t x
  show "pm_wf self_id t \<Longrightarrow> \<exists>t'. (case x of (p, a) \<Rightarrow> peer_map_insert self_id a p) t = Inr t'"
    by (auto simp: peer_map_insert_eq split: prod.splits)
qed (auto simp: peer_map_contains_eq peer_map_insert_view intro: peer_map_insert_wf split: prod.splits)

subsection \<open>The search for the closest peers\<close>

text \<open>
  The buckets in the order the loop appends them, were it never cut short: the target's own,
  then, for every width, bucket 0 once the width exceeds the target's rank, and the bucket
  \<open>width\<close> ahead while there is one.
\<close>

definition width_visits :: "nat \<Rightarrow> nat \<Rightarrow> nat list" where
  "width_visits sb w = (if w > sb then [0] else []) @ (if sb + w < max_power then [sb + w] else [])"

definition closest_visits :: "nat \<Rightarrow> nat list" where
  "closest_visits sb = sb # concat (map (width_visits sb) [1..<max_power])"

definition items_at :: "peer_map \<Rightarrow> nat list \<Rightarrow> (peer_id \<times> socket_addr) list" where
  "items_at pm is = concat (map (\<lambda>i. bucket_items (buckets pm ! i)) is)"

lemma items_at_simps [simp]:
  "items_at pm [] = []" "items_at pm (i # is) = bucket_items (buckets pm ! i) @ items_at pm is"
  "items_at pm (is @ js) = items_at pm is @ items_at pm js"
  by (simp_all add: items_at_def)

lemma closest_loop_body:
  assumes "length (buckets pm) = 256" and "sb < 256" and "w < 256" and "length r < bucket_size pm"
  shows "closest_loop pm sb w r = closest_loop pm sb (Suc w) (r @ items_at pm (width_visits sb w))"
  using assms
  by (subst closest_loop.simps) (auto simp: width_visits_def extend_from_def usize_range_def Let_def)

lemma closest_loop_eq:
  assumes "length (buckets pm) = 256" and "sb < 256" and "w \<le> 256"
  shows "res_map (take (bucket_size pm)) (closest_loop pm sb w r) =
    Inr (take (bucket_size pm) (r @ items_at pm (concat (map (width_visits sb) [w..<256]))))"
  using assms(3)
proof (induction "256 - w" arbitrary: w r)
  case 0
  then show ?case by (simp add: closest_loop.simps)
next
  case (Suc n)
  show ?case
  proof (cases "length r < bucket_size pm")
    case True
    then show ?thesis
      using Suc assms by (simp add: closest_loop_body upt_conv_Cons)
  next
    case False
    then show ?thesis by (simp add: closest_loop.simps)
  qed
qed

lemma find_closest_peers_visits:
  assumes "length (buckets pm) = 256"
  shows "find_closest_peers pm self_id p =
    Inr (take (bucket_size pm) (items_at pm (closest_visits (rank_of self_id p))))"
  using closest_loop_eq [OF assms, of "rank_of self_id p" 1] assms
  by (simp add: find_closest_peers_def extend_from_def closest_visits_def Let_def)

lemma set_closest_visits:
  assumes "sb < 256"
  shows "i \<in> set (closest_visits sb) \<longleftrightarrow> i < 256 \<and> (sb \<le> i \<or> i = 0 \<and> sb < 255)"
proof
  assume "i \<in> set (closest_visits sb)"
  then show "i < 256 \<and> (sb \<le> i \<or> i = 0 \<and> sb < 255)"
    using assms by (auto simp: closest_visits_def width_visits_def split: if_splits)
next
  assume i: "i < 256 \<and> (sb \<le> i \<or> i = 0 \<and> sb < 255)"
  then consider "i = sb" | "sb < i" "i < 256" | "i = 0" "sb < 255" by fastforce
  then show "i \<in> set (closest_visits sb)"
  proof cases
    case 2
    then have "i \<in> set (width_visits sb (i - sb))" "i - sb \<in> {1..<256}"
      by (auto simp: width_visits_def)
    then show ?thesis unfolding closest_visits_def by fastforce
  next
    case 3
    then have "i \<in> set (width_visits sb (Suc sb))" "Suc sb \<in> {1..<256}"
      by (auto simp: width_visits_def)
    then show ?thesis unfolding closest_visits_def by fastforce
  qed (simp add: closest_visits_def)
qed

lemma set_items_at:
  assumes "pm_wf self_id pm" and "set is \<subseteq> {..<256}"
  shows "(p, a) \<in> set (items_at pm is) \<longleftrightarrow> rank_of self_id p \<in> set is \<and> pm_view self_id pm p = Some a"
  using assms by (auto simp: items_at_def bucket_items_iff subset_eq)

lemma closest_visits_bound: "sb < 256 \<Longrightarrow> set (closest_visits sb) \<subseteq> {..<256}"
  by (auto simp: set_closest_visits)

lemma find_closest_peers_total [wd_total]:
  "pm_wf self_id pm \<Longrightarrow> \<exists>res. find_closest_peers pm self_id target = Inr res"
  by (simp add: find_closest_peers_visits pm_wfD)

lemma find_closest_peers_known:
  assumes "pm_wf self_id pm" and "find_closest_peers pm self_id target = Inr res"
  shows "length res \<le> bucket_size pm" and "set res \<subseteq> set (pm_items pm)"
proof -
  have res: "res = take (bucket_size pm) (items_at pm (closest_visits (rank_of self_id target)))"
    using assms(2) by (simp add: find_closest_peers_visits pm_wfD [OF assms(1)])
  then show "length res \<le> bucket_size pm" by simp
  have "set res \<subseteq> set (items_at pm (closest_visits (rank_of self_id target)))"
    unfolding res by (rule set_take_subset)
  also have "\<dots> \<subseteq> set (pm_items pm)"
    using set_items_at [OF assms(1) closest_visits_bound, OF rank_of_less] by (auto simp: pm_items_iff [OF assms(1)])
  finally show "set res \<subseteq> set (pm_items pm)" .
qed

lemma peer_map_lookup_known:
  "pm_wf self_id pm \<Longrightarrow> pm_view self_id pm p = Some a \<Longrightarrow> peer_map_lookup pm self_id p = Inr (Inr (p, a))"
  by (simp add: peer_map_lookup_def peer_map_contains_eq)

lemma peer_map_lookup_unknown:
  assumes "pm_wf self_id pm" and "pm_view self_id pm p = None"
  shows "\<exists>nb. peer_map_lookup pm self_id p = Inr (Inl nb) \<and> length nb \<le> bucket_size pm \<and>
    (\<forall>(q, b) \<in> set nb. pm_view self_id pm q = Some b)"
proof -
  obtain res where res: "find_closest_peers pm self_id p = Inr res"
    using find_closest_peers_total [OF assms(1)] by blast
  show ?thesis
    using assms res find_closest_peers_known [OF assms(1) res]
    by (auto simp: peer_map_lookup_def peer_map_contains_eq subset_eq simp flip: pm_items_iff [OF assms(1)])
qed

text \<open>Bucket 0 is visited once for every width above the target's rank.\<close>

lemma count_zero_visits: "sb < n \<Longrightarrow> n - 1 - sb \<le> count_list (concat (map (width_visits sb) [1..<n])) 0"
proof (induction n)
  case (Suc n)
  then show ?case
    by (cases "sb < n"; cases n) (auto simp: width_visits_def)
qed simp

lemma length_items_at_count:
  "bucket_items (buckets pm ! i) \<noteq> [] \<Longrightarrow> count_list is i \<le> length (items_at pm is)"
  by (induction "is") (auto simp: Suc_le_eq trans_less_add2 split: if_splits simp flip: length_greater_0_conv)

lemma peer_map_count_loop:
  "unat acc + sum_list (map (\<lambda>b. hm_len (known_peers b)) bs) < 2 ^ 32 \<Longrightarrow>
     res_fold (\<lambda>b acc. u32_add acc (of_nat (hm_len (known_peers b)))) bs acc =
       Inr (acc + of_nat (sum_list (map (\<lambda>b. hm_len (known_peers b)) bs)))"
proof (induction bs arbitrary: acc)
  case (Cons b bs)
  let ?n = "hm_len (known_peers b)"
  have n: "unat (of_nat ?n :: u32) = ?n" and "unat acc + ?n < 2 ^ 32"
    using Cons.prems by (simp_all add: unat_of_nat)
  then have "unat (acc + of_nat ?n) = unat acc + ?n"
    by (simp add: unat_word_ariths)
  then show ?case
    using Cons n by (simp add: u32_add_def add.assoc)
qed simp

lemma length_pm_items_sum:
  "pm_wf self_id pm \<Longrightarrow> length (pm_items pm) = sum_list (map (\<lambda>b. hm_len (known_peers b)) (buckets pm))"
  by (auto simp: pm_items_def length_concat comp_def pm_wf_def intro!: arg_cong [of _ _ sum_list])

subsection \<open>Properties\<close>

text \<open>
  C2. On a well-formed table \<open>insert\<close> does not panic, keeps the table well-formed (256 buckets,
  every peer in the bucket of its rank, no peer twice) and its size parameter, and changes what
  the table knows in exactly one place: the inserted peer now has the inserted address.
\<close>

theorem peer_map_insert_refines:
  assumes "pm_wf self_id pm"
  shows "\<exists>pm'. peer_map_insert self_id a p pm = Inr pm' \<and> pm_wf self_id pm' \<and>
    pm_view self_id pm' = (pm_view self_id pm)(p \<mapsto> a) \<and> bucket_size pm' = bucket_size pm"
proof -
  obtain pm' where "peer_map_insert self_id a p pm = Inr pm'"
    using pmt.insert_total [OF assms, of "(p, a)"] by auto
  then show ?thesis
    using assms peer_map_insert_wf peer_map_insert_view peer_map_insert_size by blast
qed

theorem peer_map_insert_refines_witness:
  "\<exists>pm'. peer_map_insert (PeerId hash_zero) (V4 1 2) (PeerId hash_zero) (peer_map_default rev) = Inr pm' \<and>
     pm_wf (PeerId hash_zero) pm' \<and> pm_view (PeerId hash_zero) pm' = [PeerId hash_zero \<mapsto> V4 1 2] \<and>
     bucket_size pm' = 16"
  using peer_map_insert_refines [OF pm_wf_default [OF enumerates_rev], of "PeerId hash_zero" "V4 1 2" "PeerId hash_zero"]
  by (simp add: peer_map_default_def [THEN arg_cong [of _ _ bucket_size], simplified Let_def])

text \<open>
  C18. Any sequence of insertions into an empty table succeeds and leaves a table that knows, for
  every peer inserted, the address it was last inserted with, and nothing else; \<open>contains\<close>
  reports exactly that.
\<close>

theorem peer_map_inserts_lookup:
  assumes "enumerates order"
  shows "\<exists>pm. res_fold (\<lambda>(p, a). peer_map_insert self_id a p) kvs (peer_map_default order) = Inr pm \<and>
    pm_wf self_id pm \<and>
    (\<forall>p. peer_map_contains pm self_id p = Inr (map_option (Pair p) (map_of (rev kvs) p)))"
proof -
  note wf = pm_wf_default [OF assms, of self_id]
  obtain pm where pm: "res_fold (\<lambda>(p, a). peer_map_insert self_id a p) kvs (peer_map_default order) = Inr pm"
      "pm_wf self_id pm"
    using pmt.inserts_total [OF wf, of kvs] by blast
  then show ?thesis
    using pmt.inserts_view [OF wf pm(1)] by (simp add: peer_map_contains_eq)
qed

theorem peer_map_inserts_lookup_witness:
  "\<exists>pm. res_fold (\<lambda>(p, a). peer_map_insert (PeerId hash_zero) a p)
      [(PeerId hash_zero, V4 1 2), (PeerId hash_zero, V4 1 3)] (peer_map_default rev) = Inr pm \<and>
    peer_map_contains pm (PeerId hash_zero) (PeerId hash_zero) = Inr (Some (PeerId hash_zero, V4 1 3))"
  using peer_map_inserts_lookup [OF enumerates_rev, of "PeerId hash_zero"
      "[(PeerId hash_zero, V4 1 2), (PeerId hash_zero, V4 1 3)]"] by fastforce

text \<open>
  C20. The search for the closest peers ends without a panic on every table with 256 buckets
  (no index is out of range, the sum of rank and width does not overflow), and its result is
  the first \<open>bucket_size\<close> entries met along \<open>closest_visits\<close>.
\<close>

theorem find_closest_peers_eq:
  assumes "length (buckets pm) = max_power"
  shows "find_closest_peers pm self_id p =
    Inr (take (bucket_size pm) (items_at pm (closest_visits (unat (distance_rank self_id p)))))"
  using assms by (simp add: find_closest_peers_visits)

theorem find_closest_peers_eq_witness:
  "find_closest_peers (peer_map_default rev) (PeerId hash_zero) (PeerId hash_zero) = Inr []"
  using find_closest_peers_eq [of "peer_map_default rev" "PeerId hash_zero" "PeerId hash_zero"]
    closest_visits_bound [of 255]
  by (simp add: items_at_def peer_map_default_def bucket_new_def Let_def concat_eq_Nil_conv subset_eq)

text \<open>
  C21. What the search returns and what it can miss. Every entry returned is a known peer with
  its current address, there are at most \<open>bucket_size\<close> of them, and none of them has a rank
  strictly between 0 and the target's: the buckets behind the target are never searched. When
  fewer than \<open>bucket_size\<close> entries come back, every known peer of at least the target's rank is
  among them.
\<close>

theorem find_closest_peers_range:
  assumes wf: "pm_wf self_id pm" and res: "find_closest_peers pm self_id target = Inr res"
  shows "length res \<le> bucket_size pm \<and>
    (\<forall>(p, a) \<in> set res. pm_view self_id pm p = Some a \<and>
       (unat (distance_rank self_id target) \<le> unat (distance_rank self_id p) \<or>
        unat (distance_rank self_id p) = 0)) \<and>
    (length res < bucket_size pm \<longrightarrow>
       (\<forall>p a. pm_view self_id pm p = Some a \<and>
          unat (distance_rank self_id target) \<le> unat (distance_rank self_id p) \<longrightarrow> (p, a) \<in> set res))"
proof -
  let ?sb = "rank_of self_id target"
  let ?all = "items_at pm (closest_visits ?sb)"
  have res': "res = take (bucket_size pm) ?all"
    using res by (simp add: find_closest_peers_visits pm_wfD [OF wf])
  have all: "(p, a) \<in> set ?all \<longleftrightarrow>
      (?sb \<le> rank_of self_id p \<or> rank_of self_id p = 0 \<and> ?sb < 255) \<and> pm_view self_id pm p = Some a" for p a
    using set_items_at [OF wf closest_visits_bound [of ?sb]] by (simp add: set_closest_visits)
  have "length res < bucket_size pm \<longrightarrow> set res = set ?all" by (simp add: res')
  moreover have "set res \<subseteq> set ?all" unfolding res' by (rule set_take_subset)
  moreover have "length res \<le> bucket_size pm" by (simp add: res')
  ultimately show ?thesis using all by (auto simp: subset_eq)
qed

text \<open>A table of the zero peer that knows one peer, of rank 0.\<close>

lemma one_peer_table:
  obtains pm where "peer_map_insert zero_peer (V4 1 2) (unit_peer 0 128) (peer_map_default rev) = Inr pm"
    and "pm_wf zero_peer pm" and "pm_view zero_peer pm = [unit_peer 0 128 \<mapsto> V4 1 2]" and "bucket_size pm = 16"
proof -
  note wf = pm_wf_default [OF enumerates_rev, of zero_peer]
  obtain pm where pm: "peer_map_insert zero_peer (V4 1 2) (unit_peer 0 128) (peer_map_default rev) = Inr pm"
    using peer_map_insert_eq [OF wf] by blast
  moreover have "bucket_size pm = 16"
    using peer_map_insert_size [OF wf pm] by (simp add: peer_map_default_def Let_def)
  ultimately show ?thesis
    using that peer_map_insert_wf [OF wf pm] peer_map_insert_view [OF wf pm] by simp
qed

text \<open>
  C22. The search repeats peers: when a peer of rank 0 is known, the target's rank leaves at least
  \<open>bucket_size\<close> widths, and the table knows fewer than \<open>bucket_size\<close> peers, the result still has
  \<open>bucket_size\<close> entries, so some peer is listed more than once.
\<close>

theorem find_closest_peers_repeats:
  assumes wf: "pm_wf self_id pm" and res: "find_closest_peers pm self_id target = Inr res"
    and p0: "pm_view self_id pm p0 = Some a0" "unat (distance_rank self_id p0) = 0"
    and room: "unat (distance_rank self_id target) + bucket_size pm < max_power"
    and few: "card (dom (pm_view self_id pm)) < bucket_size pm"
  shows "length res = bucket_size pm \<and> \<not> distinct res"
proof -
  let ?sb = "rank_of self_id target"
  let ?all = "items_at pm (closest_visits ?sb)"
  have ne: "bucket_items (buckets pm ! 0) \<noteq> []"
    using bucket_items_iff [OF wf, of 0 p0 a0] p0 by (metis empty_iff list.set(1) zero_less_numeral)
  have "255 - ?sb \<le> count_list (closest_visits ?sb) 0"
    using count_zero_visits [of ?sb 256] by (auto simp: closest_visits_def)
  then have "bucket_size pm \<le> length ?all"
    using length_items_at_count [OF ne, of "closest_visits ?sb"] room by simp
  then have len: "length res = bucket_size pm"
    using res by (auto simp: find_closest_peers_visits pm_wfD [OF wf])
  moreover have "card (set res) \<le> length (pm_items pm)"
    using card_mono [OF _ find_closest_peers_known(2) [OF wf res]] card_length [of "pm_items pm"] by simp
  ultimately show ?thesis
    using few by (auto simp: length_pm_items [OF wf] dest: distinct_card)
qed

theorem find_closest_peers_repeats_witness:
  "\<exists>pm res. pm_view zero_peer pm = [unit_peer 0 128 \<mapsto> V4 1 2] \<and>
     find_closest_peers pm zero_peer (unit_peer 0 192) = Inr res \<and> length res = 16 \<and> \<not> distinct res"
proof -
  obtain pm where pm: "pm_wf zero_peer pm" "pm_view zero_peer pm = [unit_peer 0 128 \<mapsto> V4 1 2]" "bucket_size pm = 16"
    by (rule one_peer_table)
  obtain res where res: "find_closest_peers pm zero_peer (unit_peer 0 192) = Inr res"
    using find_closest_peers_total [OF pm(1)] by blast
  have "byte_lz 128 = 0" "byte_lz 192 = 0"
    by (simp_all add: byte_lz_def byte_bits_def)
  then have "rank_of zero_peer (unit_peer 0 128) = 0" "rank_of zero_peer (unit_peer 0 192) = 0"
    by (simp_all add: rank_of_unit_peer)
  then have "length res = 16 \<and> \<not> distinct res"
    using find_closest_peers_repeats [OF pm(1) res, of "unit_peer 0 128" "V4 1 2"] pm(2,3) by simp
  then show ?thesis using pm(2) res by blast
qed

theorem find_closest_peers_range_witness:
  "\<exists>pm res. pm_view zero_peer pm = [unit_peer 0 128 \<mapsto> V4 1 2] \<and>
     find_closest_peers pm zero_peer (unit_peer 0 192) = Inr res \<and>
     set res \<subseteq> {(unit_peer 0 128, V4 1 2)} \<and> length res \<le> 16"
proof -
  obtain pm where pm: "pm_wf zero_peer pm" "pm_view zero_peer pm = [unit_peer 0 128 \<mapsto> V4 1 2]" "bucket_size pm = 16"
    by (rule one_peer_table)
  obtain res where res: "find_closest_peers pm zero_peer (unit_peer 0 192) = Inr res"
    using find_closest_peers_total [OF pm(1)] by blast
  have "set res \<subseteq> {(unit_peer 0 128, V4 1 2)}" "length res \<le> 16"
    using find_closest_peers_range [OF pm(1) res] pm(2,3) by (auto split: if_splits)
  then show ?thesis using pm(2) res by blast
qed

text \<open>
  C19. \<open>lookup\<close> never panics on a well-formed table: a known peer is answered with its address,
  any other with at most \<open>bucket_size\<close> known peers.
\<close>

theorem peer_map_lookup_spec:
  assumes "pm_wf self_id pm"
  shows "case pm_view self_id pm p of
      Some a \<Rightarrow> peer_map_lookup pm self_id p = Inr (Inr (p, a))
    | None \<Rightarrow> \<exists>neighbors. peer_map_lookup pm self_id p = Inr (Inl neighbors) \<and>
        length neighbors \<le> bucket_size pm \<and> (\<forall>(q, b) \<in> set neighbors. pm_view self_id pm q = Some b)"
  using peer_map_lookup_known [OF assms] peer_map_lookup_unknown [OF assms] by (auto split: option.splits)

theorem peer_map_lookup_spec_witness:
  "\<exists>pm. peer_map_lookup pm zero_peer (unit_peer 0 128) = Inr (Inr (unit_peer 0 128, V4 1 2))"
proof -
  obtain pm where pm: "pm_wf zero_peer pm" "pm_view zero_peer pm = [unit_peer 0 128 \<mapsto> V4 1 2]"
    by (rule one_peer_table)
  show ?thesis using peer_map_lookup_spec [OF pm(1), of "unit_peer 0 128"] pm(2) by auto
qed

text \<open>
  \<open>count\<close> returns the number of peers the table knows, without overflow, as long as that
  number fits into 32 bits.
\<close>

theorem peer_map_count_correct:
  assumes "pm_wf self_id pm" and "card (dom (pm_view self_id pm)) < 2 ^ 32"
  shows "\<exists>c. peer_map_count pm = Inr c \<and> unat c = card (dom (pm_view self_id pm))"
proof -
  have "peer_map_count pm = Inr (of_nat (length (pm_items pm)))"
    using peer_map_count_loop [of 0 "buckets pm"] assms length_pm_items [OF assms(1)]
    by (simp add: peer_map_count_def length_pm_items_sum [OF assms(1)])
  then show ?thesis
    using assms length_pm_items [OF assms(1)] by (simp add: unat_of_nat)
qed

theorem peer_map_count_correct_witness:
  "\<exists>pm c. pm_view zero_peer pm = [unit_peer 0 128 \<mapsto> V4 1 2] \<and> peer_map_count pm = Inr c \<and> unat c = 1"
proof -
  obtain pm where pm: "pm_wf zero_peer pm" "pm_view zero_peer pm = [unit_peer 0 128 \<mapsto> V4 1 2]"
    by (rule one_peer_table)
  show ?thesis using peer_map_count_correct [OF pm(1)] pm(2) by auto
qed

end
