(* ===== verification/FlatPeerMap.thy ===== *)
theory FlatPeerMap
  imports PeerMap
begin

text \<open>
  \<open>FlatPeerMap\<close> of \<open>src/src/types.rs\<close>: the routing table as one vector of slots, a run of
  \<open>bucket_size\<close> slots per distance rank. A full bucket evicts, so this table meets the contract
  \<open>peer_table\<close> but not \<open>exact_peer_table\<close>.
\<close>

subsection \<open>The data and the operations\<close>

record flat_peer_map =
  contacts :: "contact option list"
  fpm_count :: nat
  fpm_bucket_size :: nat
  fpm_peer_id :: peer_id
  next_eviction :: nat

definition flat_new :: "peer_id \<Rightarrow> nat \<Rightarrow> flat_peer_map outcome" where
  "flat_new p bucket_sz =
     res_map (\<lambda>n. \<lparr>contacts = replicate n None, fpm_count = 0, fpm_bucket_size = bucket_sz,
                  fpm_peer_id = p, next_eviction = 0\<rparr>)
       (usize_mul max_power bucket_sz)"

definition flat_default :: "peer_id \<Rightarrow> flat_peer_map outcome" where
  "flat_default p = flat_new p 16"

text \<open>
  The slice of one bucket, with the index it starts at: \<open>bucket_for\<close> returns the slice to read,
  \<open>bucket_for_mut\<close> the same slice to write through.
\<close>

definition bucket_slice :: "flat_peer_map \<Rightarrow> nat \<Rightarrow> (nat \<times> contact option list) outcome" where
  "bucket_slice m target =
     res_bind (usize_mul target (fpm_bucket_size m)) (\<lambda>bucket_start.
     res_bind (usize_add bucket_start (fpm_bucket_size m)) (\<lambda>bucket_end.
     res_map (Pair bucket_start) (vec_slice (contacts m) bucket_start bucket_end)))"

definition bucket_for :: "flat_peer_map \<Rightarrow> peer_id \<Rightarrow> contact option list outcome" where
  "bucket_for m p = res_map snd (bucket_slice m (unat (distance_rank (fpm_peer_id m) p)))"

definition bucket_for_mut :: "flat_peer_map \<Rightarrow> peer_id \<Rightarrow> (nat \<times> contact option list) outcome" where
  "bucket_for_mut m p = bucket_slice m (unat (distance_rank (fpm_peer_id m) p))"

text \<open>
  The \<open>for\<close> loop of \<open>insert\<close> over the bucket: the slot it writes and whether it was empty;
  \<open>None\<close> when it falls through.
\<close>

fun scan_bucket :: "contact \<Rightarrow> contact option list \<Rightarrow> (bool \<times> contact option list) option" where
  "scan_bucket c [] = None"
| "scan_bucket c (Some d # es) =
     (if ct_peer_id d = ct_peer_id c then Some (False, Some c # es)
      else map_option (\<lambda>(grew, es'). (grew, Some d # es')) (scan_bucket c es))"
| "scan_bucket c (None # es) = Some (True, Some c # es)"

definition item_to_evict :: "flat_peer_map \<Rightarrow> contact option list \<Rightarrow> nat outcome" where
  "item_to_evict m bucket =
     (if length bucket \<noteq> fpm_bucket_size m then Inl (Assertion ''bucket.len() == self.bucket_size'')
      else if None \<in> set bucket then Inl (Assertion ''i.is_some()'')
      else Inr (next_eviction m))"

definition flat_insert :: "contact \<Rightarrow> flat_peer_map \<Rightarrow> flat_peer_map outcome" where
  "flat_insert new_peer m =
     res_bind (bucket_for_mut m (ct_peer_id new_peer)) (\<lambda>(start, bucket).
       case scan_bucket new_peer bucket of
         Some (grew, bucket') \<Rightarrow>
           let m' = m\<lparr>contacts := vec_splice (contacts m) start bucket'\<rparr>
           in if grew then res_map (\<lambda>n. m'\<lparr>fpm_count := n\<rparr>) (usize_add (fpm_count m) 1) else Inr m'
       | None \<Rightarrow>
           res_bind (bucket_for m (ct_peer_id new_peer)) (\<lambda>bucket.
           res_bind (item_to_evict m bucket) (\<lambda>old_item.
           res_bind (bucket_for_mut m (ct_peer_id new_peer)) (\<lambda>(start, bucket).
           res_map (\<lambda>bucket'. m\<lparr>contacts := vec_splice (contacts m) start bucket'\<rparr>)
             (vec_set bucket old_item (Some new_peer))))))"

text \<open>\<open>iter().filter_map(...)\<close>: the occupied slots.\<close>

definition present :: "'a option list \<Rightarrow> 'a list" where
  "present es = List.map_filter (\<lambda>e. e) es"

definition flat_contains :: "flat_peer_map \<Rightarrow> peer_id \<Rightarrow> contact option outcome" where
  "flat_contains m p =
     res_map (\<lambda>bucket. find (\<lambda>c. ct_peer_id c = p) (present bucket)) (bucket_for m p)"

function flat_closest_loop :: "flat_peer_map \<Rightarrow> nat \<Rightarrow> nat \<Rightarrow> nat \<Rightarrow> contact list \<Rightarrow> contact list outcome" where
  "flat_closest_loop m cnt target_bucket search_width results =
     (if length results < cnt \<and> search_width < max_power then
        res_bind (bucket_slice m (usize_wrapping_add target_bucket search_width mod max_power)) (\<lambda>(_, ahead).
        let results1 = results @ present ahead in
        res_bind (bucket_slice m (usize_wrapping_sub target_bucket search_width mod max_power)) (\<lambda>(_, behind).
        let results2 = results1 @ present behind in
        flat_closest_loop m cnt target_bucket (search_width + 1) results2))
      else Inr results)"
  by pat_completeness auto
termination
  by (relation "measure (\<lambda>(m, cnt, tb, w, r). max_power - w)") auto

definition flat_find_closest_peers :: "flat_peer_map \<Rightarrow> peer_id \<Rightarrow> nat \<Rightarrow> contact list outcome" where
  "flat_find_closest_peers m needle cnt =
     (if \<not> cnt \<le> length (contacts m) then Inl (Assertion ''Good luck with that buddy'')
      else res_bind (bucket_for m needle) (\<lambda>bucket.
        let target_bucket = unat (distance_rank (fpm_peer_id m) needle)
        in res_map (take cnt) (flat_closest_loop m cnt target_bucket 1 (present bucket))))"

definition flat_lookup :: "flat_peer_map \<Rightarrow> peer_id \<Rightarrow> (contact list + contact) outcome" where
  "flat_lookup m p =
     res_bind (flat_contains m p) (\<lambda>found.
       case found of Some res \<Rightarrow> Inr (Inr res)
       | None \<Rightarrow> res_map Inl (flat_find_closest_peers m p (fpm_bucket_size m)))"

definition flat_count :: "flat_peer_map \<Rightarrow> nat" where
  "flat_count m = fpm_count m"

declare flat_closest_loop.simps [simp del]

subsection \<open>Buckets of slots\<close>

lemma present_simps [simp]:
  "present [] = []" "present (Some x # es) = x # present es" "present (None # es) = present es"
  "present (es @ fs) = present es @ present fs" "present (replicate n None) = []"
  "present (map Some xs) = xs"
  by (simp_all add: present_def map_filter_def comp_def)

lemma set_present: "set (present es) = {x. Some x \<in> set es}"
  by (force simp: present_def map_filter_def)

lemma length_present_le: "length (present es) \<le> length es"
  by (simp add: present_def map_filter_def)

lemma present_concat: "present (concat ess) = concat (map present ess)"
  by (induction ess) simp_all

lemma present_full: "None \<notin> set es \<Longrightarrow> map Some (present es) = es"
proof (induction es)
  case (Cons e es)
  then show ?case by (cases e) auto
qed simp

text \<open>The occupied slots of a bucket come first: nothing is ever removed from a bucket.\<close>

fun packed :: "'a option list \<Rightarrow> bool" where
  "packed [] = True"
| "packed (Some x # es) = packed es"
| "packed (None # es) = (set es \<subseteq> {None})"

lemma packed_None: "set es \<subseteq> {None} \<Longrightarrow> packed es"
proof (induction es)
  case (Cons e es)
  then show ?case by (cases e) auto
qed simp

lemma packed_full: "None \<notin> set es \<Longrightarrow> packed es"
proof (induction es)
  case (Cons e es)
  then show ?case by (cases e) auto
qed simp

abbreviation contact_pair :: "contact \<Rightarrow> peer_id \<times> socket_addr" where
  "contact_pair c \<equiv> (ct_peer_id c, ct_address c)"

abbreviation slot_pairs :: "contact option list \<Rightarrow> (peer_id \<times> socket_addr) list" where
  "slot_pairs es \<equiv> map contact_pair (present es)"

lemma present_Nones: "set es \<subseteq> {None} \<Longrightarrow> present es = []"
  by (metis empty_iff list.set(1) insertE option.distinct(1) set_present mem_Collect_eq neq_Nil_conv list.set_intros(1) subsetD)

text \<open>
  A scan that finds a slot updates the association list of the bucket, and grows it exactly for
  an unknown peer; a scan that falls through has met only other peers.
\<close>

lemma scan_bucket_Some:
  "packed es \<Longrightarrow> scan_bucket c es = Some (grew, es') \<Longrightarrow>
     length es' = length es \<and> packed es' \<and>
     slot_pairs es' = AList.update (ct_peer_id c) (ct_address c) (slot_pairs es) \<and>
     (grew \<longleftrightarrow> ct_peer_id c \<notin> fst ` set (slot_pairs es))"
proof (induction es arbitrary: grew es')
  case (Cons e es)
  show ?case
  proof (cases e)
    case None
    with Cons.prems show ?thesis by (auto simp: present_Nones intro: packed_None)
  next
    case (Some d)
    show ?thesis
    proof (cases "ct_peer_id d = ct_peer_id c")
      case True
      with Some Cons.prems show ?thesis by auto
    next
      case False
      with Some Cons.prems obtain es1 where "scan_bucket c es = Some (grew, es1)" "es' = Some d # es1"
        by auto
      with False Some Cons.IH [of grew es1] Cons.prems(1) show ?thesis by auto
    qed
  qed
qed simp

lemma scan_bucket_None:
  "scan_bucket c es = None \<Longrightarrow> None \<notin> set es \<and> ct_peer_id c \<notin> fst ` set (slot_pairs es)"
proof (induction es)
  case (Cons e es)
  then show ?case by (cases e) (auto split: if_splits)
qed simp

subsection \<open>Well-formed tables and what they know\<close>

definition fpm_bucket :: "flat_peer_map \<Rightarrow> nat \<Rightarrow> contact option list" where
  "fpm_bucket m i = take (fpm_bucket_size m) (drop (i * fpm_bucket_size m) (contacts m))"

definition fpm_buckets :: "flat_peer_map \<Rightarrow> contact option list list" where
  "fpm_buckets m = map (fpm_bucket m) [0..<max_power]"

definition fpm_wf :: "flat_peer_map \<Rightarrow> bool" where
  "fpm_wf m \<longleftrightarrow> max_power * fpm_bucket_size m < usize_range \<and> length (contacts m) = max_power * fpm_bucket_size m \<and>
     next_eviction m = 0 \<and> fpm_count m = length (present (contacts m)) \<and>
     (\<forall>b \<in> set (fpm_buckets m). packed b \<and> distinct (map fst (slot_pairs b))) \<and>
     placed (rank_of (fpm_peer_id m)) fst (map slot_pairs (fpm_buckets m))"

definition fpm_view :: "flat_peer_map \<Rightarrow> peer_id \<Rightarrow> socket_addr option" where
  "fpm_view m p = map_of (slot_pairs (fpm_bucket m (rank_of (fpm_peer_id m) p))) p"

lemma fpm_wfD:
  assumes "fpm_wf m"
  shows "256 * fpm_bucket_size m < usize_range" and "length (contacts m) = 256 * fpm_bucket_size m"
    and "next_eviction m = 0" and "fpm_count m = length (present (contacts m))"
    and "i < 256 \<Longrightarrow> packed (fpm_bucket m i)" and "i < 256 \<Longrightarrow> distinct (map fst (slot_pairs (fpm_bucket m i)))"
    and "placed (rank_of (fpm_peer_id m)) fst (map slot_pairs (fpm_buckets m))"
  using assms by (auto simp: fpm_wf_def fpm_buckets_def)

lemma bucket_slice_end:
  assumes "length (contacts m) = 256 * fpm_bucket_size m" and "i < 256"
  shows "i * fpm_bucket_size m + fpm_bucket_size m \<le> length (contacts m)"
  using mult_le_mono1 [of "Suc i" 256 "fpm_bucket_size m"] assms by simp

lemma length_fpm_bucket [simp]:
  assumes "length (contacts m) = 256 * fpm_bucket_size m" and "i < 256"
  shows "length (fpm_bucket m i) = fpm_bucket_size m"
  using bucket_slice_end [OF assms] unfolding fpm_bucket_def length_take length_drop by linarith

lemma bucket_slice_eq [wd_total]:
  assumes "256 * fpm_bucket_size m < usize_range" and "length (contacts m) = 256 * fpm_bucket_size m" and "i < 256"
  shows "bucket_slice m i = Inr (i * fpm_bucket_size m, fpm_bucket m i)"
proof -
  define start where "start = i * fpm_bucket_size m"
  have "start + fpm_bucket_size m \<le> length (contacts m)"
    unfolding start_def by (rule bucket_slice_end [OF assms(2,3)])
  moreover from this have "usize_mul i (fpm_bucket_size m) = Inr start"
    using assms(1,2) unfolding start_def by (intro usize_mul_Inr) linarith
  ultimately show ?thesis
    using assms(1,2) by (simp add: bucket_slice_def fpm_bucket_def flip: start_def)
qed

lemma concat_chunks: "length xs = k * n \<Longrightarrow> concat (map (\<lambda>i. take n (drop (i * n) xs)) [0..<k]) = xs"
proof (induction k arbitrary: xs)
  case (Suc k)
  have "concat (map (\<lambda>i. take n (drop (i * n) (take (k * n) xs))) [0..<k]) = take (k * n) xs"
    using Suc by simp
  moreover have "take n (drop (i * n) (take (k * n) xs)) = take n (drop (i * n) xs)" if "i < k" for i
  proof -
    have "i * n + n \<le> k * n" using mult_le_mono1 [of "Suc i" k n] that by simp
    then show ?thesis by (simp add: drop_take take_take min_def)
  qed
  ultimately have "concat (map (\<lambda>i. take n (drop (i * n) xs)) [0..<k]) = take (k * n) xs"
    by (metis (mono_tags, lifting) atLeastLessThan_iff map_eq_conv set_upt)
  then show ?case using Suc.prems by (simp add: append_take_drop_id)
qed simp

lemma concat_fpm_buckets: "length (contacts m) = 256 * fpm_bucket_size m \<Longrightarrow> concat (fpm_buckets m) = contacts m"
  using concat_chunks [of "contacts m" 256 "fpm_bucket_size m"]
  by (simp add: fpm_buckets_def fpm_bucket_def [abs_def])

text \<open>Writing one bucket back changes that bucket and no other.\<close>

lemma fpm_bucket_splice:
  assumes len: "length (contacts m) = 256 * fpm_bucket_size m" and "i < 256" and "j < 256"
    and b: "length b = fpm_bucket_size m"
  shows "fpm_bucket (m\<lparr>contacts := vec_splice (contacts m) (i * fpm_bucket_size m) b\<rparr>) j =
    (if j = i then b else fpm_bucket m j)"
proof (rule nth_equalityI)
  let ?n = "fpm_bucket_size m"
  note ends = bucket_slice_end [OF len assms(2)] bucket_slice_end [OF len assms(3)]
  show "length (fpm_bucket (m\<lparr>contacts := vec_splice (contacts m) (i * ?n) b\<rparr>) j) =
      length (if j = i then b else fpm_bucket m j)"
    using assms ends by simp
  fix k
  assume "k < length (fpm_bucket (m\<lparr>contacts := vec_splice (contacts m) (i * ?n) b\<rparr>) j)"
  then have k: "k < ?n" using assms ends by simp
  have "j * ?n + k < i * ?n \<or> i * ?n + ?n \<le> j * ?n + k" if "j \<noteq> i"
  proof (cases "j < i")
    case True
    then show ?thesis using mult_le_mono1 [of "Suc j" i ?n] k by simp
  next
    case False
    then show ?thesis using mult_le_mono1 [of "Suc i" j ?n] that by simp
  qed
  moreover have "j * ?n + k < length (contacts m)" using ends(2) k by linarith
  ultimately have "vec_splice (contacts m) (i * ?n) b ! (j * ?n + k) =
      (if j = i then b ! k else contacts m ! (j * ?n + k))"
    using ends(1) b k by (auto simp: nth_vec_splice)
  then show "fpm_bucket (m\<lparr>contacts := vec_splice (contacts m) (i * ?n) b\<rparr>) j ! k =
      (if j = i then b else fpm_bucket m j) ! k"
    using ends k b by (simp add: fpm_bucket_def)
qed

definition fpm_put :: "flat_peer_map \<Rightarrow> nat \<Rightarrow> contact option list \<Rightarrow> flat_peer_map" where
  "fpm_put m i b = m\<lparr>contacts := vec_splice (contacts m) (i * fpm_bucket_size m) b\<rparr>"

lemma fpm_put_fields [simp]:
  "fpm_count (fpm_put m i b) = fpm_count m" "fpm_bucket_size (fpm_put m i b) = fpm_bucket_size m"
  "fpm_peer_id (fpm_put m i b) = fpm_peer_id m" "next_eviction (fpm_put m i b) = next_eviction m"
  by (simp_all add: fpm_put_def)

lemma fpm_bucket_count [simp]: "fpm_bucket (m\<lparr>fpm_count := n\<rparr>) = fpm_bucket m"
  by (simp add: fpm_bucket_def fun_eq_iff)

lemma fpm_view_count [simp]: "fpm_view (m\<lparr>fpm_count := n\<rparr>) = fpm_view m"
  by (simp add: fpm_view_def fun_eq_iff)

lemma fpm_bucket_put:
  assumes "fpm_wf m" and "i < 256" and "j < 256" and "length b = fpm_bucket_size m"
  shows "fpm_bucket (fpm_put m i b) j = (if j = i then b else fpm_bucket m j)"
  using fpm_bucket_splice [OF fpm_wfD(2) [OF assms(1)] assms(2-)] by (simp add: fpm_put_def)

lemma fpm_view_put:
  assumes "fpm_wf m" and "i < 256" and "length b = fpm_bucket_size m"
  shows "fpm_view (fpm_put m i b) q =
    (if rank_of (fpm_peer_id m) q = i then map_of (slot_pairs b) q else fpm_view m q)"
  using assms by (simp add: fpm_view_def fpm_bucket_put)

lemma length_contacts_put:
  assumes "fpm_wf m" and "i < 256" and "length b = fpm_bucket_size m"
  shows "length (contacts (fpm_put m i b)) = 256 * fpm_bucket_size m"
  using bucket_slice_end [OF fpm_wfD(2) [OF assms(1)] assms(2)] assms(3) fpm_wfD(2) [OF assms(1)]
  by (simp add: fpm_put_def)

lemma length_present_put:
  assumes "fpm_wf m" and "i < 256" and "length b = fpm_bucket_size m"
  shows "length (present (contacts (fpm_put m i b))) + length (present (fpm_bucket m i)) =
    fpm_count m + length (present b)"
proof -
  define s where "s = i * fpm_bucket_size m"
  have "contacts m = take s (contacts m) @ fpm_bucket m i @ drop (s + fpm_bucket_size m) (contacts m)"
    unfolding fpm_bucket_def s_def [symmetric] by (metis append_take_drop_id drop_drop add.commute)
  then have "length (present (contacts m)) = length (present (take s (contacts m))) +
      length (present (fpm_bucket m i)) + length (present (drop (s + fpm_bucket_size m) (contacts m)))"
    by (metis length_append present_simps(4) add.assoc)
  then show ?thesis
    using fpm_wfD(4) [OF assms(1)] assms(3) by (simp add: fpm_put_def vec_splice_def flip: s_def)
qed

lemma fpm_put_wf:
  assumes wf: "fpm_wf m" and i: "i < 256" and b: "length b = fpm_bucket_size m" "packed b"
      "distinct (map fst (slot_pairs b))"
    and rank: "\<And>p. p \<in> fst ` set (slot_pairs b) \<Longrightarrow> rank_of (fpm_peer_id m) p = i"
    and n: "n + length (present (fpm_bucket m i)) = fpm_count m + length (present b)"
  shows "fpm_wf ((fpm_put m i b)\<lparr>fpm_count := n\<rparr>)"
proof -
  let ?m = "(fpm_put m i b)\<lparr>fpm_count := n\<rparr>"
  have bs: "fpm_bucket (fpm_put m i b) j = (if j = i then b else fpm_bucket m j)" if "j < 256" for j
    by (rule fpm_bucket_put [OF wf i that b(1)])
  have "placed (rank_of (fpm_peer_id m)) fst (map slot_pairs (fpm_buckets ?m))"
  proof (rule placedI)
    fix j x
    assume "j < length (map slot_pairs (fpm_buckets ?m))" and "x \<in> set (map slot_pairs (fpm_buckets ?m) ! j)"
    then have "j < 256" and x: "x \<in> set (slot_pairs (if j = i then b else fpm_bucket m j))"
      by (simp_all add: fpm_buckets_def bs)
    then show "rank_of (fpm_peer_id m) (fst x) = j"
      using placedD [OF fpm_wfD(7) [OF wf], of j x] rank [of "fst x"]
      by (cases "j = i") (auto simp: fpm_buckets_def)
  qed
  moreover have "n = length (present (contacts ?m))"
    using length_present_put [OF wf i b(1)] n by simp
  ultimately show ?thesis
    using wf b(2,3) length_contacts_put [OF wf i b(1)] fpm_wfD [OF wf]
    by (auto simp: fpm_wf_def fpm_buckets_def bs)
qed

lemma fpm_bucket_ranks:
  assumes "fpm_wf m" and "i < 256" and "p \<in> fst ` set (slot_pairs (fpm_bucket m i))"
  shows "rank_of (fpm_peer_id m) p = i"
proof -
  from assms(3) obtain x where "x \<in> set (slot_pairs (fpm_bucket m i))" "p = fst x" by blast
  then show ?thesis
    using placedD [OF fpm_wfD(7) [OF assms(1)], of i x] assms(2) by (simp add: fpm_buckets_def)
qed

subsection \<open>Insertion\<close>

abbreviation home :: "flat_peer_map \<Rightarrow> peer_id \<Rightarrow> contact option list" where
  "home m p \<equiv> fpm_bucket m (rank_of (fpm_peer_id m) p)"

lemma bucket_for_eq [wd_total]: "fpm_wf m \<Longrightarrow> bucket_for m p = Inr (home m p)"
  by (simp add: bucket_for_def bucket_slice_eq fpm_wfD)

lemma bucket_for_mut_eq [wd_total]:
  "fpm_wf m \<Longrightarrow> bucket_for_mut m p =
     Inr (rank_of (fpm_peer_id m) p * fpm_bucket_size m, home m p)"
  by (simp add: bucket_for_mut_def bucket_slice_eq fpm_wfD)

lemma fpm_view_None_iff: "fpm_view m p = None \<longleftrightarrow> p \<notin> fst ` set (slot_pairs (home m p))"
  unfolding fpm_view_def map_of_eq_None_iff ..

lemma flat_insert_scan:
  assumes wf: "fpm_wf m" and scan: "scan_bucket c (home m (ct_peer_id c)) = Some (grew, b')"
  defines "m' \<equiv> (fpm_put m (rank_of (fpm_peer_id m) (ct_peer_id c)) b')
    \<lparr>fpm_count := fpm_count m + (if grew then 1 else 0)\<rparr>"
  shows "flat_insert c m = Inr m'" and "fpm_wf m'"
    and "fpm_view m' = (fpm_view m)(ct_peer_id c \<mapsto> ct_address c)"
proof -
  let ?i = "rank_of (fpm_peer_id m) (ct_peer_id c)"
  let ?b = "home m (ct_peer_id c)"
  note b' = scan_bucket_Some [OF fpm_wfD(5) [OF wf rank_of_less] scan]
  have len: "length b' = fpm_bucket_size m" using b' fpm_wfD(2) [OF wf] by simp
  have up: "slot_pairs b' = AList.update (ct_peer_id c) (ct_address c) (slot_pairs ?b)" using b' by blast
  have "length (slot_pairs b') = length (slot_pairs ?b) + (if grew then 1 else 0)"
    using b' unfolding up by (auto simp: length_alist_update)
  then have "fpm_count m + (if grew then 1 else 0) + length (present ?b) = fpm_count m + length (present b')"
    by simp
  moreover have "distinct (map fst (slot_pairs b'))"
    unfolding up by (rule distinct_update [OF fpm_wfD(6) [OF wf rank_of_less]])
  moreover have "rank_of (fpm_peer_id m) p = ?i" if "p \<in> fst ` set (slot_pairs b')" for p
    using that fpm_bucket_ranks [OF wf rank_of_less, of p] unfolding up by (auto simp: dom_update)
  ultimately show wf': "fpm_wf m'"
    unfolding m'_def using fpm_put_wf [OF wf rank_of_less len] b' by blast
  show "fpm_view m' = (fpm_view m)(ct_peer_id c \<mapsto> ct_address c)"
    unfolding m'_def using fpm_view_put [OF wf rank_of_less len]
    by (auto simp: fun_eq_iff up update_conv' fpm_view_def)
  have "fpm_count m' \<le> length (contacts m')" and "length (contacts m') < usize_range"
    using fpm_wfD [OF wf'] length_present_le [of "contacts m'"] by simp_all
  then have "grew \<Longrightarrow> fpm_count m + 1 < usize_range" unfolding m'_def by simp
  then show "flat_insert c m = Inr m'"
    using scan wf by (auto simp: flat_insert_def bucket_for_mut_eq m'_def fpm_put_def Let_def)
qed

lemma flat_insert_full:
  assumes wf: "fpm_wf m" and pos: "0 < fpm_bucket_size m" and scan: "scan_bucket c (home m (ct_peer_id c)) = None"
  defines "m' \<equiv> fpm_put m (rank_of (fpm_peer_id m) (ct_peer_id c)) ((home m (ct_peer_id c))[0 := Some c])"
  shows "flat_insert c m = Inr m'" and "fpm_wf m'"
    and "fpm_view m' = (fpm_view m)(fst (hd (slot_pairs (home m (ct_peer_id c)))) := None, ct_peer_id c \<mapsto> ct_address c)"
proof -
  let ?i = "rank_of (fpm_peer_id m) (ct_peer_id c)"
  let ?b = "home m (ct_peer_id c)"
  note none = scan_bucket_None [OF scan]
  have len: "length ?b = fpm_bucket_size m" using fpm_wfD(2) [OF wf] by simp
  then obtain d es where b: "?b = Some d # es"
    using none pos by (cases ?b; cases "hd ?b") auto
  have dist: "distinct (map fst (slot_pairs ?b))" by (rule fpm_wfD(6) [OF wf rank_of_less])
  have ranks: "rank_of (fpm_peer_id m) p = ?i" if "p \<in> fst ` set (slot_pairs (?b[0 := Some c]))" for p
    using that fpm_bucket_ranks [OF wf rank_of_less, of p "fpm_peer_id m" "ct_peer_id c"] by (auto simp: b)
  have pack: "packed (?b[0 := Some c])" using none by (simp add: b packed_full)
  have dist': "distinct (map fst (slot_pairs (?b[0 := Some c])))"
    using dist none by (auto simp: b image_image)
  have len': "length (?b[0 := Some c]) = fpm_bucket_size m" using len by simp
  have "fpm_count m + length (present ?b) = fpm_count m + length (present (?b[0 := Some c]))"
    by (simp add: b)
  from fpm_put_wf [OF wf rank_of_less len' pack dist' ranks this]
  have "fpm_wf (m'\<lparr>fpm_count := fpm_count m\<rparr>)" unfolding m'_def .
  then show "fpm_wf m'" by (simp add: m'_def fpm_put_def)
  have "fpm_view m' q = ((fpm_view m)(fst (hd (slot_pairs ?b)) := None, ct_peer_id c \<mapsto> ct_address c)) q" for q
  proof -
    have "ct_peer_id d \<notin> fst ` set (slot_pairs es)" using dist by (auto simp: b)
    then have "map_of (slot_pairs es) (ct_peer_id d) = None" unfolding map_of_eq_None_iff .
    moreover have "rank_of (fpm_peer_id m) (ct_peer_id d) = ?i"
      using fpm_bucket_ranks [OF wf rank_of_less, of "ct_peer_id d" "fpm_peer_id m" "ct_peer_id c"] by (simp add: b)
    ultimately show ?thesis
      unfolding m'_def using fpm_view_put [OF wf rank_of_less, of "?b[0 := Some c]"] len
      by (auto simp: b fpm_view_def)
  qed
  then show "fpm_view m' = (fpm_view m)(fst (hd (slot_pairs ?b)) := None, ct_peer_id c \<mapsto> ct_address c)"
    by (rule ext)
  show "flat_insert c m = Inr m'"
    using scan wf none pos len fpm_wfD(3) [OF wf]
    by (simp add: flat_insert_def bucket_for_mut_eq bucket_for_eq item_to_evict_def m'_def fpm_put_def)
qed

lemma flat_insert_cases:
  assumes "fpm_wf m" and "0 < fpm_bucket_size m"
  obtains (kept) m' where "flat_insert c m = Inr m'" "fpm_wf m'" "fpm_bucket_size m' = fpm_bucket_size m"
      "fpm_peer_id m' = fpm_peer_id m" "fpm_view m' = (fpm_view m)(ct_peer_id c \<mapsto> ct_address c)"
      "fpm_view m (ct_peer_id c) \<noteq> None \<or> None \<in> set (home m (ct_peer_id c))"
  | (evicted) m' where "flat_insert c m = Inr m'" "fpm_wf m'" "fpm_bucket_size m' = fpm_bucket_size m"
      "fpm_peer_id m' = fpm_peer_id m" "fpm_view m (ct_peer_id c) = None" "None \<notin> set (home m (ct_peer_id c))"
      "home m' (ct_peer_id c) = (home m (ct_peer_id c))[0 := Some c]"
      "fpm_view m' = (fpm_view m)(fst (hd (slot_pairs (home m (ct_peer_id c)))) := None, ct_peer_id c \<mapsto> ct_address c)"
proof (cases "scan_bucket c (home m (ct_peer_id c))")
  case None
  note ins = flat_insert_full [OF assms None]
  show ?thesis
    by (rule evicted [OF ins(1,2)])
      (use ins(3) scan_bucket_None [OF None] assms(1) in \<open>auto simp: fpm_view_None_iff fpm_bucket_put fpm_wfD image_image\<close>)
next
  case (Some r)
  obtain grew b' where r: "r = (grew, b')" by fastforce
  note ins = flat_insert_scan [OF assms(1) Some [unfolded r]]
  have "fpm_view m (ct_peer_id c) \<noteq> None" if "None \<notin> set (home m (ct_peer_id c))"
  proof -
    have "length (slot_pairs b') \<le> length (slot_pairs (home m (ct_peer_id c)))"
      using length_present_le [of b'] scan_bucket_Some [OF fpm_wfD(5) [OF assms(1) rank_of_less] Some [unfolded r]]
        present_full [OF that] by (metis length_map)
    then show ?thesis
      using scan_bucket_Some [OF fpm_wfD(5) [OF assms(1) rank_of_less] Some [unfolded r]]
      by (auto simp: fpm_view_None_iff length_alist_update simp del: length_map split: if_splits)
  qed
  then show ?thesis by (intro kept [OF ins(1,2)]) (use ins(3) in auto)
qed

lemma contact_pair_collapse [simp]: "\<lparr>ct_peer_id = ct_peer_id c, ct_address = ct_address c\<rparr> = c"
  by (rule contact.equality) simp_all

lemma find_map_of:
  "map_option contact_pair (find (\<lambda>c. ct_peer_id c = p) cs) = map_option (Pair p) (map_of (map contact_pair cs) p)"
  by (induction cs) auto

lemma flat_contains_pair:
  "fpm_wf m \<Longrightarrow> res_map (map_option contact_pair) (flat_contains m p) = Inr (map_option (Pair p) (fpm_view m p))"
  by (simp add: flat_contains_def bucket_for_eq find_map_of fpm_view_def)

text \<open>A table with at least one slot per bucket is a routing table.\<close>

interpretation fpt: peer_table "\<lambda>m. fpm_wf m \<and> 0 < fpm_bucket_size m" fpm_view
  "\<lambda>(p, a). flat_insert \<lparr>ct_peer_id = p, ct_address = a\<rparr>"
  "\<lambda>m p. res_map (map_option contact_pair) (flat_contains m p)"
proof (unfold_locales, goal_cases)
  case (1 m x)
  then show ?case by (auto split: prod.splits elim: flat_insert_cases)
next
  case (2 m x m')
  obtain p a where "x = (p, a)" by fastforce
  with 2 show ?case by (auto elim!: flat_insert_cases [of m "\<lparr>ct_peer_id = p, ct_address = a\<rparr>"])
next
  case (3 m p a m')
  then show ?case by (auto elim!: flat_insert_cases [of m "\<lparr>ct_peer_id = p, ct_address = a\<rparr>"])
next
  case (4 m p a m' q)
  then show ?case by (auto elim!: flat_insert_cases [of m "\<lparr>ct_peer_id = p, ct_address = a\<rparr>"])
next
  case (5 m p)
  then show ?case by (simp add: flat_contains_pair)
qed

lemma flat_new_wf [wd_inv]:
  assumes "flat_new p n = Inr m"
  shows "fpm_wf m" and "fpm_view m = Map.empty" and "fpm_bucket_size m = n" and "fpm_peer_id m = p" and "fpm_count m = 0"
proof -
  have m: "m = \<lparr>contacts = replicate (256 * n) None, fpm_count = 0, fpm_bucket_size = n,
      fpm_peer_id = p, next_eviction = 0\<rparr>" and n: "256 * n < usize_range"
    using assms by (auto simp: flat_new_def usize_mul_def split: if_splits)
  have b: "fpm_bucket m i = replicate (min n (256 * n - i * n)) None" for i
    by (simp add: fpm_bucket_def m min_def)
  show "fpm_wf m" "fpm_view m = Map.empty" "fpm_bucket_size m = n" "fpm_peer_id m = p" "fpm_count m = 0"
    using n b by (auto simp: fpm_wf_def fpm_buckets_def fpm_view_def m fun_eq_iff intro!: packed_None placedI)
qed

subsection \<open>All contacts of the table\<close>

abbreviation pair_buckets :: "flat_peer_map \<Rightarrow> (peer_id \<times> socket_addr) list list" where
  "pair_buckets m \<equiv> map slot_pairs (fpm_buckets m)"

lemma fpm_buckets_nth [simp]: "i < 256 \<Longrightarrow> fpm_buckets m ! i = fpm_bucket m i"
  by (simp add: fpm_buckets_def)

lemma length_fpm_buckets [simp]: "length (fpm_buckets m) = 256"
  by (simp add: fpm_buckets_def)

lemma slot_pairs_concat: "slot_pairs (concat bs) = concat (map slot_pairs bs)"
  by (induction bs) simp_all

lemma contacts_pairs: "fpm_wf m \<Longrightarrow> slot_pairs (contacts m) = concat (pair_buckets m)"
  using slot_pairs_concat [of "fpm_buckets m"] concat_fpm_buckets [OF fpm_wfD(2), of m] by simp

lemma inj_contact_pair: "inj contact_pair"
  by (auto intro!: injI contact.equality)

lemma mem_slot_pairs: "contact_pair c \<in> set (slot_pairs es) \<longleftrightarrow> c \<in> set (present es)"
  unfolding list.set_map by (rule inj_image_mem_iff [OF inj_contact_pair])

lemma mem_contacts_iff:
  assumes "fpm_wf m"
  shows "c \<in> set (present (contacts m)) \<longleftrightarrow> fpm_view m (ct_peer_id c) = Some (ct_address c)"
proof -
  have "c \<in> set (present (contacts m)) \<longleftrightarrow> contact_pair c \<in> set (concat (pair_buckets m))"
    by (simp only: contacts_pairs [OF assms, symmetric] mem_slot_pairs)
  also have "\<dots> \<longleftrightarrow> contact_pair c \<in> set (slot_pairs (home m (ct_peer_id c)))"
    using dist.placed_mem_concat [OF fpm_wfD(7) [OF assms], of "contact_pair c"] by simp
  also have "\<dots> \<longleftrightarrow> fpm_view m (ct_peer_id c) = Some (ct_address c)"
    using map_of_eq_Some_iff [OF fpm_wfD(6) [OF assms rank_of_less]] by (simp only: fpm_view_def)
  finally show ?thesis .
qed

lemma distinct_contacts: "fpm_wf m \<Longrightarrow> distinct (map fst (slot_pairs (contacts m)))"
proof -
  assume wf: "fpm_wf m"
  have "distinct (map fst (pair_buckets m ! i))" if "i < length (pair_buckets m)" for i
    using fpm_wfD(6) [OF wf, of i] that by simp
  then show ?thesis
    unfolding contacts_pairs [OF wf] by (rule dist.placed_distinct_keys [OF fpm_wfD(7) [OF wf]])
qed

lemma fpm_view_map_of: "fpm_wf m \<Longrightarrow> fpm_view m = map_of (slot_pairs (contacts m))"
proof
  fix p
  assume wf: "fpm_wf m"
  have "fpm_view m p = Some a \<longleftrightarrow> map_of (slot_pairs (contacts m)) p = Some a" for a
    using mem_contacts_iff [OF wf, of "\<lparr>ct_peer_id = p, ct_address = a\<rparr>"]
      mem_slot_pairs [of "\<lparr>ct_peer_id = p, ct_address = a\<rparr>" "contacts m"]
      map_of_eq_Some_iff [OF distinct_contacts [OF wf], of p a]
    by simp
  then show "fpm_view m p = map_of (slot_pairs (contacts m)) p"
    by (metis not_None_eq)
qed

lemma fpm_count_card: "fpm_wf m \<Longrightarrow> fpm_count m = card (dom (fpm_view m))"
  using distinct_card [OF distinct_contacts, of m]
  by (simp add: fpm_view_map_of dom_map_of_conv_image_fst fpm_wfD(4) image_image)

lemma fpm_count_le: "fpm_wf m \<Longrightarrow> fpm_count m \<le> 256 * fpm_bucket_size m"
  using length_present_le [of "contacts m"] by (simp add: fpm_wfD)

subsection \<open>The search for the closest peers\<close>

text \<open>
  The buckets in the order the loop appends them: for every width the bucket that far ahead and
  the bucket that far behind, modulo the number of buckets.
\<close>

definition flat_width_visits :: "nat \<Rightarrow> nat \<Rightarrow> nat list" where
  "flat_width_visits t w = [(t + w) mod 256, (t + (256 - w)) mod 256]"

definition flat_visits :: "nat \<Rightarrow> nat list" where
  "flat_visits t = t # concat (map (flat_width_visits t) [1..<256])"

definition flat_at :: "flat_peer_map \<Rightarrow> nat list \<Rightarrow> contact list" where
  "flat_at m is = concat (map (\<lambda>i. present (fpm_bucket m i)) is)"

lemma flat_at_simps [simp]:
  "flat_at m [] = []" "flat_at m (i # is) = present (fpm_bucket m i) @ flat_at m is"
  "flat_at m (is @ js) = flat_at m is @ flat_at m js"
  by (simp_all add: flat_at_def)

lemma wrapping_sub_mod: "w < 256 \<Longrightarrow> usize_wrapping_sub t w mod 256 = (t + (256 - w)) mod 256"
proof -
  assume w: "w < 256"
  have "(256 :: nat) dvd 2 ^ 64" by simp
  then have "usize_wrapping_sub t w mod 256 = (t + (2 ^ 64 - w)) mod 256"
    using w unfolding usize_wrapping_sub_def usize_range_def by (simp only: mod_mod_cancel) simp
  also have "t + (2 ^ 64 - w) = t + (256 - w) + 256 * (2 ^ 56 - 1)" using w by simp
  finally show ?thesis by (simp only: mod_mult_self2)
qed

lemma wrapping_add_mod: "usize_wrapping_add t w mod 256 = (t + w) mod 256"
proof -
  have "(256 :: nat) dvd 2 ^ 64" by simp
  then show ?thesis unfolding usize_wrapping_add_def usize_range_def by (simp only: mod_mod_cancel)
qed

lemma flat_closest_loop_eq:
  assumes wf: "fpm_wf m" and "w \<le> 256"
  shows "res_map (take cnt) (flat_closest_loop m cnt t w r) =
    Inr (take cnt (r @ flat_at m (concat (map (flat_width_visits t) [w..<256]))))"
  using assms(2)
proof (induction "256 - w" arbitrary: w r)
  case 0
  then show ?case by (simp add: flat_closest_loop.simps)
next
  case (Suc n)
  show ?case
  proof (cases "length r < cnt")
    case True
    have "w < 256" using Suc.hyps(2) by simp
    then have "flat_closest_loop m cnt t w r = flat_closest_loop m cnt t (Suc w) (r @ flat_at m (flat_width_visits t w))"
      using True
      by (subst flat_closest_loop.simps)
        (simp add: wrapping_add_mod wrapping_sub_mod bucket_slice_eq fpm_wfD [OF wf] flat_width_visits_def Let_def)
    then show ?thesis
      using Suc by (simp add: upt_conv_Cons)
  next
    case False
    then show ?thesis by (simp add: flat_closest_loop.simps)
  qed
qed

lemma flat_find_closest_visits:
  assumes "fpm_wf m" and "cnt \<le> 256 * fpm_bucket_size m"
  shows "flat_find_closest_peers m needle cnt =
    Inr (take cnt (flat_at m (flat_visits (rank_of (fpm_peer_id m) needle))))"
  using flat_closest_loop_eq [OF assms(1), of 1 cnt "rank_of (fpm_peer_id m) needle"] assms
  by (simp add: flat_find_closest_peers_def bucket_for_eq fpm_wfD flat_visits_def Let_def)

text \<open>
  The first 256 buckets visited are all the buckets, each once; every bucket but the target's
  is then visited a second time.
\<close>

definition first_visits :: "nat \<Rightarrow> nat list" where
  "first_visits t = t # concat (map (flat_width_visits t) [1..<128]) @ [(t + 128) mod 256]"

definition second_visits :: "nat \<Rightarrow> nat list" where
  "second_visits t = (t + 128) mod 256 # concat (map (flat_width_visits t) [129..<256])"

lemma flat_visits_split: "flat_visits t = first_visits t @ second_visits t"
proof -
  have "[1..<256] = [1..<128] @ [128] @ [129..<256 :: nat]"
    using upt_add_eq_append [of 1 128 128] upt_conv_Cons [of 128 256] by simp
  then have "flat_visits t = t # concat (map (flat_width_visits t) ([1..<128] @ [128] @ [129..<256]))"
    unfolding flat_visits_def by (rule arg_cong)
  also have "\<dots> = first_visits t @ second_visits t"
    by (simp add: first_visits_def second_visits_def flat_width_visits_def)
  finally show ?thesis .
qed

lemma length_concat_widths: "length (concat (map (flat_width_visits t) ws)) = 2 * length ws"
  by (induction ws) (simp_all add: flat_width_visits_def)

lemma widthsI:
  "w \<in> {a..<b} \<Longrightarrow> i = (t + w) mod 256 \<or> i = (t + (256 - w)) mod 256 \<Longrightarrow>
     i \<in> set (concat (map (flat_width_visits t) [a..<b]))"
  by (force simp: flat_width_visits_def)

lemma offset_cases:
  fixes t i :: nat
  assumes "t < 256" and "i < 256"
  obtains d where "d < 256" "i = (t + d) mod 256" "d = 0 \<longleftrightarrow> i = t" "i = (t + (256 - (256 - d))) mod 256"
proof
  define d where "d = (i + (256 - t)) mod 256"
  show "d < 256" and i: "i = (t + d) mod 256"
    using assms by (auto simp: d_def mod_simps)
  then show "i = (t + (256 - (256 - d))) mod 256" by simp
  show "d = 0 \<longleftrightarrow> i = t"
  proof
    assume "i = t"
    then show "d = 0" using assms by (simp add: d_def)
  qed (use i assms in simp)
qed

lemma first_visits_all:
  assumes "t < 256"
  shows "set (first_visits t) = {..<256}"
proof
  show "set (first_visits t) \<subseteq> {..<256}"
    using assms by (auto simp: first_visits_def flat_width_visits_def)
  have "i \<in> set (first_visits t)" if "i < 256" for i
    using assms that
  proof (cases rule: offset_cases)
    case (1 d)
    from 1(1) have "d = 0 \<or> d \<in> {1..<128} \<or> d = 128 \<or> 256 - d \<in> {1..<128}"
      unfolding atLeastLessThan_iff by arith
    then consider "d = 0" | "d \<in> {1..<128}" | "d = 128" | "256 - d \<in> {1..<128}" by blast
    then show ?thesis
    proof cases
      case 2
      with 1 show ?thesis using widthsI [of d 1 128] by (simp add: first_visits_def)
    next
      case 4
      with 1 show ?thesis using widthsI [of "256 - d" 1 128] by (simp add: first_visits_def)
    qed (use 1 assms in \<open>simp_all add: first_visits_def\<close>)
  qed
  then show "{..<256} \<subseteq> set (first_visits t)" by auto
qed

lemma second_visits_others:
  assumes "t < 256" and "i < 256" and "i \<noteq> t"
  shows "i \<in> set (second_visits t)"
  using assms(1,2)
proof (cases rule: offset_cases)
  case (1 d)
  then have "0 < d" and "d < 256" using assms(3) by simp_all
  then have "d \<in> {129..<256} \<or> d = 128 \<or> 256 - d \<in> {129..<256}"
    unfolding atLeastLessThan_iff by arith
  then consider "d \<in> {129..<256}" | "d = 128" | "256 - d \<in> {129..<256}" by blast
  then show ?thesis
  proof cases
    case 1
    with \<open>i = (t + d) mod 256\<close> show ?thesis using widthsI [of d 129 256] by (simp add: second_visits_def)
  next
    case 3
    with 1(4) show ?thesis using widthsI [of "256 - d" 129 256] by (simp add: second_visits_def)
  qed (use 1 in \<open>simp add: second_visits_def\<close>)
qed

lemma first_visits_distinct: "t < 256 \<Longrightarrow> distinct (first_visits t)"
  by (rule card_distinct) (simp only: first_visits_all, simp add: first_visits_def length_concat_widths)

lemma first_visits_mset: "t < 256 \<Longrightarrow> mset (first_visits t) = mset [0..<256]"
  by (rule set_eq_iff_mset_eq_distinct [THEN iffD1])
    (simp_all add: first_visits_distinct first_visits_all lessThan_atLeast0)

lemma mset_concat_map_cong: "mset xs = mset ys \<Longrightarrow> mset (concat (map f xs)) = mset (concat (map f ys))"
  by (metis mset_concat mset_map sum_mset_sum_list)

lemma flat_at_first:
  assumes "fpm_wf m" and "t < 256"
  shows "mset (flat_at m (first_visits t)) = mset (present (contacts m))"
proof -
  have "flat_at m [0..<256] = present (concat (fpm_buckets m))"
    by (simp add: flat_at_def fpm_buckets_def present_concat comp_def)
  then show ?thesis
    using mset_concat_map_cong [OF first_visits_mset [OF assms(2)], of "\<lambda>i. present (fpm_bucket m i)"] concat_fpm_buckets [OF fpm_wfD(2) [OF assms(1)]]
    by (simp add: flat_at_def)
qed

lemma flat_at_known: "set (flat_at m is) \<subseteq> set (present (contacts m))"
  by (auto simp: flat_at_def set_present fpm_bucket_def dest: in_set_takeD in_set_dropD)

lemma flat_closest_result:
  assumes "fpm_wf m" and "flat_find_closest_peers m needle cnt = Inr res"
  shows "res = take cnt (flat_at m (first_visits (rank_of (fpm_peer_id m) needle)) @
      flat_at m (second_visits (rank_of (fpm_peer_id m) needle)))"
    and "length (flat_at m (first_visits (rank_of (fpm_peer_id m) needle))) = fpm_count m"
proof -
  have "cnt \<le> 256 * fpm_bucket_size m"
    using assms(2) fpm_wfD(2) [OF assms(1)] by (auto simp: flat_find_closest_peers_def split: if_splits)
  then show "res = take cnt (flat_at m (first_visits (rank_of (fpm_peer_id m) needle)) @
      flat_at m (second_visits (rank_of (fpm_peer_id m) needle)))"
    using assms(2) by (simp add: flat_find_closest_visits [OF assms(1)] flat_visits_split)
  show "length (flat_at m (first_visits (rank_of (fpm_peer_id m) needle))) = fpm_count m"
    using mset_eq_length [OF flat_at_first [OF assms(1) rank_of_less]] fpm_wfD(4) [OF assms(1)] by simp
qed

lemma distinct_present: "fpm_wf m \<Longrightarrow> distinct (present (contacts m))"
  using distinct_contacts [of m] by (metis distinct_map)

lemma flat_insert_evicts:
  assumes "fpm_wf m" and "0 < fpm_bucket_size m" and b: "home m (ct_peer_id c) = Some e # es" "None \<notin> set es"
    and "fpm_view m (ct_peer_id c) = None" and "flat_insert c m = Inr m'"
  shows "fpm_wf m'" and "fpm_bucket_size m' = fpm_bucket_size m" and "fpm_peer_id m' = fpm_peer_id m"
    and "home m' (ct_peer_id c) = Some c # es"
    and "fpm_view m' = (fpm_view m)(ct_peer_id e := None, ct_peer_id c \<mapsto> ct_address c)"
  by (rule flat_insert_cases [OF assms(1,2), of c]; use assms in force)+

subsection \<open>Sequences of insertions\<close>

text \<open>The peers of one rank that a table knows; a full bucket has as many as it has slots.\<close>

abbreviation of_rank :: "peer_id \<Rightarrow> peer_id set \<Rightarrow> nat \<Rightarrow> peer_id set" where
  "of_rank self_id ps r \<equiv> {p \<in> ps. rank_of self_id p = r}"

lemma home_full_rank:
  assumes "fpm_wf m" and "None \<notin> set (home m p)"
  shows "fpm_bucket_size m = card (ct_peer_id ` set (present (home m p)))"
    and "ct_peer_id ` set (present (home m p)) \<subseteq> of_rank (fpm_peer_id m) (dom (fpm_view m)) (rank_of (fpm_peer_id m) p)"
proof -
  have "length (present (home m p)) = fpm_bucket_size m"
    using present_full [OF assms(2)] fpm_wfD(2) [OF assms(1)] by (metis length_fpm_bucket length_map rank_of_less)
  moreover have "distinct (map ct_peer_id (present (home m p)))"
    using fpm_wfD(6) [OF assms(1) rank_of_less [of "fpm_peer_id m" p]] by (simp add: comp_def)
  ultimately show "fpm_bucket_size m = card (ct_peer_id ` set (present (home m p)))"
    using distinct_card [of "map ct_peer_id (present (home m p))"] by simp
  show "ct_peer_id ` set (present (home m p)) \<subseteq> of_rank (fpm_peer_id m) (dom (fpm_view m)) (rank_of (fpm_peer_id m) p)"
  proof
    fix q
    assume "q \<in> ct_peer_id ` set (present (home m p))"
    then obtain c where c: "c \<in> set (present (home m p))" "q = ct_peer_id c" by blast
    have "rank_of (fpm_peer_id m) q = rank_of (fpm_peer_id m) p"
      using placedD [OF fpm_wfD(7) [OF assms(1)], of "rank_of (fpm_peer_id m) p" "contact_pair c"] c
      by (auto simp: fpm_buckets_def max_power_def BLAKE2_HASH_SIZE_def)
    moreover from this have "fpm_view m q \<noteq> None" unfolding fpm_view_None_iff using c by (auto simp: image_image)
    ultimately show "q \<in> of_rank (fpm_peer_id m) (dom (fpm_view m)) (rank_of (fpm_peer_id m) p)" by blast
  qed
qed

text \<open>As long as no rank has more peers than a bucket has slots, none is evicted.\<close>

lemma flat_inserts_fit:
  assumes "fpm_wf m" and "0 < fpm_bucket_size m"
    and "\<And>r. card (of_rank (fpm_peer_id m) (dom (fpm_view m) \<union> ct_peer_id ` set cs) r) \<le> fpm_bucket_size m"
  shows "\<exists>m'. res_fold flat_insert cs m = Inr m' \<and> fpm_wf m' \<and> fpm_view m' = fpm_view m ++ map_of (rev (map contact_pair cs))"
  using assms
proof (induction cs arbitrary: m)
  case (Cons c cs)
  from Cons.prems(1,2) show ?case
  proof (cases rule: flat_insert_cases [of m c])
    case (kept m1)
    have "dom (fpm_view m1) \<union> ct_peer_id ` set cs = dom (fpm_view m) \<union> ct_peer_id ` set (c # cs)" using kept(5) by auto
    then obtain m' where "res_fold flat_insert cs m1 = Inr m'" "fpm_wf m'"
        "fpm_view m' = fpm_view m1 ++ map_of (rev (map contact_pair cs))"
      using Cons.IH [OF kept(2)] Cons.prems(2,3) kept(3,4) by metis
    then show ?thesis
      using kept(1,5) by (intro exI [of _ m']) (simp add: map_add_def fun_eq_iff split: option.splits)
  next
    case (evicted m1)
    let ?ids = "ct_peer_id ` set (present (home m (ct_peer_id c)))"
    note full = home_full_rank [OF Cons.prems(1) evicted(6)]
    have "finite (dom (fpm_view m))" using Cons.prems(1) by (simp add: fpm_view_map_of finite_dom_map_of)
    moreover have "insert (ct_peer_id c) ?ids \<subseteq>
        of_rank (fpm_peer_id m) (dom (fpm_view m) \<union> ct_peer_id ` set (c # cs)) (rank_of (fpm_peer_id m) (ct_peer_id c))"
      using full(2) by auto
    ultimately have "card (insert (ct_peer_id c) ?ids) \<le> fpm_bucket_size m"
      by (intro order_trans [OF card_mono Cons.prems(3)]) simp_all
    moreover have "ct_peer_id c \<notin> ?ids" using full(2) evicted(5) by auto
    ultimately show ?thesis using full(1) by simp
  qed
qed simp

lemma flat_inserts_few:
  assumes "fpm_wf m" and "0 < fpm_bucket_size m" and "fpm_count m + length cs \<le> fpm_bucket_size m"
  shows "\<exists>m'. res_fold flat_insert cs m = Inr m' \<and> fpm_wf m' \<and> fpm_view m' = fpm_view m ++ map_of (rev (map contact_pair cs))"
proof (rule flat_inserts_fit [OF assms(1,2)])
  fix r
  have fin: "finite (dom (fpm_view m))" using assms(1) by (simp add: fpm_view_map_of finite_dom_map_of)
  then have "card (of_rank (fpm_peer_id m) (dom (fpm_view m) \<union> ct_peer_id ` set cs) r) \<le> card (dom (fpm_view m) \<union> ct_peer_id ` set cs)"
    by (intro card_mono) auto
  also have "\<dots> \<le> card (dom (fpm_view m)) + card (ct_peer_id ` set cs)" by (rule card_Un_le)
  also have "\<dots> \<le> fpm_count m + length cs"
    using fpm_count_card [OF assms(1)] card_image_le [of "set cs" ct_peer_id] card_length [of cs] by simp
  finally show "card (of_rank (fpm_peer_id m) (dom (fpm_view m) \<union> ct_peer_id ` set cs) r) \<le> fpm_bucket_size m"
    using assms(3) by linarith
qed

lemma flat_inserts_total:
  assumes "fpm_wf m" and "0 < fpm_bucket_size m"
  shows "\<exists>m'. res_fold flat_insert cs m = Inr m' \<and> fpm_wf m' \<and> fpm_bucket_size m' = fpm_bucket_size m \<and>
    dom (fpm_view m') \<subseteq> dom (fpm_view m) \<union> ct_peer_id ` set cs"
  using assms
proof (induction cs arbitrary: m)
  case (Cons c cs)
  obtain m1 where m1: "flat_insert c m = Inr m1" "fpm_wf m1" "fpm_bucket_size m1 = fpm_bucket_size m"
      "dom (fpm_view m1) \<subseteq> insert (ct_peer_id c) (dom (fpm_view m))"
    by (rule flat_insert_cases [OF Cons.prems, of c]) (auto split: if_splits)
  obtain m' where m': "res_fold flat_insert cs m1 = Inr m'" "fpm_wf m'" "fpm_bucket_size m' = fpm_bucket_size m1"
      "dom (fpm_view m') \<subseteq> dom (fpm_view m1) \<union> ct_peer_id ` set cs"
    using Cons.IH [OF m1(2)] Cons.prems(2) m1(3) by metis
  have "dom (fpm_view m') \<subseteq> dom (fpm_view m) \<union> ct_peer_id ` set (c # cs)"
    using m'(4) m1(4) unfolding list.set image_insert by blast
  then show ?case using m1(1,3) m'(1-3) by simp
qed simp

lemma flat_contains_None: "fpm_wf m \<Longrightarrow> \<exists>r. flat_contains m p = Inr r \<and> (r = None \<longleftrightarrow> fpm_view m p = None)"
  using flat_contains_pair [of m p] by (cases "flat_contains m p") auto

subsection \<open>Concrete tables\<close>

lemma one_contact_table:
  obtains m where "flat_new zero_peer 1 = Inr m" and "fpm_wf m" and "fpm_bucket_size m = 1"
    and "fpm_peer_id m = zero_peer" and "fpm_view m = Map.empty"
proof -
  obtain m where m: "flat_new zero_peer 1 = Inr m" by (simp add: flat_new_def usize_range_def)
  then show ?thesis using that flat_new_wf [OF m] by blast
qed

lemma top_unit_ranks [simp]:
  "rank_of zero_peer (unit_peer 0 128) = 0" "rank_of zero_peer (unit_peer 0 192) = 0"
  "rank_of zero_peer (unit_peer 0 160) = 0" "rank_of zero_peer (unit_peer 2 1) = 22"
  by (simp_all add: rank_of_unit_peer byte_lz_def byte_bits_def)

lemma fpm_bucket_empty:
  assumes "fpm_wf m" and "fpm_view m = Map.empty"
  shows "present (fpm_bucket m i) = []"
  using flat_at_known [of m "[i]"] mem_contacts_iff [OF assms(1)] assms(2)
  by (auto simp: subset_eq intro: list_eq_iff_nth_eq [THEN iffD2] dest: nth_mem)

lemma full_bucket_table:
  obtains m where "fpm_wf m" and "fpm_bucket_size m = 1" and "fpm_peer_id m = zero_peer"
    and "fpm_view m = [unit_peer 0 128 \<mapsto> V6 1 1234 0 0]" and "None \<notin> set (fpm_bucket m 0)"
proof -
  obtain m0 where m0: "fpm_wf m0" "fpm_bucket_size m0 = 1" "fpm_peer_id m0 = zero_peer" "fpm_view m0 = Map.empty"
    by (rule one_contact_table)
  have pos: "0 < fpm_bucket_size m0" by (simp add: m0(2))
  obtain m where m: "flat_insert (new_dummy (unit_peer 0 128)) m0 = Inr m" "fpm_wf m" "fpm_bucket_size m = 1"
      "fpm_peer_id m = zero_peer" "fpm_view m = [unit_peer 0 128 \<mapsto> V6 1 1234 0 0]"
    using m0 fpm_bucket_empty [OF m0(1,4)] present_full
    by (cases rule: flat_insert_cases [OF m0(1) pos, of "new_dummy (unit_peer 0 128)"])
      (fastforce simp: new_dummy_def fpm_wfD)+
  have "length (fpm_bucket m 0) = 1" using m(2,3) by (simp add: fpm_wfD)
  moreover have "present (fpm_bucket m 0) \<noteq> []"
    using m(4,5) by (auto simp: fpm_view_def fun_eq_iff split: if_splits)
  ultimately have "None \<notin> set (fpm_bucket m 0)"
    by (cases "fpm_bucket m 0"; cases "hd (fpm_bucket m 0)") auto
  then show ?thesis using that m by blast
qed

subsection \<open>Properties\<close>

text \<open>
  C4. Insertion into a well-formed table whose buckets have at least one slot: it does not panic
  and the table stays well-formed (every contact in the bucket of its rank, no peer twice, the
  occupied slots first, \<open>count\<close> the number of contacts). What the table knows changes at the
  inserted peer only, unless the peer is unknown and its bucket full; then the contact in the
  bucket's first slot is forgotten as well.
\<close>

theorem flat_insert_refines:
  assumes "fpm_wf m" and "0 < fpm_bucket_size m"
  shows "\<exists>m'. flat_insert c m = Inr m' \<and> fpm_wf m' \<and> fpm_bucket_size m' = fpm_bucket_size m \<and>
    fpm_peer_id m' = fpm_peer_id m \<and>
    fpm_view m' =
      (if fpm_view m (ct_peer_id c) = None \<and> None \<notin> set (home m (ct_peer_id c))
       then (fpm_view m)(ct_peer_id (the (hd (home m (ct_peer_id c)))) := None, ct_peer_id c \<mapsto> ct_address c)
       else (fpm_view m)(ct_peer_id c \<mapsto> ct_address c))"
  using assms
proof (cases rule: flat_insert_cases [of m c])
  case (kept m')
  then show ?thesis by auto
next
  case (evicted m')
  have "length (home m (ct_peer_id c)) = fpm_bucket_size m" using assms(1) by (simp add: fpm_wfD)
  then obtain d es where "home m (ct_peer_id c) = Some d # es"
    using assms(2) evicted(6) by (cases "home m (ct_peer_id c)"; cases "hd (home m (ct_peer_id c))") auto
  then show ?thesis using evicted by simp
qed

theorem flat_insert_refines_witness:
  "\<exists>m m'. flat_new zero_peer 1 = Inr m \<and> flat_insert (new_dummy (unit_peer 0 128)) m = Inr m' \<and>
     fpm_view m' = [unit_peer 0 128 \<mapsto> V6 1 1234 0 0]"
proof -
  obtain m where m: "flat_new zero_peer 1 = Inr m" "fpm_wf m" "fpm_bucket_size m = 1"
      "fpm_peer_id m = zero_peer" "fpm_view m = Map.empty"
    by (rule one_contact_table)
  have "present (home m (unit_peer 0 128)) = []" by (rule fpm_bucket_empty [OF m(2,5)])
  then have "None \<in> set (home m (unit_peer 0 128))"
    using present_full [of "home m (unit_peer 0 128)"] m(2,3) by (metis fpm_wfD(2) length_0_conv length_fpm_bucket list.simps(8) rank_of_less zero_neq_one)
  then show ?thesis
    using flat_insert_refines [OF m(2), of "new_dummy (unit_peer 0 128)"] m by (auto simp: new_dummy_def)
qed

text \<open>
  A table made with no slot per bucket panics on every insertion: the scan falls through and
  the slot to evict is out of range.
\<close>

theorem flat_insert_no_slots:
  "res_bind (flat_new p 0) (flat_insert c) = Inl (IndexOutOfBounds 0 0)"
  by (simp add: flat_new_def usize_range_def flat_insert_def bucket_for_mut_def bucket_for_def bucket_slice_def
      vec_slice_def item_to_evict_def vec_set_def)

text \<open>
  C26. Eviction does not cycle through the slots of a bucket: of two unknown peers inserted one
  after the other into the same full bucket, the second evicts the first, and the table knows
  what it would know had the first never been inserted.
\<close>

theorem flat_eviction_not_cyclic:
  assumes "fpm_wf m" and "0 < fpm_bucket_size m" and full: "None \<notin> set (home m (ct_peer_id c))"
    and c: "fpm_view m (ct_peer_id c) = None" and d: "fpm_view m (ct_peer_id d) = None"
    and same: "distance_rank (fpm_peer_id m) (ct_peer_id c) = distance_rank (fpm_peer_id m) (ct_peer_id d)"
    and "ct_peer_id c \<noteq> ct_peer_id d"
    and ins: "flat_insert c m = Inr m1" "flat_insert d m1 = Inr m2" "flat_insert d m = Inr m3"
  shows "fpm_view m2 (ct_peer_id c) = None \<and> fpm_view m2 = fpm_view m3"
proof -
  have "length (home m (ct_peer_id c)) = fpm_bucket_size m" using assms(1) by (simp add: fpm_wfD)
  then obtain e es where b: "home m (ct_peer_id c) = Some e # es" and es: "None \<notin> set es"
    using assms(2) full by (cases "home m (ct_peer_id c)"; cases "hd (home m (ct_peer_id c))") auto
  note m1 = flat_insert_evicts [OF assms(1,2) b es c ins(1)]
  have "home m1 (ct_peer_id d) = Some c # es" using m1(3,4) same by simp
  from flat_insert_evicts [OF m1(1) _ this es _ ins(2)]
  have "fpm_view m2 = (fpm_view m1)(ct_peer_id c := None, ct_peer_id d \<mapsto> ct_address d)"
    using assms(2,7) d m1(2,5) by simp
  moreover have "home m (ct_peer_id d) = Some e # es" using b same by simp
  from flat_insert_evicts [OF assms(1,2) this es d ins(3)]
  have "fpm_view m3 = (fpm_view m)(ct_peer_id e := None, ct_peer_id d \<mapsto> ct_address d)" by simp
  ultimately show ?thesis using m1(5) c assms(7) by (auto simp: fun_eq_iff)
qed

theorem flat_eviction_not_cyclic_witness:
  "\<exists>m m1 m2. fpm_view m = [unit_peer 0 128 \<mapsto> V6 1 1234 0 0] \<and>
     flat_insert (new_dummy (unit_peer 0 192)) m = Inr m1 \<and> flat_insert (new_dummy (unit_peer 0 160)) m1 = Inr m2 \<and>
     fpm_view m2 (unit_peer 0 192) = None"
proof -
  obtain m where m: "fpm_wf m" "fpm_bucket_size m = 1" "fpm_peer_id m = zero_peer"
      "fpm_view m = [unit_peer 0 128 \<mapsto> V6 1 1234 0 0]" "None \<notin> set (fpm_bucket m 0)"
    by (rule full_bucket_table)
  let ?c = "new_dummy (unit_peer 0 192)" and ?d = "new_dummy (unit_peer 0 160)"
  have pos: "0 < fpm_bucket_size m" by (simp add: m(2))
  obtain m1 where m1: "flat_insert ?c m = Inr m1" "fpm_wf m1" "fpm_bucket_size m1 = fpm_bucket_size m"
    using flat_insert_refines [OF m(1) pos] by blast
  obtain m2 where m2: "flat_insert ?d m1 = Inr m2"
    using flat_insert_refines [OF m1(2), of ?d] pos m1(3) by auto
  obtain m3 where m3: "flat_insert ?d m = Inr m3" using flat_insert_refines [OF m(1) pos] by blast
  have "fpm_view m2 (ct_peer_id ?c) = None \<and> fpm_view m2 = fpm_view m3"
    by (rule flat_eviction_not_cyclic [OF m(1) pos _ _ _ _ _ m1(1) m2 m3])
      (use m(3-5) in \<open>auto simp: new_dummy_def unit_peer_inject word_unat_eq_iff top_unit_ranks\<close>)
  then show ?thesis using m(4) m1(1) m2 by (auto simp: new_dummy_def)
qed

text \<open>
  C23. After any sequence of insertions into a new table with at least one slot per bucket the
  table is well-formed, every contact it knows was inserted with that address, the peer inserted
  last is known, and \<open>count\<close> is the number of peers it knows, at most the number of slots.
\<close>

theorem flat_inserts_sound:
  assumes new: "flat_new self_id n = Inr m" and "0 < n"
  shows "\<exists>m'. res_fold (\<lambda>(p, a). flat_insert \<lparr>ct_peer_id = p, ct_address = a\<rparr>) (kvs @ [(q, b)]) m = Inr m' \<and>
    fpm_wf m' \<and> (\<forall>p a. fpm_view m' p = Some a \<longrightarrow> (p, a) \<in> set (kvs @ [(q, b)])) \<and> fpm_view m' q = Some b \<and>
    flat_count m' = card (dom (fpm_view m')) \<and> flat_count m' \<le> length (contacts m')"
proof -
  let ?ins = "\<lambda>(p, a). flat_insert \<lparr>ct_peer_id = p, ct_address = a\<rparr>"
  have inv: "fpm_wf m \<and> 0 < fpm_bucket_size m" using flat_new_wf [OF new] assms(2) by simp
  obtain m1 where m1: "res_fold ?ins kvs m = Inr m1" "fpm_wf m1 \<and> 0 < fpm_bucket_size m1"
    using fpt.inserts_total [OF inv] by blast
  obtain m' where m': "?ins (q, b) m1 = Inr m'" using fpt.insert_total [OF m1(2)] by blast
  have all: "res_fold ?ins (kvs @ [(q, b)]) m = Inr m'"
    using m1(1) m' by (simp add: res_fold_append)
  have wf: "fpm_wf m'" using fpt.insert_invar [OF m1(2) m'] by simp
  have "(p, a) \<in> set (kvs @ [(q, b)])" if "fpm_view m' p = Some a" for p a
    using fpt.inserts_origin [OF inv all that] flat_new_wf(2) [OF new] by simp
  then show ?thesis
    using all wf fpt.insert_same [OF m1(2) m'] fpm_count_card [OF wf] fpm_count_le [OF wf]
    by (auto simp: flat_count_def fpm_wfD(2) [OF wf])
qed

theorem flat_inserts_sound_witness:
  "\<exists>m m'. flat_new zero_peer 1 = Inr m \<and>
     res_fold (\<lambda>(p, a). flat_insert \<lparr>ct_peer_id = p, ct_address = a\<rparr>)
       [(unit_peer 0 128, V4 1 2), (unit_peer 0 192, V4 1 3)] m = Inr m' \<and> fpm_view m' (unit_peer 0 192) = Some (V4 1 3)"
proof -
  obtain m where m: "flat_new zero_peer 1 = Inr m" by (rule one_contact_table)
  show ?thesis
    using flat_inserts_sound [OF m, of "[(unit_peer 0 128, V4 1 2)]" "unit_peer 0 192" "V4 1 3"] m by auto
qed

text \<open>
  C24. The two routing tables of the program agree as long as no bucket overflows: if the contacts
  inserted have at most \<open>n\<close> different peers of every distance rank, a flat table with \<open>n\<close> slots per
  bucket and a \<open>PeerMap\<close> that get the same insertions both succeed and \<open>contains\<close> then gives the
  same answer for every peer.
\<close>

theorem flat_agrees_with_peer_map:
  assumes "enumerates order" and "flat_new self_id n = Inr m0" and "0 < n"
    and "\<forall>r. card {p \<in> ct_peer_id ` set cs. unat (distance_rank self_id p) = r} \<le> n"
  shows "\<exists>m pm. res_fold flat_insert cs m0 = Inr m \<and>
    res_fold (\<lambda>c. peer_map_insert self_id (ct_address c) (ct_peer_id c)) cs (peer_map_default order) = Inr pm \<and>
    (\<forall>p. res_map (map_option contact_pair) (flat_contains m p) = peer_map_contains pm self_id p)"
proof -
  note new = flat_new_wf [OF assms(2)]
  obtain m where m: "res_fold flat_insert cs m0 = Inr m" "fpm_wf m" "fpm_view m = map_of (rev (map contact_pair cs))"
    using flat_inserts_fit [OF new(1), of cs] new(2-4) assms(3,4) by auto
  note wf = pm_wf_default [OF assms(1), of self_id]
  obtain pm where pm: "res_fold (\<lambda>(p, a). peer_map_insert self_id a p) (map contact_pair cs) (peer_map_default order) = Inr pm" "pm_wf self_id pm"
    using pmt.inserts_total [OF wf] by blast
  have "res_fold (\<lambda>c. peer_map_insert self_id (ct_address c) (ct_peer_id c)) cs (peer_map_default order) = Inr pm"
    using pm(1) by (simp add: res_fold_map comp_def)
  then show ?thesis
    using m pm(2) pmt.inserts_view [OF wf pm(1)] by (auto simp: flat_contains_pair peer_map_contains_eq)
qed

theorem flat_agrees_with_peer_map_witness:
  "\<exists>m0 m pm. flat_new zero_peer 2 = Inr m0 \<and>
     res_fold flat_insert [\<lparr>ct_peer_id = unit_peer 0 128, ct_address = V4 1 2\<rparr>, \<lparr>ct_peer_id = unit_peer 0 192, ct_address = V4 3 4\<rparr>] m0 = Inr m \<and>
     res_fold (\<lambda>c. peer_map_insert zero_peer (ct_address c) (ct_peer_id c))
       [\<lparr>ct_peer_id = unit_peer 0 128, ct_address = V4 1 2\<rparr>, \<lparr>ct_peer_id = unit_peer 0 192, ct_address = V4 3 4\<rparr>] (peer_map_default rev) = Inr pm \<and>
     res_map (map_option contact_pair) (flat_contains m zero_peer) = peer_map_contains pm zero_peer zero_peer"
proof -
  let ?cs = "[\<lparr>ct_peer_id = unit_peer 0 128, ct_address = V4 1 2\<rparr>, \<lparr>ct_peer_id = unit_peer 0 192, ct_address = V4 3 4\<rparr>]"
  obtain m0 where m0: "flat_new zero_peer 2 = Inr m0" by (simp add: flat_new_def usize_range_def)
  have "card (of_rank zero_peer (ct_peer_id ` set ?cs) r) \<le> 2" for r
    by (rule order_trans [OF card_mono [of "{unit_peer 0 128, unit_peer 0 192}"]]) (auto intro: card_insert_le_m1)
  then show ?thesis using flat_agrees_with_peer_map [OF enumerates_rev m0, of ?cs] m0 by auto
qed

text \<open>
  The search for the closest contacts of a well-formed table panics exactly when more contacts
  are asked for than the table has slots; otherwise it returns the first \<open>cnt\<close> contacts met along
  \<open>flat_visits\<close>, and neither the wrap-around of the bucket number nor a slice goes wrong.
\<close>

theorem flat_find_closest_eq:
  assumes "fpm_wf m"
  shows "flat_find_closest_peers m needle cnt =
    (if cnt \<le> length (contacts m)
     then Inr (take cnt (flat_at m (flat_visits (unat (distance_rank (fpm_peer_id m) needle)))))
     else Inl (Assertion ''Good luck with that buddy''))"
  using flat_find_closest_visits [OF assms] fpm_wfD(2) [OF assms] by (simp add: flat_find_closest_peers_def)

theorem flat_find_closest_eq_witness:
  "\<exists>m. flat_new zero_peer 1 = Inr m \<and>
     flat_find_closest_peers m zero_peer 257 = Inl (Assertion ''Good luck with that buddy'')"
proof -
  obtain m where m: "flat_new zero_peer 1 = Inr m" "fpm_wf m" "fpm_bucket_size m = 1" by (rule one_contact_table)
  then show ?thesis using flat_find_closest_eq [OF m(2), of zero_peer 257] by (simp add: fpm_wfD)
qed

text \<open>
  C25. What the search returns: at most \<open>cnt\<close> contacts, all of them known. If the table knows at
  least \<open>cnt\<close> contacts, exactly \<open>cnt\<close> of them, none twice; if it knows at most \<open>cnt\<close>, all of them.
\<close>

theorem flat_find_closest_correct:
  assumes "fpm_wf m" and "flat_find_closest_peers m needle cnt = Inr res"
  shows "length res \<le> cnt \<and> (\<forall>c \<in> set res. fpm_view m (ct_peer_id c) = Some (ct_address c)) \<and>
    (cnt \<le> flat_count m \<longrightarrow> length res = cnt \<and> distinct res) \<and>
    (flat_count m \<le> cnt \<longrightarrow> (\<forall>p a. fpm_view m p = Some a \<longrightarrow> \<lparr>ct_peer_id = p, ct_address = a\<rparr> \<in> set res))"
proof -
  let ?first = "flat_at m (first_visits (rank_of (fpm_peer_id m) needle))"
  note res = flat_closest_result [OF assms]
  have mset: "mset ?first = mset (present (contacts m))" by (rule flat_at_first [OF assms(1) rank_of_less])
  have "set res \<subseteq> set (present (contacts m))"
    using res(1) flat_at_known by (auto dest: in_set_takeD)
  moreover have "length res = cnt \<and> distinct res" if "cnt \<le> fpm_count m"
    using that res distinct_present [OF assms(1)] mset_eq_imp_distinct_iff [OF mset] by (simp add: distinct_take)
  moreover have "set (present (contacts m)) \<subseteq> set res" if "fpm_count m \<le> cnt"
    using that res mset_eq_setD [OF mset] by simp
  ultimately show ?thesis
    using mem_contacts_iff [OF assms(1)] mem_contacts_iff [OF assms(1), of "\<lparr>ct_peer_id = _, ct_address = _\<rparr>"] res(1)
    by (auto simp: flat_count_def subset_eq)
qed

text \<open>
  The search lists contacts twice when it is asked for more than the table knows: if a known
  peer is not in the bucket of the one searched for, some contact comes back twice.
\<close>

theorem flat_find_closest_repeats:
  assumes "fpm_wf m" and "flat_find_closest_peers m needle cnt = Inr res" and "flat_count m < cnt"
    and "fpm_view m p = Some a" and "distance_rank (fpm_peer_id m) p \<noteq> distance_rank (fpm_peer_id m) needle"
  shows "\<not> distinct res"
proof -
  let ?t = "rank_of (fpm_peer_id m) needle" and ?i = "rank_of (fpm_peer_id m) p"
  note res = flat_closest_result [OF assms(1,2)]
  have "(p, a) \<in> set (slot_pairs (home m p))"
    using assms(4) map_of_SomeD unfolding fpm_view_def by fast
  then have "present (fpm_bucket m ?i) \<noteq> []" by auto
  moreover have "?i \<in> set (second_visits ?t)"
    by (rule second_visits_others) (use assms(5) in \<open>auto simp: word_unat_eq_iff\<close>)
  ultimately have "flat_at m (second_visits ?t) \<noteq> []" by (auto simp: flat_at_def)
  then have "fpm_count m < length res"
    using res assms(3) by (cases "flat_at m (second_visits ?t)") (auto simp: flat_count_def)
  moreover have "card (set res) \<le> fpm_count m"
    using card_mono [of "set (present (contacts m))" "set res"] flat_at_known res(1) card_length [of "present (contacts m)"]
    by (fastforce simp: fpm_wfD(4) [OF assms(1)] dest: in_set_takeD)
  ultimately show ?thesis using distinct_card [of res] by auto
qed

theorem flat_find_closest_correct_witness:
  "\<exists>m res. fpm_view m = [unit_peer 0 128 \<mapsto> V6 1 1234 0 0] \<and>
     flat_find_closest_peers m (unit_peer 2 1) 1 = Inr res \<and> set res = {new_dummy (unit_peer 0 128)}"
proof -
  obtain m where m: "fpm_wf m" "fpm_bucket_size m = 1" "fpm_peer_id m = zero_peer"
      "fpm_view m = [unit_peer 0 128 \<mapsto> V6 1 1234 0 0]"
    by (rule full_bucket_table)
  obtain res where res: "flat_find_closest_peers m (unit_peer 2 1) 1 = Inr res"
    using flat_find_closest_visits [OF m(1)] m(2) by simp
  have "flat_count m = 1" using fpm_count_card [OF m(1)] m(4) by (simp add: flat_count_def)
  then have "\<forall>c \<in> set res. c = new_dummy (unit_peer 0 128)" "new_dummy (unit_peer 0 128) \<in> set res"
    using flat_find_closest_correct [OF m(1) res] m(4) by (auto simp: new_dummy_def split: if_splits)
  then show ?thesis using m(4) res by blast
qed

theorem flat_find_closest_repeats_witness:
  "\<exists>m res. fpm_view m = [unit_peer 0 128 \<mapsto> V6 1 1234 0 0] \<and>
     flat_find_closest_peers m (unit_peer 2 1) 2 = Inr res \<and> \<not> distinct res"
proof -
  obtain m where m: "fpm_wf m" "fpm_bucket_size m = 1" "fpm_peer_id m = zero_peer"
      "fpm_view m = [unit_peer 0 128 \<mapsto> V6 1 1234 0 0]"
    by (rule full_bucket_table)
  obtain res where res: "flat_find_closest_peers m (unit_peer 2 1) 2 = Inr res"
    using flat_find_closest_visits [OF m(1)] m(2) by simp
  have "flat_count m = 1" using fpm_count_card [OF m(1)] m(4) by (simp add: flat_count_def)
  then have "\<not> distinct res"
    using flat_find_closest_repeats [OF m(1) res, of "unit_peer 0 128" "V6 1 1234 0 0"] m(3,4)
    by (auto simp: word_unat_eq_iff)
  then show ?thesis using m(4) res by blast
qed

text \<open>
  \<open>lookup\<close> never panics on a well-formed table: a known peer is answered with its contact, any
  other with at most \<open>bucket_size\<close> known contacts.
\<close>

theorem flat_lookup_spec:
  assumes "fpm_wf m"
  shows "case fpm_view m p of
      Some a \<Rightarrow> flat_lookup m p = Inr (Inr \<lparr>ct_peer_id = p, ct_address = a\<rparr>)
    | None \<Rightarrow> \<exists>neighbors. flat_lookup m p = Inr (Inl neighbors) \<and> length neighbors \<le> fpm_bucket_size m \<and>
        (\<forall>c \<in> set neighbors. fpm_view m (ct_peer_id c) = Some (ct_address c))"
proof -
  obtain found where found: "flat_contains m p = Inr found" "map_option contact_pair found = map_option (Pair p) (fpm_view m p)"
    using flat_contains_pair [OF assms, of p] by (auto simp: res_map_Inr_iff)
  show ?thesis
  proof (cases "fpm_view m p")
    case None
    have "fpm_bucket_size m \<le> 256 * fpm_bucket_size m" by simp
    from flat_find_closest_visits [OF assms this]
    obtain res where res: "flat_find_closest_peers m p (fpm_bucket_size m) = Inr res" by blast
    have "length res \<le> fpm_bucket_size m" "set res \<subseteq> set (present (contacts m))"
      using flat_closest_result(1) [OF assms res] flat_at_known by (auto dest: in_set_takeD)
    then show ?thesis
      using found None res mem_contacts_iff [OF assms] by (auto simp: flat_lookup_def)
  next
    case (Some a)
    then show ?thesis using found by (auto simp: flat_lookup_def)
  qed
qed

theorem flat_lookup_spec_witness:
  "\<exists>m. flat_lookup m (unit_peer 0 128) = Inr (Inr (new_dummy (unit_peer 0 128)))"
proof -
  obtain m where m: "fpm_wf m" "fpm_view m = [unit_peer 0 128 \<mapsto> V6 1 1234 0 0]" by (rule full_bucket_table)
  show ?thesis using flat_lookup_spec [OF m(1), of "unit_peer 0 128"] m(2) by (auto simp: new_dummy_def)
qed

end
