(* ===== verification/Proto.thy ===== *)
theory Proto
  imports Types
begin

text \<open>
  The types of \<open>src/src/proto.rs\<close>, a sketch of requests and responses that no other code uses yet. Its
  enumerations \<open>Message\<close> and \<open>FindValueRequest\<close> have no variant, so no value of them exists.
\<close>

datatype ping_request = PingRequest_Ping peer_id

datatype ping_response = PingResponse_Pong peer_id

datatype find_peer_request = FindPeerRequest_FindPeer peer_id

datatype find_peer_response =
    PeerFound peer_id socket_addr
  | PeerNotFound peer_id "contact list"

datatype find_value_response =
    ValueFound
  | ValueNotFound "contact list"

datatype value_announce = ValueAnnounce_Value

end
