(* ===== verification/Std_Mpsc.thy ===== *)
theory Std_Mpsc
  imports WD_Prelude
begin

text \<open>
  What the program uses of \<open>std::sync::mpsc\<close>: an unbounded channel with any number of senders
  and one receiver. \<open>send\<close> fails once the receiver is gone, \<open>recv\<close> blocks on an empty channel
  while there is a sender and fails when there is none, \<open>try_recv\<close> never blocks.
\<close>

record 'a chan =
  ch_queue :: "'a list"
  ch_senders :: nat
  ch_receiver :: bool

datatype 'a send_error = SendError 'a

datatype try_recv_error = Empty | Disconnected

text \<open>\<open>mpsc::channel()\<close> returns one sender and the receiver.\<close>

definition chan_new :: "'a chan" where
  "chan_new = \<lparr>ch_queue = [], ch_senders = 1, ch_receiver = True\<rparr>"

definition chan_send :: "'a \<Rightarrow> 'a chan \<Rightarrow> 'a send_error + 'a chan" where
  "chan_send x ch =
     (if ch_receiver ch then Inr (ch\<lparr>ch_queue := ch_queue ch @ [x]\<rparr>) else Inl (SendError x))"

definition chan_try_recv :: "'a chan \<Rightarrow> (try_recv_error + 'a) \<times> 'a chan" where
  "chan_try_recv ch =
     (case ch_queue ch of
        x # xs \<Rightarrow> (Inr x, ch\<lparr>ch_queue := xs\<rparr>)
      | [] \<Rightarrow> (Inl (if ch_senders ch = 0 then Disconnected else Empty), ch))"

text \<open>\<open>None\<close> where \<open>recv\<close> blocks; the inner \<open>None\<close> is \<open>Err(RecvError)\<close>.\<close>

definition chan_recv :: "'a chan \<Rightarrow> ('a option \<times> 'a chan) option" where
  "chan_recv ch =
     (case chan_try_recv ch of
        (Inr x, ch') \<Rightarrow> Some (Some x, ch')
      | (Inl Disconnected, ch') \<Rightarrow> Some (None, ch')
      | (Inl Empty, _) \<Rightarrow> None)"

definition clone_sender :: "'a chan \<Rightarrow> 'a chan" where
  "clone_sender ch = ch\<lparr>ch_senders := ch_senders ch + 1\<rparr>"

definition drop_sender :: "'a chan \<Rightarrow> 'a chan" where
  "drop_sender ch = ch\<lparr>ch_senders := ch_senders ch - 1\<rparr>"

text \<open>Dropping the receiver drops the messages it has not taken.\<close>

definition drop_receiver :: "'a chan \<Rightarrow> 'a chan" where
  "drop_receiver ch = ch\<lparr>ch_queue := [], ch_receiver := False\<rparr>"

lemmas chan_defs = chan_new_def chan_send_def chan_try_recv_def chan_recv_def clone_sender_def
  drop_sender_def drop_receiver_def

lemma chan_send_Inr [simp]:
  "ch_receiver ch \<Longrightarrow> chan_send x ch = Inr (ch\<lparr>ch_queue := ch_queue ch @ [x]\<rparr>)"
  by (simp add: chan_send_def)

lemma chan_recv_Cons [simp]:
  "ch_queue ch = x # xs \<Longrightarrow> chan_recv ch = Some (Some x, ch\<lparr>ch_queue := xs\<rparr>)"
  by (simp add: chan_recv_def chan_try_recv_def)

lemma chan_recv_Nil:
  "ch_queue ch = [] \<Longrightarrow> chan_recv ch = (if ch_senders ch = 0 then Some (None, ch) else None)"
  by (simp add: chan_recv_def chan_try_recv_def)

lemma chan_try_recv_Inr:
  "chan_try_recv ch = (Inr x, ch') \<longleftrightarrow> (\<exists>xs. ch_queue ch = x # xs \<and> ch' = ch\<lparr>ch_queue := xs\<rparr>)"
  by (auto simp: chan_try_recv_def split: list.splits)

lemma chan_try_recv_Inl: "chan_try_recv ch = (Inl e, ch') \<Longrightarrow> ch_queue ch = [] \<and> ch' = ch"
  by (auto simp: chan_try_recv_def split: list.splits)

subsection \<open>The contract of a first-in first-out queue\<close>

text \<open>Sending a list, and taking \<open>n\<close> items.\<close>

fun take_items :: "('q \<Rightarrow> ('x \<times> 'q) option) \<Rightarrow> nat \<Rightarrow> 'q \<Rightarrow> 'x list \<times> 'q" where
  "take_items recv 0 q = ([], q)"
| "take_items recv (Suc n) q =
     (case recv q of None \<Rightarrow> ([], q)
      | Some (x, q') \<Rightarrow> (let (xs, q'') = take_items recv n q' in (x # xs, q'')))"

locale fifo =
  fixes contents :: "'q \<Rightarrow> 'x list" and open_end :: "'q \<Rightarrow> bool"
    and send :: "'x \<Rightarrow> 'q \<Rightarrow> 'e + 'q" and recv :: "'q \<Rightarrow> ('x \<times> 'q) option"
  assumes send_open: "open_end q \<Longrightarrow> \<exists>q'. send x q = Inr q' \<and> contents q' = contents q @ [x] \<and> open_end q'"
    and recv_empty: "recv q = None \<longleftrightarrow> contents q = []"
    and recv_first: "recv q = Some (x, q') \<Longrightarrow> contents q = x # contents q' \<and> (open_end q' \<longleftrightarrow> open_end q)"
begin

lemma sends_contents:
  "open_end q \<Longrightarrow> \<exists>q'. res_fold send xs q = Inr q' \<and> contents q' = contents q @ xs \<and> open_end q'"
proof (induction xs arbitrary: q)
  case (Cons x xs)
  from send_open [OF Cons.prems, of x] obtain q1
    where "send x q = Inr q1" "contents q1 = contents q @ [x]" "open_end q1" by blast
  with Cons.IH [of q1] show ?case by auto
qed simp

lemma take_items_contents:
  "fst (take_items recv n q) = take n (contents q) \<and> contents (snd (take_items recv n q)) = drop n (contents q)"
proof (induction n arbitrary: q)
  case (Suc n)
  show ?case
  proof (cases "recv q")
    case None
    then show ?thesis using recv_empty [of q] by simp
  next
    case (Some r)
    obtain x q' where "r = (x, q')" by fastforce
    with Some Suc [of q'] recv_first [of q x q'] show ?thesis by (auto split: prod.splits)
  qed
qed simp

lemma fifo_order:
  assumes "open_end q" and "contents q = []" and "res_fold send xs q = Inr q'"
  shows "fst (take_items recv (length xs) q') = xs"
  using sends_contents [OF assms(1), of xs] assms(2,3) take_items_contents by auto

end

definition chan_take :: "'a chan \<Rightarrow> ('a \<times> 'a chan) option" where
  "chan_take ch = (case chan_try_recv ch of (Inr x, ch') \<Rightarrow> Some (x, ch') | (Inl _, _) \<Rightarrow> None)"

interpretation mpsc: fifo ch_queue ch_receiver chan_send chan_take
  by unfold_locales (auto simp: chan_take_def chan_try_recv_def split: list.splits)

end
