(* ===== verification/Worker.thy ===== *)
theory Worker
  imports PeerMap Std_Mpsc
begin

text \<open>
  The model of \<open>src/src/worker.rs\<close>: the thread that owns a routing table, answers the messages
  of the protocol and learns peers, and the handle other threads hold on it. The two channels
  are shared between the thread and its handle; a \<open>worker\<close> holds them with the thread's state,
  and every operation of the thread and of the handle is a function on it. Logging has no effect
  on the state and is left out.
\<close>

subsection \<open>The data\<close>

datatype worker_message =
    Quit
  | Incoming socket_addr message

datatype thread_status = Running | Finished | Panicked panic

text \<open>
  \<open>control\<close>: \<open>control_sender\<close> of the handle and \<open>control_receiver\<close> of the state;
  \<open>outbox\<close>: \<open>message_sender\<close> of the state and \<open>message_receiver\<close> of the handle.
\<close>

record worker =
  control :: "worker_message chan"
  outbox :: "(socket_addr \<times> message) chan"
  w_peer_id :: peer_id
  w_peer_map :: peer_map
  w_status :: thread_status

subsection \<open>The thread\<close>

text \<open>\<open>WorkerState::start\<close>; \<open>order\<close> is the iteration order of the table's hash maps.\<close>

definition worker_start :: "(peer_id list \<Rightarrow> peer_id list) \<Rightarrow> peer_id \<Rightarrow> socket_addr \<Rightarrow> worker outcome" where
  "worker_start order p addr =
     res_map (\<lambda>pm. \<lparr>control = chan_new, outbox = chan_new, w_peer_id = p, w_peer_map = pm, w_status = Running\<rparr>)
       (peer_map_insert p addr p (peer_map_default order))"

definition worker_send :: "socket_addr \<Rightarrow> message \<Rightarrow> worker \<Rightarrow> worker outcome" where
  "worker_send dest msg w =
     res_map (\<lambda>ch. w\<lparr>outbox := ch\<rparr>) (expect ''FIXME'' (chan_send (dest, msg) (outbox w)))"

text \<open>The inner \<open>match\<close> of \<open>run\<close>: one arm per message.\<close>

fun handle_message :: "socket_addr \<Rightarrow> message \<Rightarrow> worker \<Rightarrow> worker outcome" where
  "handle_message addr (Ping other_id) w =
     res_bind (worker_send addr (Pong (w_peer_id w)) w) (\<lambda>w.
     res_bind (peer_map_contains (w_peer_map w) (w_peer_id w) other_id) (\<lambda>found.
     if found = None then worker_send addr (Ping (w_peer_id w)) w else Inr w))"
| "handle_message addr (Pong other_id) w =
     res_map (\<lambda>pm. w\<lparr>w_peer_map := pm\<rparr>) (peer_map_insert (w_peer_id w) addr other_id (w_peer_map w))"
| "handle_message addr (FindPeer desired_id) w =
     res_bind (peer_map_lookup (w_peer_map w) (w_peer_id w) desired_id) (\<lambda>found.
     let reply = (case found of
         Inr (p, socket_addr) \<Rightarrow> FindPeerResponsePeerFound p socket_addr
       | Inl neighbors \<Rightarrow> FindPeerResponsePeerNotFound desired_id neighbors)
     in worker_send addr reply w)"
| "handle_message addr _ w = Inr w"

text \<open>
  The thread ends: its \<open>WorkerState\<close> is dropped, and with it the receiver of the control channel
  and the sender of the outbox.
\<close>

definition worker_exit :: "thread_status \<Rightarrow> worker \<Rightarrow> worker" where
  "worker_exit st w =
     w\<lparr>w_status := st, control := drop_receiver (control w), outbox := drop_sender (outbox w)\<rparr>"

text \<open>One turn of the \<open>loop\<close> of \<open>run\<close>; \<open>None\<close> while the thread waits or when it has ended.\<close>

definition worker_step :: "worker \<Rightarrow> worker option" where
  "worker_step w =
     (if w_status w \<noteq> Running then None
      else case chan_recv (control w) of
        None \<Rightarrow> None
      | Some (Some Quit, ch) \<Rightarrow> Some (worker_exit Finished (w\<lparr>control := ch\<rparr>))
      | Some (Some (Incoming addr msg), ch) \<Rightarrow>
          (case handle_message addr msg (w\<lparr>control := ch\<rparr>) of
             Inr w' \<Rightarrow> Some w'
           | Inl p \<Rightarrow> Some (worker_exit (Panicked p) (w\<lparr>control := ch\<rparr>)))
      | Some (None, ch) \<Rightarrow> Some (worker_exit Finished (w\<lparr>control := ch\<rparr>)))"

lemma worker_send_eq:
  "worker_send dest msg w =
     (if ch_receiver (outbox w) then Inr (w\<lparr>outbox := (outbox w)\<lparr>ch_queue := ch_queue (outbox w) @ [(dest, msg)]\<rparr>\<rparr>)
      else Inl (Expectation ''FIXME''))"
  by (simp add: worker_send_def chan_send_def)

lemma handle_message_frame:
  "handle_message addr msg w = Inr w' \<Longrightarrow>
     control w' = control w \<and> w_peer_id w' = w_peer_id w \<and> w_status w' = w_status w \<and>
     ch_senders (outbox w') = ch_senders (outbox w) \<and> ch_receiver (outbox w') = ch_receiver (outbox w)"
  by (cases msg)
    (auto simp: worker_send_eq res_bind_Inr_iff res_map_Inr_iff Let_def split: if_splits)

text \<open>Turns until the thread waits or ends: every turn takes a message or ends the thread.\<close>

definition pending_turns :: "worker \<Rightarrow> nat" where
  "pending_turns w = (if w_status w = Running then Suc (length (ch_queue (control w))) else 0)"

lemma worker_step_pending: "worker_step w = Some w' \<Longrightarrow> pending_turns w' < pending_turns w"
  by (auto simp: worker_step_def pending_turns_def worker_exit_def chan_recv_def chan_try_recv_def drop_receiver_def
      dest!: handle_message_frame split: if_splits list.splits worker_message.splits sum.splits option.splits)

function worker_run :: "worker \<Rightarrow> worker" where
  "worker_run w = (case worker_step w of None \<Rightarrow> w | Some w' \<Rightarrow> worker_run w')"
  by pat_completeness auto
termination
  by (relation "measure pending_turns") (auto simp: worker_step_pending)

declare worker_run.simps [simp del]

subsection \<open>The handle\<close>

text \<open>\<open>WorkerHandle::recv_message\<close>.\<close>

definition recv_message :: "worker \<Rightarrow> (try_recv_error + socket_addr \<times> message) \<times> worker" where
  "recv_message w = (let (r, ch) = chan_try_recv (outbox w) in (r, w\<lparr>outbox := ch\<rparr>))"

text \<open>
  A turn of the thread is one step of the model, although a \<open>Ping\<close> is answered by two messages and
  the handle may take the first before the second is sent. It might as well take it afterwards.
\<close>

lemma recv_send_commute:
  "recv_message w = (Inr x, w1) \<Longrightarrow> worker_send d m w = Inr w2 \<Longrightarrow>
     \<exists>w3. recv_message w2 = (Inr x, w3) \<and> worker_send d m w1 = Inr w3"
  by (auto simp: recv_message_def worker_send_eq chan_try_recv_def split: list.splits if_splits)

text \<open>
  \<open>WorkerHandle::controller\<close> clones the sender into a \<open>WorkerMessageHandle\<close>; dropping that handle
  drops the clone.
\<close>

definition controller :: "worker \<Rightarrow> worker" where
  "controller w = w\<lparr>control := clone_sender (control w)\<rparr>"

definition drop_controller :: "worker \<Rightarrow> worker" where
  "drop_controller w = w\<lparr>control := drop_sender (control w)\<rparr>"

text \<open>\<open>WorkerMessageHandle::message\<close>.\<close>

definition controller_message :: "socket_addr \<Rightarrow> message \<Rightarrow> worker \<Rightarrow> worker_message send_error + worker" where
  "controller_message source msg w =
     res_map (\<lambda>ch. w\<lparr>control := ch\<rparr>) (chan_send (Incoming source msg) (control w))"

text \<open>Dropping the whole handle: its control sender and its message receiver go.\<close>

definition drop_handle :: "worker \<Rightarrow> worker" where
  "drop_handle w = w\<lparr>control := drop_sender (control w), outbox := drop_receiver (outbox w)\<rparr>"

text \<open>
  \<open>WorkerHandle::quit\<close>: the thread runs to its end while \<open>join\<close> waits for it, and the handle is
  dropped. A panicked thread makes \<open>join\<close> return an error, which \<open>expect\<close> turns into a panic.
\<close>

definition quit :: "worker \<Rightarrow> (worker_message send_error + worker) outcome" where
  "quit w =
     (case chan_send Quit (control w) of
        Inl e \<Rightarrow> Inr (Inl e)
      | Inr ch \<Rightarrow>
          (let w' = worker_run (w\<lparr>control := ch\<rparr>) in
           case w_status w' of
             Panicked _ \<Rightarrow> Inl (Expectation ''TODO'')
           | _ \<Rightarrow> Inr (Inr (drop_handle w'))))"

definition handle_peer_id :: "worker \<Rightarrow> peer_id" where
  "handle_peer_id w = w_peer_id w"

subsection \<open>The contract of a node of the network\<close>

text \<open>
  What handling one message means for a node that knows the peers \<open>v\<close>: which peers it knows
  afterwards, and what it sends back to the message's source.
\<close>

type_synonym knowledge = "peer_id \<rightharpoonup> socket_addr"

fun learns :: "socket_addr \<times> message \<Rightarrow> knowledge \<Rightarrow> knowledge" where
  "learns (addr, Pong p) v = v(p \<mapsto> addr)"
| "learns _ v = v"

fun answers :: "peer_id \<Rightarrow> nat \<Rightarrow> knowledge \<Rightarrow> message \<Rightarrow> message list \<Rightarrow> bool" where
  "answers self_id limit v (Ping p) rs \<longleftrightarrow> rs = Pong self_id # (if v p = None then [Ping self_id] else [])"
| "answers self_id limit v (FindPeer d) rs \<longleftrightarrow>
     (case v d of
        Some a \<Rightarrow> rs = [FindPeerResponsePeerFound d a]
      | None \<Rightarrow> \<exists>nb. rs = [FindPeerResponsePeerNotFound d nb] \<and> length nb \<le> limit \<and> (\<forall>(q, b) \<in> set nb. v q = Some b))"
| "answers self_id limit v _ rs \<longleftrightarrow> rs = []"

lemma answers_length: "answers self_id limit v msg rs \<Longrightarrow> length rs \<le> 2"
  by (cases msg) (auto split: option.splits)

text \<open>A node learns a peer only from a \<open>Pong\<close> that names it, at the address it came from.\<close>

lemma learns_origin: "learns am v p = Some a \<Longrightarrow> v p = Some a \<or> am = (a, Pong p)"
  by (cases "(am, v)" rule: learns.cases) (auto split: if_splits)

lemma fold_learns_origin: "fold learns ams v p = Some a \<Longrightarrow> v p = Some a \<or> (a, Pong p) \<in> set ams"
  by (induction ams arbitrary: v) (auto dest: learns_origin)

lemma learns_keeps: "v p \<noteq> None \<Longrightarrow> learns am v p \<noteq> None"
  by (cases "(am, v)" rule: learns.cases) auto

locale protocol_node =
  fixes invar :: "'w \<Rightarrow> bool" and self :: "'w \<Rightarrow> peer_id" and view :: "'w \<Rightarrow> knowledge"
    and sent :: "'w \<Rightarrow> (socket_addr \<times> message) list" and limit :: nat
    and handle :: "socket_addr \<times> message \<Rightarrow> 'w \<Rightarrow> 'w outcome"
  assumes handle_spec: "invar w \<Longrightarrow>
    \<exists>w' rs. handle (a, msg) w = Inr w' \<and> invar w' \<and> self w' = self w \<and> view w' = learns (a, msg) (view w) \<and>
      sent w' = sent w @ map (Pair a) rs \<and> answers (self w) limit (view w) msg rs"
begin

lemma handles_spec:
  "invar w \<Longrightarrow> \<exists>w' out. res_fold handle ams w = Inr w' \<and> invar w' \<and> self w' = self w \<and>
     view w' = fold learns ams (view w) \<and> sent w' = sent w @ out \<and> length out \<le> 2 * length ams \<and>
     fst ` set out \<subseteq> fst ` set ams"
proof (induction ams arbitrary: w)
  case (Cons am ams)
  obtain a msg where am: "am = (a, msg)" by fastforce
  from handle_spec [OF Cons.prems, of a msg] obtain w1 rs where
    w1: "handle am w = Inr w1" "invar w1" "self w1 = self w" "view w1 = learns am (view w)"
      "sent w1 = sent w @ map (Pair a) rs" "answers (self w) limit (view w) msg rs"
    unfolding am by blast
  from Cons.IH [OF w1(2)] obtain w' out where
    "res_fold handle ams w1 = Inr w'" "invar w'" "self w' = self w1" "view w' = fold learns ams (view w1)"
    "sent w' = sent w1 @ out" "length out \<le> 2 * length ams" "fst ` set out \<subseteq> fst ` set ams" by blast
  then show ?case
    using w1 answers_length [OF w1(6)]
    by (intro exI [of _ w'] exI [of _ "map (Pair a) rs @ out"]) (auto simp: am)
qed simp

end

subsection \<open>The worker is such a node\<close>

definition worker_view :: "worker \<Rightarrow> knowledge" where
  "worker_view w = pm_view (w_peer_id w) (w_peer_map w)"

abbreviation worker_sent :: "worker \<Rightarrow> (socket_addr \<times> message) list" where
  "worker_sent w \<equiv> ch_queue (outbox w)"

text \<open>
  The invariant of a worker: a well-formed table that knows the worker itself, and somebody who
  can receive what it sends.
\<close>

definition worker_ok :: "worker \<Rightarrow> bool" where
  "worker_ok w \<longleftrightarrow> pm_wf (w_peer_id w) (w_peer_map w) \<and> bucket_size (w_peer_map w) = 16 \<and>
     worker_view w (w_peer_id w) \<noteq> None \<and> ch_receiver (outbox w)"

abbreviation handle_incoming :: "socket_addr \<times> message \<Rightarrow> worker \<Rightarrow> worker outcome" where
  "handle_incoming \<equiv> \<lambda>(addr, msg). handle_message addr msg"

lemma worker_view_update [simp]:
  "worker_view (w\<lparr>outbox := ch\<rparr>) = worker_view w" "worker_view (w\<lparr>control := cc\<rparr>) = worker_view w"
  "worker_view (w\<lparr>w_status := st\<rparr>) = worker_view w"
  by (simp_all add: worker_view_def)

lemma worker_ok_update [simp]:
  "worker_ok (w\<lparr>control := cc\<rparr>) = worker_ok w"
  "worker_ok (w\<lparr>outbox := (outbox w)\<lparr>ch_queue := q\<rparr>\<rparr>) = worker_ok w"
  by (simp_all add: worker_ok_def)

lemma handle_message_spec:
  assumes "worker_ok w"
  shows "\<exists>w' rs. handle_message a msg w = Inr w' \<and> worker_ok w' \<and> w_peer_id w' = w_peer_id w \<and>
    worker_view w' = learns (a, msg) (worker_view w) \<and> worker_sent w' = worker_sent w @ map (Pair a) rs \<and>
    answers (w_peer_id w) 16 (worker_view w) msg rs"
proof -
  have wf: "pm_wf (w_peer_id w) (w_peer_map w)" and open_box: "ch_receiver (outbox w)"
    using assms by (simp_all add: worker_ok_def)
  show ?thesis
  proof (cases msg)
    case (Ping p)
    then show ?thesis
      using assms open_box peer_map_contains_eq [OF wf, of p]
      by (simp add: worker_send_eq worker_ok_def) (auto simp: worker_view_def)
  next
    case (Pong p)
    obtain pm where pm: "peer_map_insert (w_peer_id w) a p (w_peer_map w) = Inr pm"
      using peer_map_insert_eq [OF wf] by blast
    show ?thesis
      using assms pm peer_map_insert_wf [OF wf pm] peer_map_insert_view [OF wf pm] peer_map_insert_size [OF wf pm]
      by (simp add: Pong worker_ok_def worker_view_def)
  next
    case (FindPeer d)
    show ?thesis
    proof (cases "worker_view w d")
      case None
      with assms peer_map_lookup_unknown [OF wf, of d] obtain nb where
        "peer_map_lookup (w_peer_map w) (w_peer_id w) d = Inr (Inl nb)" "length nb \<le> 16"
        "\<forall>(q, b) \<in> set nb. worker_view w q = Some b"
        by (auto simp: worker_view_def worker_ok_def)
      then show ?thesis
        using assms open_box None
        by (intro exI [of _ "w\<lparr>outbox := (outbox w)\<lparr>ch_queue := worker_sent w @ [(a, FindPeerResponsePeerNotFound d nb)]\<rparr>\<rparr>"]
            exI [of _ "[FindPeerResponsePeerNotFound d nb]"])
          (auto simp: FindPeer worker_send_eq)
    next
      case (Some b)
      then show ?thesis
        using assms open_box peer_map_lookup_known [OF wf, of d b] by (simp add: FindPeer worker_send_eq worker_view_def)
    qed
  qed (use assms in auto)
qed

interpretation node: protocol_node worker_ok w_peer_id worker_view worker_sent 16 handle_incoming
  by (unfold_locales, unfold prod.case) (rule handle_message_spec)

subsection \<open>Runs of the thread\<close>

lemma handle_message_control:
  "handle_message a msg (w\<lparr>control := cc\<rparr>) = res_map (\<lambda>w'. w'\<lparr>control := cc\<rparr>) (handle_message a msg w)"
proof (cases msg)
  case (Ping p)
  then show ?thesis by (cases "peer_map_contains (w_peer_map w) (w_peer_id w) p") (auto simp: worker_send_eq)
next
  case (Pong p)
  then show ?thesis by (cases "peer_map_insert (w_peer_id w) a p (w_peer_map w)") auto
next
  case (FindPeer p)
  then show ?thesis by (cases "peer_map_lookup (w_peer_map w) (w_peer_id w) p") (auto simp: worker_send_eq Let_def)
qed auto

lemma res_fold_control:
  "res_fold handle_incoming ams (w\<lparr>control := cc\<rparr>) = res_map (\<lambda>w'. w'\<lparr>control := cc\<rparr>) (res_fold handle_incoming ams w)"
proof (induction ams arbitrary: w)
  case (Cons am ams)
  obtain a msg where "am = (a, msg)" by fastforce
  with Cons show ?case by (cases "handle_message a msg w") (simp_all add: handle_message_control)
qed simp

abbreviation incoming_all :: "(socket_addr \<times> message) list \<Rightarrow> worker_message list" where
  "incoming_all \<equiv> map (\<lambda>(addr, msg). Incoming addr msg)"

text \<open>The messages that stand before the rest of the queue are handled in their order.\<close>

lemma worker_run_handles:
  "w_status w = Running \<Longrightarrow> ch_queue (control w) = incoming_all ams @ rest \<Longrightarrow>
   res_fold handle_incoming ams w = Inr w' \<Longrightarrow>
   worker_run w = worker_run (w'\<lparr>control := (control w)\<lparr>ch_queue := rest\<rparr>\<rparr>)"
proof (induction ams arbitrary: w w')
  case (Cons am ams)
  obtain a msg where am: "am = (a, msg)" by fastforce
  let ?q = "incoming_all ams @ rest"
  from Cons.prems(3) obtain w1 where w1: "handle_message a msg w = Inr w1" "res_fold handle_incoming ams w1 = Inr w'"
    by (auto simp: am res_bind_Inr_iff)
  note frame = handle_message_frame [OF w1(1)]
  have "worker_step w = Some (w1\<lparr>control := (control w)\<lparr>ch_queue := ?q\<rparr>\<rparr>)"
    using Cons.prems(1,2) w1(1) by (simp add: worker_step_def am handle_message_control)
  then have "worker_run w = worker_run (w1\<lparr>control := (control w)\<lparr>ch_queue := ?q\<rparr>\<rparr>)"
    by (subst worker_run.simps) simp
  also have "\<dots> = worker_run (w'\<lparr>control := (control w)\<lparr>ch_queue := rest\<rparr>\<rparr>)"
    using Cons.IH [of "w1\<lparr>control := (control w)\<lparr>ch_queue := ?q\<rparr>\<rparr>" "w'\<lparr>control := (control w)\<lparr>ch_queue := ?q\<rparr>\<rparr>"]
      frame Cons.prems(1) w1(2) by (simp add: res_fold_control)
  finally show ?case .
next
  case Nil
  then have "w' = w" and "rest = ch_queue (control w)" by simp_all
  then show ?case by (simp only:) simp
qed

lemma res_fold_frame:
  "res_fold handle_incoming ams w = Inr w' \<Longrightarrow>
     control w' = control w \<and> w_status w' = w_status w \<and> ch_senders (outbox w') = ch_senders (outbox w)"
proof (induction ams arbitrary: w)
  case (Cons am ams)
  then show ?case by (cases am) (auto simp: res_bind_Inr_iff dest!: handle_message_frame)
qed simp

lemma worker_run_blocked:
  "w_status w = Running \<Longrightarrow> ch_queue (control w) = [] \<Longrightarrow> 0 < ch_senders (control w) \<Longrightarrow> worker_run w = w"
  by (subst worker_run.simps) (simp add: worker_step_def chan_recv_Nil)

lemma worker_run_ended: "w_status w \<noteq> Running \<Longrightarrow> worker_run w = w"
  by (subst worker_run.simps) (simp add: worker_step_def)

lemma worker_run_quit:
  "w_status w = Running \<Longrightarrow> ch_queue (control w) = Quit # rest \<Longrightarrow>
     worker_run w = worker_exit Finished (w\<lparr>control := (control w)\<lparr>ch_queue := rest\<rparr>\<rparr>)"
  by (subst worker_run.simps) (simp add: worker_step_def worker_run_ended worker_exit_def)

lemma worker_view_exit [simp]:
  "worker_view (worker_exit st w) = worker_view w" "worker_view (drop_handle w) = worker_view w"
  by (simp_all add: worker_exit_def drop_handle_def)

lemma worker_run_incoming:
  assumes "worker_ok w" and "w_status w = Running" and "0 < ch_senders (control w)"
    and "ch_queue (control w) = incoming_all ams"
  shows "\<exists>out. w_status (worker_run w) = Running \<and> worker_ok (worker_run w) \<and> ch_queue (control (worker_run w)) = [] \<and>
    worker_view (worker_run w) = fold learns ams (worker_view w) \<and> worker_sent (worker_run w) = worker_sent w @ out \<and>
    length out \<le> 2 * length ams \<and> fst ` set out \<subseteq> fst ` set ams"
proof -
  obtain w' out where w': "res_fold handle_incoming ams w = Inr w'" "worker_ok w'"
      "worker_view w' = fold learns ams (worker_view w)" "worker_sent w' = worker_sent w @ out"
      "length out \<le> 2 * length ams" "fst ` set out \<subseteq> fst ` set ams"
    using node.handles_spec [OF assms(1), of ams] by blast
  have "worker_run w = w'\<lparr>control := (control w)\<lparr>ch_queue := []\<rparr>\<rparr>"
    using worker_run_handles [of w ams "[]"] worker_run_blocked assms(2-4) w'(1) res_fold_frame [OF w'(1)] by simp
  then show ?thesis using w' assms(2) res_fold_frame [OF w'(1)] by simp
qed

lemma worker_start_spec:
  assumes "enumerates order"
  shows "\<exists>w. worker_start order p addr = Inr w \<and> worker_ok w \<and> w_status w = Running \<and> w_peer_id w = p \<and>
    worker_view w = [p \<mapsto> addr] \<and> control w = chan_new \<and> outbox w = chan_new"
proof -
  note wf = pm_wf_default [OF assms, of p]
  obtain pm where pm: "peer_map_insert p addr p (peer_map_default order) = Inr pm"
    using peer_map_insert_eq [OF wf] by blast
  have "bucket_size pm = 16" using peer_map_insert_size [OF wf pm] by (simp add: peer_map_default_def Let_def)
  then show ?thesis
    using pm peer_map_insert_wf [OF wf pm] peer_map_insert_view [OF wf pm]
    by (simp add: worker_start_def worker_ok_def worker_view_def chan_new_def)
qed

text \<open>
  A thread whose handle is gone: it handles what is queued until it has to send, which panics, and
  ends without a panic if it never has to.
\<close>

fun wants_reply :: "message \<Rightarrow> bool" where
  "wants_reply (Ping _) \<longleftrightarrow> True"
| "wants_reply (FindPeer _) \<longleftrightarrow> True"
| "wants_reply _ \<longleftrightarrow> False"

lemma handle_message_closed:
  assumes wf: "pm_wf (w_peer_id w) (w_peer_map w)" and "\<not> ch_receiver (outbox w)"
  shows "if wants_reply msg then handle_message a msg w = Inl (Expectation ''FIXME'')
    else \<exists>w'. handle_message a msg w = Inr w' \<and> pm_wf (w_peer_id w') (w_peer_map w')"
proof (cases msg)
  case (FindPeer d)
  have "\<exists>found. peer_map_lookup (w_peer_map w) (w_peer_id w) d = Inr found"
    using peer_map_lookup_known [OF wf] peer_map_lookup_unknown [OF wf]
    by (cases "pm_view (w_peer_id w) (w_peer_map w) d") blast+
  then show ?thesis using assms(2) by (auto simp: FindPeer worker_send_eq)
next
  case (Pong p)
  then show ?thesis using peer_map_insert_eq [OF wf, of a p] peer_map_insert_wf [OF wf, of a p] by auto
qed (use assms in \<open>simp_all add: worker_send_eq\<close>)

lemma worker_run_closed:
  "pm_wf (w_peer_id w) (w_peer_map w) \<Longrightarrow> w_status w = Running \<Longrightarrow> \<not> ch_receiver (outbox w) \<Longrightarrow>
   ch_senders (control w) = 0 \<Longrightarrow> ch_queue (control w) = incoming_all ams \<Longrightarrow>
   w_status (worker_run w) = (if \<exists>am \<in> set ams. wants_reply (snd am) then Panicked (Expectation ''FIXME'') else Finished)"
proof (induction ams arbitrary: w)
  case Nil
  then show ?case
    by (subst worker_run.simps) (simp add: worker_step_def chan_recv_Nil worker_run_ended worker_exit_def)
next
  case (Cons am ams)
  obtain a msg where am: "am = (a, msg)" by fastforce
  let ?w = "w\<lparr>control := (control w)\<lparr>ch_queue := incoming_all ams\<rparr>\<rparr>"
  have closed: "if wants_reply msg then handle_message a msg ?w = Inl (Expectation ''FIXME'')
      else \<exists>w'. handle_message a msg ?w = Inr w' \<and> pm_wf (w_peer_id w') (w_peer_map w')"
    using handle_message_closed [of ?w msg a] Cons.prems by simp
  show ?case
  proof (cases "wants_reply msg")
    case True
    then show ?thesis using closed Cons.prems
      by (subst worker_run.simps) (simp add: worker_step_def am worker_run_ended worker_exit_def)
  next
    case False
    with closed obtain w' where w': "handle_message a msg ?w = Inr w'" "pm_wf (w_peer_id w') (w_peer_map w')" by auto
    have "worker_run w = worker_run w'"
      using Cons.prems w' by (subst worker_run.simps) (simp add: worker_step_def am)
    then show ?thesis
      using Cons.IH [OF w'(2)] handle_message_frame [OF w'(1)] Cons.prems False by (simp add: am)
  qed
qed

lemma quit_spec:
  assumes "worker_ok w" and "w_status w = Running" and "ch_receiver (control w)"
    and "ch_queue (control w) = incoming_all ams"
  shows "\<exists>w'. quit w = Inr (Inr w') \<and> w_status w' = Finished \<and> worker_view w' = fold learns ams (worker_view w)"
proof -
  let ?w = "w\<lparr>control := (control w)\<lparr>ch_queue := incoming_all ams @ [Quit]\<rparr>\<rparr>"
  obtain w1 where w1: "res_fold handle_incoming ams ?w = Inr w1" "worker_ok w1"
      "worker_view w1 = fold learns ams (worker_view w)"
    using node.handles_spec [of ?w ams] assms(1) by auto
  have "worker_run ?w = worker_run (w1\<lparr>control := (control ?w)\<lparr>ch_queue := [Quit]\<rparr>\<rparr>)"
    using worker_run_handles [of ?w ams "[Quit]" w1] assms(2) w1(1) by simp
  also have "\<dots> = worker_exit Finished (w1\<lparr>control := (control ?w)\<lparr>ch_queue := []\<rparr>\<rparr>)"
    using res_fold_frame [OF w1(1)] assms(2) by (subst worker_run_quit) simp_all
  finally show ?thesis
    using w1(3) assms(3,4) by (simp add: quit_def Let_def worker_exit_def drop_handle_def)
qed

lemma worker_exit_unreachable:
  "controller_message a msg (worker_exit st w) = Inl (SendError (Incoming a msg))"
  "quit (worker_exit st w) = Inr (Inl (SendError Quit))"
  by (simp_all add: controller_message_def quit_def worker_exit_def drop_receiver_def chan_send_def)

subsection \<open>Properties\<close>

text \<open>
  Starting a worker does not panic, whatever the iteration order of its hash maps: the thread
  runs, satisfies the invariant, has empty channels and knows exactly itself.
\<close>

theorem worker_start_knows_itself:
  assumes "enumerates order"
  shows "\<exists>w. worker_start order p addr = Inr w \<and> worker_ok w \<and> w_status w = Running \<and>
    worker_view w = [p \<mapsto> addr] \<and> control w = chan_new \<and> outbox w = chan_new"
  using worker_start_spec [OF assms] by blast

theorem worker_start_knows_itself_witness:
  "\<exists>w. worker_start rev (unit_peer 0 128) (V4 1 2) = Inr w \<and> worker_view w = [unit_peer 0 128 \<mapsto> V4 1 2]"
  using worker_start_knows_itself [OF enumerates_rev, of "unit_peer 0 128" "V4 1 2"] by blast

text \<open>
  C1. Handling one message refines the abstract node: it does not panic and keeps the invariant,
  the worker learns a peer exactly from a \<open>Pong\<close>, and what it sends goes to the message's source
  and is what \<open>answers\<close> prescribes: \<open>Pong\<close> to a \<open>Ping\<close>, followed by a \<open>Ping\<close> if the sender's id is
  unknown; the address of a known peer or at most 16 known neighbours to a \<open>FindPeer\<close>; nothing to
  the other messages.
\<close>

theorem handle_message_refines:
  assumes "worker_ok w"
  shows "\<exists>w' rs. handle_message a msg w = Inr w' \<and> worker_ok w' \<and> w_peer_id w' = w_peer_id w \<and>
    worker_view w' = learns (a, msg) (worker_view w) \<and>
    ch_queue (outbox w') = ch_queue (outbox w) @ map (Pair a) rs \<and>
    answers (w_peer_id w) 16 (worker_view w) msg rs"
  by (rule handle_message_spec [OF assms])

theorem handle_message_refines_witness:
  "\<exists>w w'. worker_start rev (unit_peer 0 128) (V4 1 2) = Inr w \<and> handle_message (V4 3 4) (Ping zero_peer) w = Inr w' \<and>
     ch_queue (outbox w') = [(V4 3 4, Pong (unit_peer 0 128)), (V4 3 4, Ping (unit_peer 0 128))]"
proof -
  obtain w where w: "worker_start rev (unit_peer 0 128) (V4 1 2) = Inr w" "worker_ok w" "w_peer_id w = unit_peer 0 128"
      "worker_view w = [unit_peer 0 128 \<mapsto> V4 1 2]" "outbox w = chan_new"
    using worker_start_spec [OF enumerates_rev] by blast
  have "unit_peer 0 128 \<noteq> zero_peer" by (rule unit_peer_not_zero) simp_all
  then show ?thesis
    using handle_message_refines [OF w(2), of "V4 3 4" "Ping zero_peer"] w by (auto simp: chan_new_def)
qed

text \<open>
  C16. A running worker with messages in its control channel handles all of them, in a number of
  turns that is finite, and then waits: it has not panicked, its queue is empty, it knows what
  the messages teach it, it has sent at most two messages per message, and only to addresses
  that had written to it.
\<close>

theorem worker_run_drains:
  assumes "worker_ok w" and "w_status w = Running" and "0 < ch_senders (control w)"
    and "ch_queue (control w) = map (\<lambda>(addr, msg). Incoming addr msg) ams"
  shows "\<exists>out. w_status (worker_run w) = Running \<and> worker_ok (worker_run w) \<and>
    ch_queue (control (worker_run w)) = [] \<and> worker_view (worker_run w) = fold learns ams (worker_view w) \<and>
    ch_queue (outbox (worker_run w)) = ch_queue (outbox w) @ out \<and>
    length out \<le> 2 * length ams \<and> fst ` set out \<subseteq> fst ` set ams"
  by (rule worker_run_incoming [OF assms])

theorem worker_run_drains_witness:
  "\<exists>w w'. worker_start rev zero_peer (V4 1 2) = Inr w \<and>
     w' = worker_run (w\<lparr>control := \<lparr>ch_queue = [Incoming (V4 3 4) (Pong (unit_peer 0 128)), Incoming (V4 5 6) (Ping zero_peer)],
        ch_senders = 1, ch_receiver = True\<rparr>\<rparr>) \<and>
     worker_view w' = [zero_peer \<mapsto> V4 1 2, unit_peer 0 128 \<mapsto> V4 3 4] \<and> length (ch_queue (outbox w')) \<le> 4"
proof -
  obtain w where w: "worker_start rev zero_peer (V4 1 2) = Inr w" "worker_ok w" "w_status w = Running"
      "worker_view w = [zero_peer \<mapsto> V4 1 2]" "outbox w = chan_new"
    using worker_start_spec [OF enumerates_rev] by blast
  let ?ams = "[(V4 3 4, Pong (unit_peer 0 128)), (V4 5 6, Ping zero_peer)]"
  let ?w = "w\<lparr>control := \<lparr>ch_queue = map (\<lambda>(addr, msg). Incoming addr msg) ?ams, ch_senders = 1, ch_receiver = True\<rparr>\<rparr>"
  show ?thesis using worker_run_drains [of ?w ?ams] w by (auto simp: chan_new_def)
qed

text \<open>
  A worker knows a peer at an address only if it knew it before or was sent a \<open>Pong\<close> with that
  peer's id from that address: no other message makes it learn anything.
\<close>

theorem worker_learns_from_pongs:
  assumes "worker_ok w" and "w_status w = Running" and "0 < ch_senders (control w)"
    and "ch_queue (control w) = map (\<lambda>(addr, msg). Incoming addr msg) ams"
    and "worker_view (worker_run w) p = Some a"
  shows "worker_view w p = Some a \<or> Incoming a (Pong p) \<in> set (ch_queue (control w))"
proof -
  have "fold learns ams (worker_view w) p = Some a"
    using worker_run_incoming [OF assms(1-4)] assms(5) by auto
  then show ?thesis by (auto dest!: fold_learns_origin simp: assms(4) image_iff)
qed

theorem worker_learns_from_pongs_witness:
  "\<exists>w. worker_start rev zero_peer (V4 1 2) = Inr w \<and>
     worker_view (worker_run (w\<lparr>control := \<lparr>ch_queue = [Incoming (V4 3 4) (Pong (unit_peer 0 128))],
        ch_senders = 1, ch_receiver = True\<rparr>\<rparr>)) (unit_peer 0 128) = Some (V4 3 4) \<and>
     (worker_view w (unit_peer 0 128) = Some (V4 3 4) \<or>
      Incoming (V4 3 4) (Pong (unit_peer 0 128)) \<in> set [Incoming (V4 3 4) (Pong (unit_peer 0 128))])"
proof -
  obtain w where w: "worker_start rev zero_peer (V4 1 2) = Inr w" "worker_ok w" "w_status w = Running"
    using worker_start_spec [OF enumerates_rev] by blast
  let ?ams = "[(V4 3 4, Pong (unit_peer 0 128))]"
  let ?w = "w\<lparr>control := \<lparr>ch_queue = map (\<lambda>(addr, msg). Incoming addr msg) ?ams, ch_senders = 1, ch_receiver = True\<rparr>\<rparr>"
  have known: "worker_view (worker_run ?w) (unit_peer 0 128) = Some (V4 3 4)"
    using worker_run_incoming [of ?w ?ams] w by auto
  then show ?thesis using worker_learns_from_pongs [of ?w ?ams, OF _ _ _ _ known] w by auto
qed

text \<open>
  \<open>quit\<close> on a running worker returns: the messages queued before it are handled first, the
  thread ends without a panic and \<open>quit\<close> returns \<open>Ok\<close>.
\<close>

theorem quit_ends_worker:
  assumes "worker_ok w" and "w_status w = Running" and "ch_receiver (control w)"
    and "ch_queue (control w) = map (\<lambda>(addr, msg). Incoming addr msg) ams"
  shows "\<exists>w'. quit w = Inr (Inr w') \<and> w_status w' = Finished \<and> worker_view w' = fold learns ams (worker_view w)"
  by (rule quit_spec [OF assms])

theorem quit_ends_worker_witness:
  "\<exists>w w'. worker_start rev zero_peer (V4 1 2) = Inr w \<and> quit w = Inr (Inr w') \<and> w_status w' = Finished \<and>
     worker_view w' = [zero_peer \<mapsto> V4 1 2]"
proof -
  obtain w where w: "worker_start rev zero_peer (V4 1 2) = Inr w" "worker_ok w" "w_status w = Running"
      "worker_view w = [zero_peer \<mapsto> V4 1 2]" "control w = chan_new"
    using worker_start_spec [OF enumerates_rev] by blast
  then show ?thesis using quit_ends_worker [of w "[]"] by (auto simp: chan_new_def)
qed

text \<open>
  C17. A worker whose handle is dropped without \<open>quit\<close> handles what is still queued and ends; it
  panics in \<open>send\<close> exactly when one of the queued messages wants a reply (a \<open>Ping\<close> or a
  \<open>FindPeer\<close>), because the receiver of its messages went with the handle.
\<close>

theorem dropped_handle_panics_iff:
  assumes "worker_ok w" and "w_status w = Running" and "ch_senders (control w) = 1"
    and "ch_queue (control w) = map (\<lambda>(addr, msg). Incoming addr msg) ams"
  shows "w_status (worker_run (drop_handle w)) =
    (if \<exists>am \<in> set ams. wants_reply (snd am) then Panicked (Expectation ''FIXME'') else Finished)"
  using assms by (intro worker_run_closed) (simp_all add: drop_handle_def worker_ok_def drop_receiver_def drop_sender_def)

theorem dropped_handle_panics_iff_witness:
  "\<exists>w. worker_start rev zero_peer (V4 1 2) = Inr w \<and> w_status (worker_run (drop_handle w)) = Finished \<and>
     w_status (worker_run (drop_handle (w\<lparr>control := \<lparr>ch_queue = [Incoming (V4 3 4) (Ping zero_peer)],
        ch_senders = 1, ch_receiver = True\<rparr>\<rparr>))) = Panicked (Expectation ''FIXME'')"
proof -
  obtain w where w: "worker_start rev zero_peer (V4 1 2) = Inr w" "worker_ok w" "w_status w = Running"
      "control w = chan_new"
    using worker_start_spec [OF enumerates_rev] by blast
  let ?ams = "[(V4 3 4, Ping zero_peer)]"
  let ?w = "w\<lparr>control := \<lparr>ch_queue = map (\<lambda>(addr, msg). Incoming addr msg) ?ams, ch_senders = 1, ch_receiver = True\<rparr>\<rparr>"
  show ?thesis
    using dropped_handle_panics_iff [of w "[]"] dropped_handle_panics_iff [of ?w ?ams] w by (auto simp: chan_new_def)
qed

end
