(* ===== verification/Std_Net.thy ===== *)
theory Std_Net
  imports Types
begin

text \<open>
  What the program uses of \<open>std::net\<close> beyond the type \<open>SocketAddr\<close>: \<open>FromStr\<close>, through
  \<open>str::parse\<close>. An IPv4 address with a port is parsed here, with octets of at most three digits and
  no leading zero; the IPv6 forms, which no caller of the modelled code writes, are an argument
  that is asked when the IPv4 form does not match.
\<close>

definition digit_value :: "char \<Rightarrow> nat option" where
  "digit_value c = (if 48 \<le> (of_char c :: nat) \<and> (of_char c :: nat) \<le> 57 then Some (of_char c - 48) else None)"

fun read_digits :: "nat \<Rightarrow> nat \<Rightarrow> string \<Rightarrow> nat option" where
  "read_digits limit acc [] = Some acc"
| "read_digits limit acc (c # cs) =
     (case digit_value c of
        None \<Rightarrow> None
      | Some d \<Rightarrow> if 10 * acc + d \<le> limit then read_digits limit (10 * acc + d) cs else None)"

definition read_number :: "nat \<Rightarrow> string \<Rightarrow> nat option" where
  "read_number limit s = (if s = [] then None else read_digits limit 0 s)"

definition read_octet :: "string \<Rightarrow> nat option" where
  "read_octet s = (if length s \<le> 3 \<and> (length s = 1 \<or> hd s \<noteq> CHR ''0'') then read_number 255 s else None)"

fun split_at_char :: "char \<Rightarrow> string \<Rightarrow> string list" where
  "split_at_char c [] = [[]]"
| "split_at_char c (x # xs) =
     (if x = c then [] # split_at_char c xs
      else case split_at_char c xs of [] \<Rightarrow> [[x]] | p # ps \<Rightarrow> (x # p) # ps)"

definition parse_v4 :: "string \<Rightarrow> socket_addr option" where
  "parse_v4 s =
     (case split_at_char CHR '':'' s of
        [host, port] \<Rightarrow>
          (case (map read_octet (split_at_char CHR ''.'' host), read_number 65535 port) of
             ([Some a, Some b, Some c, Some d], Some p) \<Rightarrow>
               Some (V4 (word_of_nat (((a * 256 + b) * 256 + c) * 256 + d)) (word_of_nat p))
           | _ \<Rightarrow> None)
      | _ \<Rightarrow> None)"

definition parse_socket_addr :: "(string \<Rightarrow> socket_addr option) \<Rightarrow> string \<Rightarrow> socket_addr option" where
  "parse_socket_addr parse_v6 s = (case parse_v4 s of Some a \<Rightarrow> Some a | None \<Rightarrow> parse_v6 s)"

text \<open>The numbers an octet and a port can have fit their width.\<close>

lemma read_digits_le: "read_digits limit acc s = Some n \<Longrightarrow> acc \<le> limit \<Longrightarrow> n \<le> limit"
  by (induction s arbitrary: acc) (auto split: option.splits if_splits)

lemma read_number_le: "read_number limit s = Some n \<Longrightarrow> n \<le> limit"
  by (auto simp: read_number_def split: if_splits dest: read_digits_le)

lemma read_octet_less: "read_octet s = Some n \<Longrightarrow> n < 256"
  by (auto simp: read_octet_def split: if_splits dest: read_number_le)

lemma parse_sim_addrs:
  "parse_socket_addr v6 ''10.0.0.1:4433'' = Some (V4 167772161 4433)"
  "parse_socket_addr v6 ''10.0.0.2:4433'' = Some (V4 167772162 4433)"
  "parse_socket_addr v6 ''10.0.0.3:4433'' = Some (V4 167772163 4433)"
  by (simp_all add: parse_socket_addr_def parse_v4_def read_octet_def read_number_def digit_value_def)

end
