(* ===== verification/Sim.thy ===== *)
theory Sim
  imports Worker Std_Net
begin

text \<open>
  The model of \<open>src/src/bin/sim.rs\<close>: a simulated network of workers, each in its own thread, with
  one loop that adds workers when their delay is over, collects what they send and delivers it.
  The threads stand in a store; a \<open>WorkerHandle\<close> is an index into it. The loop and the threads
  interleave in the step relation \<open>sim_step\<close>.
\<close>

subsection \<open>The simulated network\<close>

text \<open>
  The code outside the repository and the choices of the run time: the generator of \<open>oorandom\<close>,
  \<open>bytemuck::bytes_of\<close>, the digest of \<open>blake2\<close>, the IPv6 parser, the iteration order of the hash
  maps of the n-th thread's table and of the simulator's own map.
\<close>

record 'r externals =
  rand64_new :: "nat \<Rightarrow> 'r"
  rand_u64 :: "'r \<Rightarrow> u64 \<times> 'r"
  bytes_of :: "u64 list \<Rightarrow> u8 list"
  blake2s :: "u8 list \<Rightarrow> u8 list"
  parse_v6 :: "string \<Rightarrow> socket_addr option"
  peer_order :: "nat \<Rightarrow> peer_id list \<Rightarrow> peer_id list"
  addr_order :: "socket_addr list \<Rightarrow> socket_addr list"

definition externals_ok :: "'r externals \<Rightarrow> bool" where
  "externals_ok e \<longleftrightarrow> (\<forall>bs. length (blake2s e bs) = 32) \<and> (\<forall>n. enumerates (peer_order e n)) \<and> enumerates (addr_order e)"

type_synonym handle = nat

text \<open>A \<open>Duration\<close> is its nanoseconds.\<close>

definition from_secs :: "nat \<Rightarrow> nat" where
  "from_secs n = n * 1000000000"

record 'r worker_sim =
  sim_threads :: "worker list"
  sim_workers :: "(socket_addr, handle) hash_map"
  sim_bootstrap :: "socket_addr option"
  worker_add_queue :: "(socket_addr \<times> handle \<times> nat) list"
  sim_rng :: 'r

definition sim_new :: "'r externals \<Rightarrow> 'r worker_sim" where
  "sim_new e = \<lparr>sim_threads = [], sim_workers = hm_new (addr_order e), sim_bootstrap = None,
     worker_add_queue = [], sim_rng = rand64_new e 12345\<rparr>"

definition set_bootstrap :: "'r externals \<Rightarrow> string \<Rightarrow> 'r worker_sim \<Rightarrow> 'r worker_sim outcome" where
  "set_bootstrap e addr s =
     res_map (\<lambda>a. s\<lparr>sim_bootstrap := Some a\<rparr>) (option_unwrap (parse_socket_addr (parse_v6 e) addr))"

text \<open>\<open>HashMap::insert\<close> returns the handle that had the address, and it is dropped.\<close>

definition add_worker :: "socket_addr \<Rightarrow> handle \<Rightarrow> ('r, 'z) worker_sim_scheme \<Rightarrow> ('r, 'z) worker_sim_scheme" where
  "add_worker addr h s =
     (let (old, m) = hm_insert addr h (sim_workers s) in
      case old of
        None \<Rightarrow> s\<lparr>sim_workers := m\<rparr>
      | Some h0 \<Rightarrow> s\<lparr>sim_workers := m, sim_threads := (sim_threads s)[h0 := drop_handle (sim_threads s ! h0)]\<rparr>)"

text \<open>\<open>w.controller().message(source, msg)\<close>: the temporary controller is dropped afterwards.\<close>

definition message_via :: "socket_addr \<Rightarrow> message \<Rightarrow> worker \<Rightarrow> worker_message send_error + worker" where
  "message_via source msg w = res_map drop_controller (controller_message source msg (controller w))"

text \<open>The two messages \<open>add_new_worker\<close> puts into the new worker's own control channel.\<close>

definition greet :: "socket_addr option \<Rightarrow> peer_id \<Rightarrow> worker \<Rightarrow> worker outcome" where
  "greet boot w_id w =
     (case boot of
        None \<Rightarrow> Inr w
      | Some b \<Rightarrow>
          res_bind (unwrap (message_via b (Ping w_id) w)) (\<lambda>w.
          unwrap (message_via b (FindPeer w_id) w)))"

definition add_new_worker :: "'r externals \<Rightarrow> string \<Rightarrow> nat \<Rightarrow> 'r worker_sim \<Rightarrow> 'r worker_sim outcome" where
  "add_new_worker e addr delay s =
     res_bind (new_insecure_random (rand_u64 e) (bytes_of e) (blake2s e) (sim_rng s)) (\<lambda>(w_id, rng).
     res_bind (option_unwrap (parse_socket_addr (parse_v6 e) addr)) (\<lambda>w_addr.
     res_bind (worker_start (peer_order e (length (sim_threads s))) w_id w_addr) (\<lambda>w.
     res_bind (greet (sim_bootstrap s) w_id w) (\<lambda>w.
     Inr (s\<lparr>sim_threads := sim_threads s @ [w], sim_rng := rng,
            worker_add_queue := worker_add_queue s @ [(w_addr, length (sim_threads s), delay)]\<rparr>)))))"

subsection \<open>The loop\<close>

text \<open>
  Where the loop of \<open>run\<close> is: about to add a worker, collecting with the handles still to visit,
  delivering, or panicked.
\<close>

datatype sim_pc =
    Adding
  | Collecting "(socket_addr \<times> handle) list"
  | Delivering
  | Crashed panic

record 'r sim_run = "'r worker_sim" +
  messages :: "(socket_addr \<times> socket_addr \<times> message) list"
  clock :: nat
  pc :: sim_pc

text \<open>
  \<open>sort_by\<close> is stable; the comparison is that of the delays in reverse. Entering \<open>run\<close> fixes
  \<open>start\<close>, so \<open>clock\<close> counts from there.
\<close>

definition sort_queue :: "(socket_addr \<times> handle \<times> nat) list \<Rightarrow> (socket_addr \<times> handle \<times> nat) list" where
  "sort_queue q = sort_key (\<lambda>(_, _, d). - int d) q"

definition run_start :: "'r worker_sim \<Rightarrow> 'r sim_run" where
  "run_start s = \<lparr>sim_threads = sim_threads s, sim_workers = sim_workers s, sim_bootstrap = sim_bootstrap s,
     worker_add_queue = sort_queue (worker_add_queue s), sim_rng = sim_rng s,
     messages = [], clock = 0, pc = Adding\<rparr>"

text \<open>Popping a worker off the queue, at the time \<open>now\<close>; one that is not due is pushed back.\<close>

definition add_due :: "nat \<Rightarrow> 'r sim_run \<Rightarrow> 'r sim_run" where
  "add_due now s =
     (case rev (worker_add_queue s) of
        [] \<Rightarrow> s
      | (addr, h, dur) # rest \<Rightarrow>
          if dur < now then add_worker addr h (s\<lparr>worker_add_queue := rev rest\<rparr>)
          else s\<lparr>worker_add_queue := rev rest @ [(addr, h, dur)]\<rparr>)"

text \<open>Taking one message of the worker the collecting loop is at, or going on to the next one.\<close>

definition collect_one :: "socket_addr \<Rightarrow> handle \<Rightarrow> (socket_addr \<times> handle) list \<Rightarrow> 'r sim_run \<Rightarrow> 'r sim_run" where
  "collect_one src h todo s =
     (let (r, w) = recv_message (sim_threads s ! h);
          s' = s\<lparr>sim_threads := (sim_threads s)[h := w]\<rparr>
      in case r of
           Inr (dst, msg) \<Rightarrow> s'\<lparr>messages := messages s @ [(src, dst, msg)]\<rparr>
         | Inl _ \<Rightarrow> s'\<lparr>pc := Collecting todo\<rparr>)"

text \<open>Delivering one message; a message to an unknown address is ignored.\<close>

definition deliver_one :: "socket_addr \<times> socket_addr \<times> message \<Rightarrow> 'r sim_run \<Rightarrow> 'r sim_run" where
  "deliver_one = (\<lambda>(src, dest, msg) s.
     (case hm_get (sim_workers s) dest of
        None \<Rightarrow> s
      | Some h \<Rightarrow>
          (case expect ''Sent message to nonexistent worker?'' (message_via src msg (sim_threads s ! h)) of
             Inr w \<Rightarrow> s\<lparr>sim_threads := (sim_threads s)[h := w]\<rparr>
           | Inl p \<Rightarrow> s\<lparr>pc := Crashed p\<rparr>)))"

definition main_step :: "nat \<Rightarrow> 'r sim_run \<Rightarrow> 'r sim_run option" where
  "main_step now s =
     (case pc s of
        Adding \<Rightarrow> (let s' = (add_due now s)\<lparr>clock := now\<rparr> in Some (s'\<lparr>pc := Collecting (hm_iter (sim_workers s'))\<rparr>))
      | Collecting [] \<Rightarrow> Some (s\<lparr>pc := Delivering\<rparr>)
      | Collecting ((src, h) # todo) \<Rightarrow> Some (collect_one src h todo s)
      | Delivering \<Rightarrow>
          (case messages s of
             [] \<Rightarrow> Some (s\<lparr>pc := Adding\<rparr>)
           | m # ms \<Rightarrow> Some (deliver_one m (s\<lparr>messages := ms\<rparr>)))
      | Crashed _ \<Rightarrow> None)"

text \<open>
  One step of the program: of the loop, at any time not before the last one it saw, or of any
  thread. A panic of the loop ends the process.
\<close>

inductive sim_step :: "'r sim_run \<Rightarrow> 'r sim_run \<Rightarrow> bool" where
  main_turn: "clock s \<le> now \<Longrightarrow> main_step now s = Some s' \<Longrightarrow> sim_step s s'"
| thread_turn: "(\<forall>p. pc s \<noteq> Crashed p) \<Longrightarrow> h < length (sim_threads s) \<Longrightarrow> worker_step (sim_threads s ! h) = Some w \<Longrightarrow>
    sim_step s (s\<lparr>sim_threads := (sim_threads s)[h := w]\<rparr>)"

text \<open>\<open>WorkerSim::quit\<close>; the handles still in the queue are dropped with the simulator.\<close>

definition quit_one :: "socket_addr \<times> handle \<Rightarrow> worker list \<Rightarrow> worker list outcome" where
  "quit_one = (\<lambda>(_, h) ts. res_map (\<lambda>w. ts[h := w]) (res_bind (quit (ts ! h)) unwrap))"

definition sim_quit :: "('r, 'z) worker_sim_scheme \<Rightarrow> worker list outcome" where
  "sim_quit s =
     res_map (\<lambda>ts. fold (\<lambda>(_, h, _) ts. ts[h := drop_handle (ts ! h)]) (worker_add_queue s) ts)
       (res_fold quit_one (fst (hm_drain (sim_workers s))) (sim_threads s))"

text \<open>Setting up a network: a bootstrap address, then the workers, with the delays after which they join.\<close>

definition sim_setup :: "'r externals \<Rightarrow> string \<Rightarrow> (string \<times> nat) list \<Rightarrow> 'r worker_sim outcome" where
  "sim_setup e boot specs =
     res_bind (set_bootstrap e boot (sim_new e)) (res_fold (\<lambda>(addr, delay). add_new_worker e addr delay) specs)"

text \<open>\<open>heckin_simulator\<close> up to the call of \<open>run\<close>.\<close>

definition heckin_simulator :: "'r externals \<Rightarrow> 'r worker_sim outcome" where
  "heckin_simulator e =
     res_bind (set_bootstrap e ''10.0.0.1:4433'' (sim_new e)) (\<lambda>sim.
     res_bind (add_new_worker e ''10.0.0.1:4433'' (from_secs 0) sim) (\<lambda>sim.
     res_bind (add_new_worker e ''10.0.0.2:4433'' (from_secs 2) sim) (\<lambda>sim.
     add_new_worker e ''10.0.0.3:4433'' (from_secs 10) sim)))"

subsection \<open>A worker somebody holds a handle on\<close>

text \<open>
  The thread runs, satisfies its invariant and can be written to, and nobody has told it to quit:
  its control channel holds the incoming messages \<open>inbox w\<close>.
\<close>

fun incoming_of :: "worker_message \<Rightarrow> (socket_addr \<times> message) list" where
  "incoming_of Quit = []"
| "incoming_of (Incoming a msg) = [(a, msg)]"

definition inbox :: "worker \<Rightarrow> (socket_addr \<times> message) list" where
  "inbox w = concat (map incoming_of (ch_queue (control w)))"

definition alive :: "worker \<Rightarrow> bool" where
  "alive w \<longleftrightarrow> worker_ok w \<and> w_status w = Running \<and> ch_receiver (control w) \<and> 0 < ch_senders (control w) \<and>
     Quit \<notin> set (ch_queue (control w))"

lemma alive_queue: "alive w \<Longrightarrow> ch_queue (control w) = incoming_all (inbox w)"
proof -
  have "Quit \<notin> set q \<Longrightarrow> q = incoming_all (concat (map incoming_of q))" for q
  proof (induction q)
    case (Cons m q)
    then show ?case by (cases m) auto
  qed simp
  then show "alive w \<Longrightarrow> ?thesis" by (simp add: alive_def inbox_def)
qed

lemma worker_step_alive:
  assumes "alive w" and "worker_step w = Some w'"
  shows "\<exists>a msg rs. inbox w = (a, msg) # inbox w' \<and> alive w' \<and> w_peer_id w' = w_peer_id w \<and>
    worker_view w' = learns (a, msg) (worker_view w) \<and> worker_sent w' = worker_sent w @ map (Pair a) rs \<and>
    answers (w_peer_id w) 16 (worker_view w) msg rs"
proof (cases "inbox w")
  case Nil
  then show ?thesis
    using assms by (auto simp: worker_step_def alive_queue chan_recv_Nil alive_def split: if_splits)
next
  case (Cons am q)
  obtain a msg where am: "am = (a, msg)" by fastforce
  let ?w = "w\<lparr>control := (control w)\<lparr>ch_queue := incoming_all q\<rparr>\<rparr>"
  have "worker_ok ?w" and "w_status w = Running" using assms(1) by (simp_all add: alive_def)
  from handle_message_spec [OF this(1), of a msg] obtain w1 rs where
    w1: "handle_message a msg ?w = Inr w1" "worker_ok w1" "w_peer_id w1 = w_peer_id w"
      "worker_view w1 = learns (a, msg) (worker_view w)" "worker_sent w1 = worker_sent w @ map (Pair a) rs"
      "answers (w_peer_id w) 16 (worker_view w) msg rs" by auto
  have "w' = w1"
    using assms(2) \<open>w_status w = Running\<close> w1(1) alive_queue [OF assms(1)] by (simp add: worker_step_def Cons am)
  moreover have "inbox w1 = q" and "Quit \<notin> set (ch_queue (control w1))"
    using handle_message_frame [OF w1(1)] by (auto simp: inbox_def comp_def case_prod_beta)
  ultimately show ?thesis
    using w1 assms(1) handle_message_frame [OF w1(1)] by (auto simp: alive_def Cons am)
qed

lemma message_via_eq:
  "ch_receiver (control w) \<Longrightarrow> message_via a msg w =
     Inr (w\<lparr>control := (control w)\<lparr>ch_queue := ch_queue (control w) @ [Incoming a msg]\<rparr>\<rparr>)"
  by (simp add: message_via_def controller_message_def controller_def drop_controller_def chan_defs)

lemma message_via_alive:
  assumes "alive w"
  shows "\<exists>w'. message_via a msg w = Inr w' \<and> alive w' \<and> inbox w' = inbox w @ [(a, msg)] \<and>
    w_peer_id w' = w_peer_id w \<and> worker_view w' = worker_view w \<and> worker_sent w' = worker_sent w"
  using assms by (auto simp: alive_def message_via_eq inbox_def)

lemma recv_message_eq:
  "recv_message w =
     (case worker_sent w of
        [] \<Rightarrow> (Inl (if ch_senders (outbox w) = 0 then Disconnected else Empty), w)
      | x # xs \<Rightarrow> (Inr x, w\<lparr>outbox := (outbox w)\<lparr>ch_queue := xs\<rparr>\<rparr>))"
  by (simp add: recv_message_def chan_try_recv_def split: list.splits)

lemma alive_outbox [simp]:
  "alive (w\<lparr>outbox := (outbox w)\<lparr>ch_queue := xs\<rparr>\<rparr>) = alive w" "inbox (w\<lparr>outbox := ob\<rparr>) = inbox w"
  by (simp_all add: alive_def inbox_def)

lemma alive_quit: "alive w \<Longrightarrow> \<exists>w'. quit w = Inr (Inr w') \<and> w_status w' = Finished"
  using quit_spec [of w "inbox w"] alive_queue by (auto simp: alive_def)

subsection \<open>The loop never panics\<close>

text \<open>
  Who is where: the handles of the map and of the queue with their addresses. No two handles are
  of the same thread, and the thread of each is alive; the collecting loop visits handles of the
  map.
\<close>

definition homes :: "('r, 'z) worker_sim_scheme \<Rightarrow> (socket_addr \<times> handle) list" where
  "homes s = hm_entries (sim_workers s) @ map (\<lambda>(a, h, _). (a, h)) (worker_add_queue s)"

fun pc_ok :: "(socket_addr, handle) hash_map \<Rightarrow> sim_pc \<Rightarrow> bool" where
  "pc_ok m (Collecting todo) \<longleftrightarrow> set todo \<subseteq> set (hm_entries m)"
| "pc_ok m (Crashed p) \<longleftrightarrow> False"
| "pc_ok m _ \<longleftrightarrow> True"

definition thread_ok :: "worker list \<Rightarrow> handle \<Rightarrow> bool" where
  "thread_ok ts h \<longleftrightarrow> h < length ts \<and> alive (ts ! h)"

definition sim_inv :: "'r sim_run \<Rightarrow> bool" where
  "sim_inv s \<longleftrightarrow> hm_wf (sim_workers s) \<and> distinct (map snd (homes s)) \<and>
     list_all (thread_ok (sim_threads s)) (map snd (homes s)) \<and> pc_ok (sim_workers s) (pc s)"

lemma homes_update [simp]:
  "homes (s\<lparr>sim_threads := ts\<rparr>) = homes s" "homes (s\<lparr>messages := ms\<rparr>) = homes s" "homes (s\<lparr>clock := c\<rparr>) = homes s"
  "homes (s\<lparr>pc := p\<rparr>) = homes s"
  by (simp_all add: homes_def)

lemma sim_inv_thread:
  assumes "sim_inv s" and "h \<in> snd ` set (homes s) \<Longrightarrow> alive w"
  shows "sim_inv (s\<lparr>sim_threads := (sim_threads s)[h := w]\<rparr>)"
proof -
  have "thread_ok ((sim_threads s)[h := w]) h'" if "h' \<in> snd ` set (homes s)" "thread_ok (sim_threads s) h'" for h'
    using assms(2) that by (cases "h' = h") (auto simp: thread_ok_def)
  then show ?thesis using assms(1) by (auto simp: sim_inv_def list_all_iff)
qed

lemma sim_inv_update [simp]:
  "sim_inv (s\<lparr>messages := ms\<rparr>) = sim_inv s" "sim_inv (s\<lparr>clock := c\<rparr>) = sim_inv s"
  by (simp_all add: sim_inv_def)

lemma sim_inv_home:
  "sim_inv s \<Longrightarrow> (a, h) \<in> set (homes s) \<Longrightarrow> h < length (sim_threads s) \<and> alive (sim_threads s ! h)"
  by (force simp: sim_inv_def list_all_iff thread_ok_def)

lemma hm_get_home: "hm_get (sim_workers s) a = Some h \<Longrightarrow> (a, h) \<in> set (homes s)"
  by (auto simp: homes_def hm_get_def dest: map_of_SomeD)

text \<open>Replacing the value of a key in a list of distinct values.\<close>

lemma snd_alist_update:
  assumes "distinct (map snd al)" and "v \<notin> snd ` set al" and "distinct (map fst al)"
  shows "distinct (map snd (AList.update k v al))"
    and "snd ` set (AList.update k v al) = insert v (snd ` set al - (case map_of al k of None \<Rightarrow> {} | Some v0 \<Rightarrow> {v0}))"
proof -
  have "distinct (map snd (AList.update k v al)) \<and>
      snd ` set (AList.update k v al) = insert v (snd ` set al - (case map_of al k of None \<Rightarrow> {} | Some v0 \<Rightarrow> {v0}))"
    using assms
  proof (induction al)
    case (Cons kv al)
    obtain k0 v0 where "kv = (k0, v0)" by fastforce
    moreover have "map_of al k = Some w \<Longrightarrow> w \<in> snd ` set al" for w by (force dest: map_of_SomeD)
    ultimately show ?case using Cons by (cases "map_of al k") auto
  qed simp
  then show "distinct (map snd (AList.update k v al))"
    and "snd ` set (AList.update k v al) = insert v (snd ` set al - (case map_of al k of None \<Rightarrow> {} | Some v0 \<Rightarrow> {v0}))"
    by simp_all
qed

text \<open>A handle that is overwritten in the map is dropped, and no handle is left on its thread.\<close>

lemma add_worker_inv:
  assumes "sim_inv s" and q: "worker_add_queue s = q @ [(a, h, d)]" and "pc s = Adding"
  shows "sim_inv (add_worker a h (s\<lparr>worker_add_queue := q\<rparr>))"
proof -
  let ?s = "add_worker a h (s\<lparr>worker_add_queue := q\<rparr>)"
  define al where "al = hm_entries (sim_workers s)"
  define hs where "hs = map (\<lambda>(a, h, _). h) q"
  have wf: "hm_wf (sim_workers s)" and keys: "distinct (map fst al)"
    using assms(1) by (simp_all add: sim_inv_def hm_wf_def al_def)
  have handles: "map snd (homes s) = map snd al @ hs @ [h]"
    by (simp add: homes_def q al_def hs_def case_prod_beta)
  then have dist: "distinct (map snd al)" "h \<notin> snd ` set al" "distinct hs" "h \<notin> set hs" "snd ` set al \<inter> set hs = {}"
    using assms(1) by (auto simp: sim_inv_def)
  have handles': "map snd (homes ?s) = map snd (AList.update a h al) @ hs"
    by (simp add: add_worker_def hm_insert_def homes_def al_def hs_def case_prod_beta split: option.splits)
  have "thread_ok (sim_threads ?s) h'" if h': "h' \<in> set (map snd (homes ?s))" for h'
  proof -
    have "map_of al a = Some h0 \<Longrightarrow> h0 \<in> snd ` set al" for h0 by (force dest: map_of_SomeD)
    then have "hm_get (sim_workers s) a \<noteq> Some h'" and "h' \<in> set (map snd (homes s))"
      using h' dist snd_alist_update(2) [OF dist(1,2) keys, of a]
      unfolding handles handles' by (auto simp: hm_get_def al_def [symmetric] split: option.splits)
    then show ?thesis
      using assms(1) by (auto simp: sim_inv_def list_all_iff thread_ok_def add_worker_def hm_insert_def split: option.splits)
  qed
  moreover have "distinct (map snd (homes ?s))"
    using dist snd_alist_update [OF dist(1,2) keys, of a] by (auto simp: handles')
  moreover have "hm_wf (sim_workers ?s)"
    using hm_wf_insert [OF wf, of a h] by (simp add: add_worker_def hm_insert_def split: option.splits)
  moreover have "pc ?s = Adding"
    using assms(3) by (simp add: add_worker_def hm_insert_def split: option.splits)
  ultimately show ?thesis unfolding sim_inv_def list_all_iff by simp
qed

lemma add_due_snoc:
  "worker_add_queue s = q @ [(a, h, d)] \<Longrightarrow>
     add_due now s = (if d < now then add_worker a h (s\<lparr>worker_add_queue := q\<rparr>) else s)"
  by (cases s) (simp add: add_due_def)

lemma add_due_inv:
  assumes "sim_inv s" and "pc s = Adding"
  shows "sim_inv (add_due now s)"
proof (cases "worker_add_queue s" rule: rev_cases)
  case (snoc q ahd)
  obtain a h d where "ahd = (a, h, d)" by (cases ahd)
  then show ?thesis using assms snoc by (simp add: add_due_snoc add_worker_inv)
qed (use assms in \<open>simp add: add_due_def\<close>)

lemma set_hm_iter_entries: "hm_wf m \<Longrightarrow> set (hm_iter m) = set (hm_entries m)"
  by (auto simp: set_hm_iter hm_get_def hm_wf_def map_of_eq_Some_iff)

lemma deliver_one_inv:
  assumes "sim_inv s"
  shows "sim_inv (deliver_one (src, dest, msg) s)"
proof (cases "hm_get (sim_workers s) dest")
  case (Some h)
  with sim_inv_home [OF assms hm_get_home] message_via_alive [of "sim_threads s ! h" src msg] obtain w where
    "message_via src msg (sim_threads s ! h) = Inr w" "alive w" by blast
  then show ?thesis using assms Some by (simp add: deliver_one_def sim_inv_thread)
qed (use assms in \<open>simp add: deliver_one_def\<close>)

lemma collect_one_inv:
  assumes "sim_inv s" and "pc s = Collecting ((src, h) # todo)"
  shows "sim_inv (collect_one src h todo s)"
proof -
  have home: "(src, h) \<in> set (homes s)" "set todo \<subseteq> set (hm_entries (sim_workers s))"
    using assms by (auto simp: sim_inv_def homes_def)
  note live = sim_inv_home [OF assms(1) home(1)]
  show ?thesis
  proof (cases "worker_sent (sim_threads s ! h)")
    case Nil
    then show ?thesis
      using assms(1) home(2) by (simp add: collect_one_def recv_message_eq sim_inv_def)
  next
    case (Cons x xs)
    obtain dst msg where x: "x = (dst, msg)" by fastforce
    show ?thesis
      unfolding collect_one_def recv_message_eq Cons list.case Let_def prod.case sum.case x
      using sim_inv_thread [OF assms(1), of h] live by simp
  qed
qed

lemma main_step_inv:
  assumes "sim_inv s" and "main_step now s = Some s'"
  shows "sim_inv s'"
proof (cases "pc s")
  case Adding
  note due = add_due_inv [OF assms(1) Adding, of now]
  have "sim_inv (t\<lparr>pc := Collecting (hm_iter (sim_workers t))\<rparr>)" if "sim_inv t" for t :: "'a sim_run"
    using that by (simp add: sim_inv_def set_hm_iter_entries)
  from this [of "(add_due now s)\<lparr>clock := now\<rparr>"] show ?thesis
    using due assms(2) by (simp add: main_step_def Adding Let_def)
next
  case (Collecting todo)
  then show ?thesis
    using assms collect_one_inv [OF assms(1)] by (auto simp: main_step_def sim_inv_def split: list.splits)
next
  case Delivering
  then show ?thesis
    using assms deliver_one_inv [of "s\<lparr>messages := _\<rparr>"] by (auto simp: main_step_def sim_inv_def split: list.splits)
qed (use assms in \<open>simp_all add: sim_inv_def main_step_def\<close>)

lemma sim_step_inv:
  assumes "sim_inv s" and "sim_step s s'"
  shows "sim_inv s'"
  using assms(2)
proof (cases rule: sim_step.cases)
  case (main_turn now)
  then show ?thesis using main_step_inv assms(1) by blast
next
  case (thread_turn h w)
  have "alive w" if "h \<in> snd ` set (homes s)"
    using that sim_inv_home [OF assms(1)] worker_step_alive [OF _ thread_turn(4)] by fastforce
  then show ?thesis using sim_inv_thread [OF assms(1)] thread_turn(1) by blast
qed

subsection \<open>Setting up the network\<close>

abbreviation addr_of :: "'r externals \<Rightarrow> string \<Rightarrow> socket_addr option" where
  "addr_of e \<equiv> parse_socket_addr (parse_v6 e)"

text \<open>A worker with the two messages \<open>add_new_worker\<close> leaves it, which has not run yet.\<close>

definition fresh :: "socket_addr \<Rightarrow> socket_addr \<Rightarrow> worker \<Rightarrow> bool" where
  "fresh b a w \<longleftrightarrow> alive w \<and> inbox w = [(b, Ping (w_peer_id w)), (b, FindPeer (w_peer_id w))] \<and>
     worker_view w = [w_peer_id w \<mapsto> a] \<and> worker_sent w = []"

lemma add_new_worker_spec:
  assumes ok: "externals_ok e" and b: "sim_bootstrap s = Some b" and a: "addr_of e addr = Some a"
  shows "\<exists>w rng. add_new_worker e addr delay s =
      Inr (s\<lparr>sim_threads := sim_threads s @ [w], sim_rng := rng,
            worker_add_queue := worker_add_queue s @ [(a, length (sim_threads s), delay)]\<rparr>) \<and> fresh b a w"
proof -
  obtain p rng where rand: "new_insecure_random (rand_u64 e) (bytes_of e) (blake2s e) (sim_rng s) = Inr (p, rng)"
    using ok by (cases "fill_random (rand_u64 e) 32 (sim_rng s)")
      (auto simp: externals_ok_def new_insecure_random_def hash_new_eq BLAKE2_HASH_SIZE_def)
  obtain w where w: "worker_start (peer_order e (length (sim_threads s))) p a = Inr w" "worker_ok w"
      "w_status w = Running" "w_peer_id w = p" "worker_view w = [p \<mapsto> a]" "control w = chan_new" "outbox w = chan_new"
    using worker_start_spec ok unfolding externals_ok_def by blast
  have live: "alive w" using w by (simp add: alive_def chan_new_def)
  from message_via_alive [OF live, of b "Ping p"] obtain w1 where
    w1: "message_via b (Ping p) w = Inr w1" "alive w1" "inbox w1 = inbox w @ [(b, Ping p)]"
      "w_peer_id w1 = p" "worker_view w1 = [p \<mapsto> a]" "worker_sent w1 = []"
    using w by (auto simp: chan_new_def)
  from message_via_alive [OF w1(2), of b "FindPeer p"] obtain w2 where
    w2: "message_via b (FindPeer p) w1 = Inr w2" "fresh b a w2"
    using w w1 by (auto simp: fresh_def inbox_def chan_new_def)
  have "greet (sim_bootstrap s) p w = Inr w2" using w1(1) w2(1) by (simp add: greet_def b unwrap_def)
  then show ?thesis
    using rand w(1) w2(2) a by (intro exI [of _ w2] exI [of _ rng]) (simp add: add_new_worker_def option_unwrap_def)
qed

lemma add_new_worker_unparsed:
  assumes "externals_ok e" and "addr_of e addr = None"
  shows "\<exists>p. add_new_worker e addr delay s = Inl p"
  using assms
  by (auto simp: externals_ok_def new_insecure_random_def hash_new_eq BLAKE2_HASH_SIZE_def add_new_worker_def
      option_unwrap_def unwrap_def split: prod.splits)

definition setup_ok :: "socket_addr \<Rightarrow> 'r worker_sim \<Rightarrow> bool" where
  "setup_ok b s \<longleftrightarrow> sim_bootstrap s = Some b \<and> hm_entries (sim_workers s) = [] \<and> hm_wf (sim_workers s) \<and>
     map (\<lambda>(a, h, d). h) (worker_add_queue s) = [0..<length (sim_threads s)] \<and>
     (\<forall>(a, h, d) \<in> set (worker_add_queue s). fresh b a (sim_threads s ! h))"

lemma add_new_worker_setup:
  assumes "externals_ok e" and s: "setup_ok b s" and a: "addr_of e addr = Some a"
  shows "\<exists>s'. add_new_worker e addr delay s = Inr s' \<and> setup_ok b s' \<and>
    worker_add_queue s' = worker_add_queue s @ [(a, length (sim_threads s), delay)]"
proof -
  have "sim_bootstrap s = Some b" using s by (simp add: setup_ok_def)
  from add_new_worker_spec [OF assms(1) this a, of delay] obtain w rng where
    new: "add_new_worker e addr delay s = Inr (s\<lparr>sim_threads := sim_threads s @ [w], sim_rng := rng,
        worker_add_queue := worker_add_queue s @ [(a, length (sim_threads s), delay)]\<rparr>)" and "fresh b a w" by blast
  have "h < length (sim_threads s)" if "(a', h, d) \<in> set (worker_add_queue s)" for a' h d
  proof -
    have "h \<in> set (map (\<lambda>(a, h, d). h) (worker_add_queue s))" using that by force
    then show ?thesis using s unfolding setup_ok_def by (metis atLeastLessThan_iff set_upt)
  qed
  then show ?thesis
    using s new \<open>fresh b a w\<close> by (fastforce simp: setup_ok_def nth_append)
qed

lemma add_new_workers_setup:
  assumes ok: "externals_ok e"
  shows "setup_ok b s \<Longrightarrow> \<forall>(addr, _) \<in> set specs. addr_of e addr \<noteq> None \<Longrightarrow>
    \<exists>s'. res_fold (\<lambda>(addr, delay). add_new_worker e addr delay) specs s = Inr s' \<and> setup_ok b s' \<and>
      map (\<lambda>(a, h, d). (a, d)) (worker_add_queue s') =
        map (\<lambda>(a, h, d). (a, d)) (worker_add_queue s) @ map (\<lambda>(addr, d). (the (addr_of e addr), d)) specs"
proof (induction specs arbitrary: s)
  case (Cons spec specs)
  obtain addr delay a where spec: "spec = (addr, delay)" "addr_of e addr = Some a"
    using Cons.prems(2) by fastforce
  from add_new_worker_setup [OF ok Cons.prems(1) spec(2), of delay] obtain s1 where
    s1: "add_new_worker e addr delay s = Inr s1" "setup_ok b s1"
      "worker_add_queue s1 = worker_add_queue s @ [(a, length (sim_threads s), delay)]" by blast
  then show ?case using Cons.IH [OF s1(2)] Cons.prems(2) spec by auto
qed simp

lemma sim_setup_spec:
  assumes "externals_ok e" and "addr_of e boot = Some b" and "\<forall>(addr, _) \<in> set specs. addr_of e addr \<noteq> None"
  shows "\<exists>s. sim_setup e boot specs = Inr s \<and> setup_ok b s \<and>
    map (\<lambda>(a, h, d). (a, d)) (worker_add_queue s) = map (\<lambda>(addr, d). (the (addr_of e addr), d)) specs"
proof -
  let ?s = "(sim_new e)\<lparr>sim_bootstrap := Some b\<rparr>"
  have "setup_ok b ?s" using assms(1) by (simp add: setup_ok_def sim_new_def externals_ok_def) (simp add: hm_new_def)
  from add_new_workers_setup [OF assms(1) this assms(3)] show ?thesis
    using assms(2) by (simp add: sim_setup_def set_bootstrap_def option_unwrap_def) (simp add: sim_new_def)
qed

lemma res_fold_fails: "x \<in> set xs \<Longrightarrow> \<forall>s. \<exists>e. f x s = Inl e \<Longrightarrow> \<exists>e. res_fold f xs s = Inl e"
proof (induction xs arbitrary: s)
  case (Cons y ys)
  then show ?case by (cases "f y s") (auto, metis Inl_Inr_False)
qed simp

lemma heckin_simulator_setup:
  "heckin_simulator e =
     sim_setup e ''10.0.0.1:4433'' [(''10.0.0.1:4433'', 0), (''10.0.0.2:4433'', 2000000000), (''10.0.0.3:4433'', 10000000000)]"
proof -
  have right: "res_bind r Inr = r" for r :: "'a worker_sim outcome" by (cases r) simp_all
  have fold: "res_fold f (x # xs) = (\<lambda>s. res_bind (f x s) (res_fold f xs))" "res_fold f [] = Inr"
    for f :: "string \<times> nat \<Rightarrow> 'a worker_sim \<Rightarrow> 'a worker_sim outcome" and x xs by auto
  show ?thesis by (simp add: heckin_simulator_def sim_setup_def from_secs_def right fold)
qed

lemma sim_setup_iff:
  assumes "externals_ok e"
  shows "(\<exists>s. sim_setup e boot specs = Inr s) \<longleftrightarrow>
    addr_of e boot \<noteq> None \<and> (\<forall>(addr, _) \<in> set specs. addr_of e addr \<noteq> None)"
proof
  assume l: "\<exists>s. sim_setup e boot specs = Inr s"
  have "addr_of e boot \<noteq> None"
    using l by (auto simp: sim_setup_def set_bootstrap_def option_unwrap_def unwrap_def res_bind_Inr_iff res_map_Inr_iff
        split: option.splits)
  moreover have "addr_of e addr \<noteq> None" if "(addr, d) \<in> set specs" for addr d
  proof
    assume "addr_of e addr = None"
    then have "\<forall>s. \<exists>p. (\<lambda>(addr, delay). add_new_worker e addr delay) (addr, d) s = Inl p"
      using add_new_worker_unparsed [OF assms] by simp
    then have "\<exists>p. res_fold (\<lambda>(addr, delay). add_new_worker e addr delay) specs s = Inl p" for s
      by (rule res_fold_fails [OF that])
    then show False using l unfolding sim_setup_def res_bind_Inr_iff by (metis Inl_Inr_False)
  qed
  ultimately show "addr_of e boot \<noteq> None \<and> (\<forall>(addr, _) \<in> set specs. addr_of e addr \<noteq> None)" by auto
qed (use sim_setup_spec [OF assms] in blast)

lemma homes_run_start:
  "setup_ok b s \<Longrightarrow> mset (homes (run_start s)) = image_mset (\<lambda>(a, h, _). (a, h)) (mset (worker_add_queue s))"
  by (simp add: homes_def run_start_def sort_queue_def setup_ok_def)

lemma set_homes_run_start:
  "setup_ok b s \<Longrightarrow> set (homes (run_start s)) = (\<lambda>(a, h, _). (a, h)) ` set (worker_add_queue s)"
  using arg_cong [OF homes_run_start, of b s set_mset] by simp

lemma sim_inv_run_start:
  assumes "setup_ok b s"
  shows "sim_inv (run_start s)"
proof -
  have handles: "map (\<lambda>(a, h, d). h) (worker_add_queue s) = [0..<length (sim_threads s)]"
    using assms by (simp add: setup_ok_def)
  have "mset (map snd (homes (run_start s))) = mset (map (\<lambda>(a, h, d). h) (worker_add_queue s))"
    using homes_run_start [OF assms] by (auto simp: image_mset.compositionality intro!: image_mset_cong)
  then have perm: "mset (map snd (homes (run_start s))) = mset [0..<length (sim_threads s)]"
    unfolding handles .
  have "distinct (map snd (homes (run_start s)))" using mset_eq_imp_distinct_iff [OF perm] by simp
  moreover have "thread_ok (sim_threads s) h" if "(a, h) \<in> set (homes (run_start s))" for a h
  proof -
    have "h \<in> set (map snd (homes (run_start s)))" using that by force
    then have "h < length (sim_threads s)" using mset_eq_setD [OF perm] by simp
    moreover from that obtain d where "(a, h, d) \<in> set (worker_add_queue s)"
      using set_homes_run_start [OF assms] by auto
    ultimately show ?thesis using assms by (fastforce simp: thread_ok_def setup_ok_def fresh_def)
  qed
  ultimately show ?thesis
    using assms by (force simp: sim_inv_def list_all_iff setup_ok_def run_start_def)
qed

text \<open>The start states of the program, with any network of workers that can be set up.\<close>

definition sim_init :: "'r sim_run \<Rightarrow> bool" where
  "sim_init s \<longleftrightarrow> (\<exists>e boot specs sim. externals_ok e \<and> sim_setup e boot specs = Inr sim \<and> s = run_start sim)"

lemma sim_setup_ok:
  assumes "externals_ok e" and "sim_setup e boot specs = Inr sim"
  shows "\<exists>b. addr_of e boot = Some b \<and> setup_ok b sim \<and>
    map (\<lambda>(a, h, d). (a, d)) (worker_add_queue sim) = map (\<lambda>(addr, d). (the (addr_of e addr), d)) specs"
  using sim_setup_iff [OF assms(1), of boot specs] sim_setup_spec [OF assms(1), of boot _ specs] assms(2) by auto

interpretation network: inductive_invariant sim_init sim_step sim_inv
proof unfold_locales
  fix s :: "'r sim_run"
  assume "sim_init s"
  then show "sim_inv s" unfolding sim_init_def using sim_setup_ok sim_inv_run_start by blast
qed (rule sim_step_inv)

lemma sim_inv_steps:
  assumes "externals_ok e" and "sim_setup e boot specs = Inr sim" and "sim_step\<^sup>*\<^sup>* (run_start sim) s"
  shows "sim_inv s"
  using network.inv_reachable [OF reach_rtranclp [OF reach_init assms(3)]] assms(1,2) unfolding sim_init_def by blast

subsection \<open>Quitting\<close>

lemma quit_all:
  "distinct (map snd ahs) \<Longrightarrow> \<forall>h \<in> snd ` set ahs. thread_ok ts h \<Longrightarrow>
   \<exists>ts'. res_fold quit_one ahs ts = Inr ts' \<and> length ts' = length ts \<and>
     (\<forall>h \<in> snd ` set ahs. w_status (ts' ! h) = Finished) \<and> (\<forall>h. h \<notin> snd ` set ahs \<longrightarrow> ts' ! h = ts ! h)"
proof (induction ahs arbitrary: ts)
  case (Cons ah ahs)
  obtain a h where ah: "ah = (a, h)" by fastforce
  have h: "h < length ts" "alive (ts ! h)" "h \<notin> snd ` set ahs" using Cons.prems by (auto simp: ah thread_ok_def)
  from alive_quit [OF h(2)] obtain w where w: "quit (ts ! h) = Inr (Inr w)" "w_status w = Finished" by blast
  have "thread_ok (ts[h := w]) h'" if "h' \<in> snd ` set ahs" for h'
    using that Cons.prems(2) h(3) by (cases "h' = h") (auto simp: thread_ok_def)
  with Cons.IH [of "ts[h := w]"] Cons.prems(1) obtain ts' where ts': "res_fold quit_one ahs (ts[h := w]) = Inr ts'"
      "length ts' = length ts" "\<forall>h \<in> snd ` set ahs. w_status (ts' ! h) = Finished"
      "\<forall>h'. h' \<notin> snd ` set ahs \<longrightarrow> ts' ! h' = ts[h := w] ! h'" by auto
  have "quit_one ah ts = Inr (ts[h := w])" by (simp add: quit_one_def ah w(1) unwrap_def)
  then show ?case using ts' h w(2) by (auto simp: ah nth_list_update)
qed simp

lemma drop_queued:
  "h \<notin> (\<lambda>(a, h, d). h) ` set q \<Longrightarrow> fold (\<lambda>(_, h, _) ts. ts[h := drop_handle (ts ! h)]) q ts ! h = ts ! h"
  by (induction q arbitrary: ts) auto

lemma sim_quit_spec:
  assumes "sim_inv s"
  shows "\<exists>ts. sim_quit s = Inr ts \<and> (\<forall>a h. hm_get (sim_workers s) a = Some h \<longrightarrow> w_status (ts ! h) = Finished)"
proof -
  let ?al = "hm_entries (sim_workers s)" and ?q = "(\<lambda>(a, h, d). h) ` set (worker_add_queue s)"
  have wf: "hm_wf (sim_workers s)" and dist: "distinct (map snd (homes s))" using assms by (simp_all add: sim_inv_def)
  have "distinct (hm_iter (sim_workers s))" and "distinct ?al"
    using distinct_hm_keys [OF wf] fst_hm_iter [of "sim_workers s"] wf by (metis distinct_map, simp add: hm_wf_def distinct_map)
  then have iter: "set (hm_iter (sim_workers s)) = set ?al" "mset (hm_iter (sim_workers s)) = mset ?al"
    using set_hm_iter_entries [OF wf] set_eq_iff_mset_eq_distinct by blast+
  have "distinct (map snd ?al)" and apart: "snd ` set ?al \<inter> ?q = {}"
    using dist by (auto simp: homes_def case_prod_beta)
  then have "distinct (map snd (hm_iter (sim_workers s)))"
    using iter(2) by (metis mset_eq_imp_distinct_iff mset_map)
  moreover have "\<forall>h \<in> snd ` set (hm_iter (sim_workers s)). thread_ok (sim_threads s) h"
    using assms unfolding iter(1) sim_inv_def homes_def list_all_iff by auto
  ultimately obtain ts where ts: "res_fold quit_one (hm_iter (sim_workers s)) (sim_threads s) = Inr ts"
      "\<forall>h \<in> snd ` set ?al. w_status (ts ! h) = Finished"
    using quit_all iter(1) by metis
  have "w_status (fold (\<lambda>(_, h, _) ts. ts[h := drop_handle (ts ! h)]) (worker_add_queue s) ts ! h) = Finished"
    if "hm_get (sim_workers s) a = Some h" for a h
  proof -
    have h: "h \<in> snd ` set ?al" using that by (force simp: hm_get_def dest: map_of_SomeD)
    then have "h \<notin> ?q" using apart by blast
    then show ?thesis using ts(2) h by (auto simp: drop_queued)
  qed
  then show ?thesis using ts(1) by (simp add: sim_quit_def hm_drain_def)
qed

subsection \<open>Properties\<close>

text \<open>A choice of the code outside the repository, for concrete runs.\<close>

definition sample_externals :: "nat externals" where
  "sample_externals = \<lparr>rand64_new = (\<lambda>seed. seed), rand_u64 = (\<lambda>r. (word_of_nat r, Suc r)), bytes_of = map ucast,
     blake2s = (\<lambda>bs. take 32 (bs @ replicate 32 0)), parse_v6 = (\<lambda>_. None), peer_order = (\<lambda>_. rev), addr_order = (\<lambda>ks. ks)\<rparr>"

lemma sample_externals_ok: "externals_ok sample_externals"
  by (auto simp: externals_ok_def sample_externals_def min_def)

lemma heckin_simulator_ok: "externals_ok e \<Longrightarrow> \<exists>sim. heckin_simulator e = Inr sim"
  unfolding heckin_simulator_setup by (subst sim_setup_iff) (simp_all add: parse_sim_addrs)

text \<open>
  C3. In every interleaving of the simulator's loop with the worker threads the loop does not
  panic (no message is sent to a nonexistent worker) and does not end; every thread with a handle
  in the map or in the queue is running and satisfies its invariant. This holds for any set of
  workers, also when two have the same address.
\<close>

theorem sim_never_panics:
  assumes "externals_ok e" and "sim_setup e boot specs = Inr sim" and "sim_step\<^sup>*\<^sup>* (run_start sim) s"
  shows "(\<forall>p. pc s \<noteq> Crashed p) \<and> (\<forall>now. main_step now s \<noteq> None) \<and>
    (\<forall>(a, h) \<in> set (homes s). h < length (sim_threads s) \<and> w_status (sim_threads s ! h) = Running \<and>
       worker_ok (sim_threads s ! h))"
proof -
  note inv = sim_inv_steps [OF assms]
  have "pc_ok (sim_workers s) (pc s)" using inv by (simp add: sim_inv_def)
  then have "(\<forall>p. pc s \<noteq> Crashed p) \<and> (\<forall>now. main_step now s \<noteq> None)"
    by (cases "pc s") (auto simp: main_step_def Let_def split: list.splits)
  then show ?thesis using sim_inv_home [OF inv] by (auto simp: alive_def)
qed

theorem sim_never_panics_witness:
  "\<exists>sim s. heckin_simulator sample_externals = Inr sim \<and> sim_step (run_start sim) s \<and> pc s = Collecting [] \<and>
     main_step 5 s \<noteq> None"
proof -
  obtain sim where sim: "heckin_simulator sample_externals = Inr sim"
    using heckin_simulator_ok [OF sample_externals_ok] by blast
  let ?s0 = "run_start sim"
  have "add_due 0 ?s0 = ?s0"
  proof (cases "worker_add_queue ?s0" rule: rev_cases)
    case (snoc q ahd)
    then show ?thesis by (cases ahd) (simp add: add_due_snoc)
  qed (simp add: add_due_def)
  moreover from sim obtain b where "setup_ok b sim"
    using sim_setup_ok [OF sample_externals_ok] unfolding heckin_simulator_setup by blast
  then have "hm_iter (sim_workers ?s0) = []"
    using set_hm_iter_entries [of "sim_workers ?s0"] by (simp add: run_start_def setup_ok_def)
  ultimately have turn: "main_step 0 ?s0 = Some (?s0\<lparr>clock := 0, pc := Collecting []\<rparr>)"
    by (simp add: main_step_def Let_def) (simp add: run_start_def)
  then have step: "sim_step ?s0 (?s0\<lparr>clock := 0, pc := Collecting []\<rparr>)"
    by (rule main_turn [rotated]) (simp add: run_start_def)
  have "main_step 5 (?s0\<lparr>clock := 0, pc := Collecting []\<rparr>) \<noteq> None"
    using sim_never_panics [OF sample_externals_ok _ r_into_rtranclp [where r = sim_step, OF step]] sim
    unfolding heckin_simulator_setup by blast
  then show ?thesis using sim step by (intro exI [of _ sim] exI conjI) auto
qed

text \<open>
  C31. Quitting a reachable simulator succeeds: every worker of the map is told to quit and its
  thread ends without a panic, whatever is still in its queue.
\<close>

theorem sim_quit_succeeds:
  assumes "externals_ok e" and "sim_setup e boot specs = Inr sim" and "sim_step\<^sup>*\<^sup>* (run_start sim) s"
  shows "\<exists>ts. sim_quit s = Inr ts \<and>
    (\<forall>a h. hm_get (sim_workers s) a = Some h \<longrightarrow> w_status (ts ! h) = Finished)"
  by (rule sim_quit_spec [OF sim_inv_steps [OF assms]])

theorem sim_quit_succeeds_witness:
  "\<exists>sim ts. heckin_simulator sample_externals = Inr sim \<and> sim_quit (run_start sim) = Inr ts"
proof -
  obtain sim where "heckin_simulator sample_externals = Inr sim"
    using heckin_simulator_ok [OF sample_externals_ok] by blast
  then show ?thesis
    using sim_quit_succeeds [OF sample_externals_ok _ rtranclp.rtrancl_refl] unfolding heckin_simulator_setup by blast
qed

end
