(* ===== verification/Network.thy ===== *)
theory Network
  imports Sim
begin

text \<open>
  The simulator as a network of nodes that exchange messages. The abstract network has no
  threads, channels, handles or hash maps; a node has an inbox, an outbox and what it knows. The
  steps of \<open>Sim\<close> refine those of the network, and what the nodes can come to know is proved of the
  network.
\<close>

subsection \<open>The abstract network\<close>

record net_node =
  n_id :: peer_id
  n_inbox :: "(socket_addr \<times> message) list"
  n_outbox :: "(socket_addr \<times> message) list"
  n_view :: knowledge

record net =
  nodes :: "socket_addr \<rightharpoonup> net_node"
  joined :: "socket_addr set"
  waiting :: "socket_addr list"
  flight :: "(socket_addr \<times> socket_addr \<times> message) list"

text \<open>
  A waiting node joins, a node handles the first message of its inbox, a message of a joined node
  is put in flight, and the first message in flight arrives or, if its destination has not
  joined, is lost.
\<close>

inductive net_step :: "net \<Rightarrow> net \<Rightarrow> bool" where
  join: "waiting n = a # rest \<Longrightarrow> net_step n (n\<lparr>waiting := rest, joined := insert a (joined n)\<rparr>)"
| handle: "nodes n a = Some nd \<Longrightarrow> n_inbox nd = (src, msg) # q \<Longrightarrow> answers (n_id nd) 16 (n_view nd) msg rs \<Longrightarrow>
    net_step n (n\<lparr>nodes := (nodes n)(a \<mapsto> nd\<lparr>n_inbox := q, n_outbox := n_outbox nd @ map (Pair src) rs,
      n_view := learns (src, msg) (n_view nd)\<rparr>)\<rparr>)"
| collect: "a \<in> joined n \<Longrightarrow> nodes n a = Some nd \<Longrightarrow> n_outbox nd = (dst, msg) # out \<Longrightarrow>
    net_step n (n\<lparr>nodes := (nodes n)(a \<mapsto> nd\<lparr>n_outbox := out\<rparr>), flight := flight n @ [(a, dst, msg)]\<rparr>)"
| deliver: "flight n = (src, dst, msg) # fl \<Longrightarrow> dst \<in> joined n \<Longrightarrow> nodes n dst = Some nd \<Longrightarrow>
    net_step n (n\<lparr>nodes := (nodes n)(dst \<mapsto> nd\<lparr>n_inbox := n_inbox nd @ [(src, msg)]\<rparr>), flight := fl\<rparr>)"
| lose: "flight n = (src, dst, msg) # fl \<Longrightarrow> dst \<notin> joined n \<Longrightarrow> net_step n (n\<lparr>flight := fl\<rparr>)"

subsection \<open>What the nodes can know\<close>

definition id_at :: "net \<Rightarrow> socket_addr \<Rightarrow> peer_id option" where
  "id_at n a = map_option n_id (nodes n a)"

text \<open>The messages a node sends to the bootstrap node: its id, and its own address under its id.\<close>

fun genuine :: "(socket_addr \<Rightarrow> peer_id option) \<Rightarrow> socket_addr \<Rightarrow> message \<Rightarrow> bool" where
  "genuine ids src (Pong p) \<longleftrightarrow> ids src = Some p"
| "genuine ids src (FindPeerResponsePeerFound p x) \<longleftrightarrow> ids src = Some p \<and> ids x = Some p"
| "genuine ids src _ \<longleftrightarrow> False"

definition node_ok :: "(socket_addr \<Rightarrow> peer_id option) \<Rightarrow> socket_addr \<Rightarrow> socket_addr \<Rightarrow> net_node \<Rightarrow> bool" where
  "node_ok ids b a nd \<longleftrightarrow> n_view nd (n_id nd) \<noteq> None \<and>
     (\<forall>p x. n_view nd p = Some x \<longrightarrow> ids x = Some p \<and> (a \<noteq> b \<longrightarrow> x = a)) \<and>
     (\<forall>(src, m) \<in> set (n_inbox nd). src = b \<and> (m = Ping (n_id nd) \<or> m = FindPeer (n_id nd)) \<or> a = b \<and> genuine ids src m) \<and>
     (\<forall>(dst, m) \<in> set (n_outbox nd). dst = b \<and> genuine ids a m)"

definition net_auth :: "socket_addr \<Rightarrow> net \<Rightarrow> bool" where
  "net_auth b n \<longleftrightarrow> (\<forall>a nd. nodes n a = Some nd \<longrightarrow> node_ok (id_at n) b a nd) \<and>
     (\<forall>(src, dst, m) \<in> set (flight n). dst = b \<and> genuine (id_at n) src m)"

lemma id_at_update:
  "nodes n a = Some nd \<Longrightarrow> n_id nd' = n_id nd \<Longrightarrow> id_at (n\<lparr>nodes := (nodes n)(a \<mapsto> nd')\<rparr>) = id_at n"
  by (auto simp: id_at_def)

lemma id_at_more [simp]:
  "id_at (n\<lparr>joined := j\<rparr>) = id_at n" "id_at (n\<lparr>waiting := w\<rparr>) = id_at n" "id_at (n\<lparr>flight := fl\<rparr>) = id_at n"
  by (simp_all add: id_at_def fun_eq_iff)

text \<open>Handling a message keeps a node well-formed, whatever it answers.\<close>

lemma node_ok_handle:
  assumes ok: "node_ok ids b a nd" and box: "n_inbox nd = (src, msg) # q" and id: "ids a = Some (n_id nd)"
    and rs: "answers (n_id nd) 16 (n_view nd) msg rs"
  shows "node_ok ids b a (nd\<lparr>n_inbox := q, n_outbox := n_outbox nd @ map (Pair src) rs,
    n_view := learns (src, msg) (n_view nd)\<rparr>)"
proof -
  from ok box have "src = b \<and> (msg = Ping (n_id nd) \<or> msg = FindPeer (n_id nd)) \<or> a = b \<and> genuine ids src msg"
    by (simp add: node_ok_def)
  then consider (ping) "src = b" "msg = Ping (n_id nd)" | (find) "src = b" "msg = FindPeer (n_id nd)"
    | (pong) p where "a = b" "msg = Pong p" "ids src = Some p"
    | (found) p x where "msg = FindPeerResponsePeerFound p x"
    by (cases msg) auto
  then show ?thesis
  proof cases
    case find
    then show ?thesis using ok box rs id by (auto simp: node_ok_def)
  qed (use ok box rs id in \<open>auto simp: node_ok_def\<close>)
qed

lemma net_auth_update:
  assumes "net_auth b n" and "nodes n a = Some nd" and "n_id nd' = n_id nd"
    and "node_ok (id_at n) b a nd'" and "\<And>src dst m. (src, dst, m) \<in> set fl \<Longrightarrow> dst = b \<and> genuine (id_at n) src m"
  shows "net_auth b (n\<lparr>nodes := (nodes n)(a \<mapsto> nd'), flight := fl\<rparr>)"
  using assms(1,4,5) by (auto simp: net_auth_def id_at_update [OF assms(2,3)])

lemma net_auth_node: "net_auth b n \<Longrightarrow> nodes n a = Some nd \<Longrightarrow> node_ok (id_at n) b a nd"
  by (simp add: net_auth_def)

lemma net_auth_flight: "net_auth b n \<Longrightarrow> (src, dst, m) \<in> set (flight n) \<Longrightarrow> dst = b \<and> genuine (id_at n) src m"
  by (auto simp: net_auth_def)

lemma net_step_ids: "net_step n n' \<Longrightarrow> id_at n' = id_at n"
  by (cases rule: net_step.cases) (auto simp: id_at_update)

lemma net_auth_step:
  assumes auth: "net_auth b n" and "net_step n n'"
  shows "net_auth b n'"
  using assms(2)
proof (cases rule: net_step.cases)
  case (handle a nd src msg q rs)
  have "id_at n a = Some (n_id nd)" using handle(2) by (simp add: id_at_def)
  from node_ok_handle [OF net_auth_node [OF auth handle(2)] handle(3) this handle(4)] show ?thesis
    using net_auth_update [OF auth handle(2), of _ "flight n"] net_auth_flight [OF auth] handle(1) by simp
next
  case (collect a nd dst msg out)
  note ok = net_auth_node [OF auth collect(3)]
  then have "node_ok (id_at n) b a (nd\<lparr>n_outbox := out\<rparr>)" "dst = b \<and> genuine (id_at n) a msg"
    using collect(4) by (auto simp: node_ok_def)
  then show ?thesis
    unfolding collect(1) using net_auth_flight [OF auth] by (intro net_auth_update [OF auth collect(3)]) auto
next
  case (deliver src dst msg fl nd)
  have "dst = b" "genuine (id_at n) src msg" using net_auth_flight [OF auth, of src dst msg] deliver(2) by auto
  then have "node_ok (id_at n) b dst (nd\<lparr>n_inbox := n_inbox nd @ [(src, msg)]\<rparr>)"
    using net_auth_node [OF auth deliver(4)] by (auto simp: node_ok_def)
  then show ?thesis
    unfolding deliver(1) using net_auth_flight [OF auth] deliver(2) by (intro net_auth_update [OF auth deliver(4)]) auto
qed (use auth in \<open>auto simp: net_auth_def\<close>)

subsection \<open>No introduction is lost\<close>

text \<open>
  A node's introduction to the bootstrap node \<open>b\<close> is on its way or has arrived: the \<open>Ping\<close> that
  triggers it is in the node's inbox, its \<open>Pong\<close> is in its outbox, in flight or in the inbox of
  \<open>b\<close>, or \<open>b\<close> knows the node's id.
\<close>

definition introduced :: "socket_addr \<Rightarrow> net \<Rightarrow> socket_addr \<Rightarrow> net_node \<Rightarrow> bool" where
  "introduced b n a nd \<longleftrightarrow>
     (b, Ping (n_id nd)) \<in> set (n_inbox nd) \<or> (b, Pong (n_id nd)) \<in> set (n_outbox nd) \<or>
     (a, b, Pong (n_id nd)) \<in> set (flight n) \<or>
     (\<exists>bn. nodes n b = Some bn \<and> ((a, Pong (n_id nd)) \<in> set (n_inbox bn) \<or> n_view bn (n_id nd) \<noteq> None))"

definition net_prog :: "socket_addr \<Rightarrow> net \<Rightarrow> bool" where
  "net_prog b n \<longleftrightarrow> net_auth b n \<and> b \<in> dom (nodes n) \<and>
     (b \<in> joined n \<or> joined n = {} \<and> flight n = [] \<and> (\<exists>rest. waiting n = b # rest)) \<and>
     (\<forall>a nd. nodes n a = Some nd \<longrightarrow> introduced b n a nd)"

lemma introduced_handle:
  assumes intro: "\<And>a nd. nodes n a = Some nd \<Longrightarrow> introduced b n a nd"
    and c: "nodes n c = Some nc" "n_inbox nc = (src, msg) # q" "answers (n_id nc) 16 (n_view nc) msg rs"
    and n': "n' = n\<lparr>nodes := (nodes n)(c \<mapsto> nc\<lparr>n_inbox := q, n_outbox := n_outbox nc @ map (Pair src) rs,
      n_view := learns (src, msg) (n_view nc)\<rparr>)\<rparr>"
    and a: "nodes n' a = Some nd"
  shows "introduced b n' a nd"
proof -
  define nc' where "nc' = nc\<lparr>n_inbox := q, n_outbox := n_outbox nc @ map (Pair src) rs,
      n_view := learns (src, msg) (n_view nc)\<rparr>"
  obtain nd0 where nd0: "nodes n a = Some nd0" "n_id nd = n_id nd0" "a \<noteq> c \<Longrightarrow> nd = nd0" "a = c \<Longrightarrow> nd0 = nc \<and> nd = nc'"
    using a c(1) by (auto simp: n' nc'_def split: if_splits)
  have out: "set (n_outbox nd0) \<subseteq> set (n_outbox nd)" using nd0(3,4) by (cases "a = c") (auto simp: nc'_def)
  have box: "(x, m) \<in> set q" if "(x, m) \<in> set (n_inbox nc)" "(x, m) \<noteq> (src, msg)" for x m using that c(2) by auto
  from intro [OF nd0(1)] consider "(b, Ping (n_id nd)) \<in> set (n_inbox nd0)" | "(b, Pong (n_id nd)) \<in> set (n_outbox nd0)"
    | "(a, b, Pong (n_id nd)) \<in> set (flight n)"
    | bn where "nodes n b = Some bn" "(a, Pong (n_id nd)) \<in> set (n_inbox bn) \<or> n_view bn (n_id nd) \<noteq> None"
    unfolding introduced_def nd0(2) by blast
  then show ?thesis
  proof cases
    case 1
    have "(b, Ping (n_id nd)) \<in> set (n_inbox nd) \<or> (b, Pong (n_id nd)) \<in> set (n_outbox nd)"
    proof (cases "a = c")
      case True
      note eqs = nd0(4) [OF True]
      show ?thesis
      proof (cases "(b, Ping (n_id nd)) = (src, msg)")
        case True
        then have "Pong (n_id nd) \<in> set rs" using c(3) nd0(2) eqs by auto
        then show ?thesis using True eqs by (simp add: nc'_def)
      next
        case False
        then show ?thesis using 1 eqs box by (auto simp: nc'_def)
      qed
    qed (use 1 nd0(3) in simp)
    then show ?thesis by (auto simp: introduced_def)
  next
    case (4 bn)
    have learned: "learns (src, msg) (n_view nc) (n_id nd) \<noteq> None" if "msg = Pong (n_id nd)" using that by simp
    from 4 have "\<exists>bn'. nodes n' b = Some bn' \<and> ((a, Pong (n_id nd)) \<in> set (n_inbox bn') \<or> n_view bn' (n_id nd) \<noteq> None)"
      using c(1) box [of a "Pong (n_id nd)"] learns_keeps [of "n_view nc" "n_id nd" "(src, msg)"]
        learned by (cases "msg = Pong (n_id nd)"; cases "b = c") (auto simp: n')
    then show ?thesis by (simp add: introduced_def)
  qed (use out in \<open>auto simp: introduced_def n'\<close>)
qed

lemma introduced_collect:
  assumes intro: "\<And>a nd. nodes n a = Some nd \<Longrightarrow> introduced b n a nd"
    and c: "nodes n c = Some nc" "n_outbox nc = (dst, msg) # out"
    and n': "n' = n\<lparr>nodes := (nodes n)(c \<mapsto> nc\<lparr>n_outbox := out\<rparr>), flight := flight n @ [(c, dst, msg)]\<rparr>"
    and a: "nodes n' a = Some nd"
  shows "introduced b n' a nd"
proof (cases "a = c")
  case True
  then have nd: "nd = nc\<lparr>n_outbox := out\<rparr>" using a by (simp add: n')
  show ?thesis using intro [OF c(1)] c True by (auto simp: introduced_def nd n')
next
  case False
  then have "nodes n a = Some nd" using a by (simp add: n')
  then show ?thesis using intro [of a nd] c False by (auto simp: introduced_def n')
qed

lemma introduced_deliver:
  assumes intro: "\<And>a nd. nodes n a = Some nd \<Longrightarrow> introduced b n a nd"
    and c: "nodes n b = Some bn" "flight n = (src, b, msg) # fl"
    and n': "n' = n\<lparr>nodes := (nodes n)(b \<mapsto> bn\<lparr>n_inbox := n_inbox bn @ [(src, msg)]\<rparr>), flight := fl\<rparr>"
    and a: "nodes n' a = Some nd"
  shows "introduced b n' a nd"
proof (cases "a = b")
  case True
  then have nd: "nd = bn\<lparr>n_inbox := n_inbox bn @ [(src, msg)]\<rparr>" using a by (simp add: n')
  show ?thesis using intro [OF c(1)] c True by (auto simp: introduced_def nd n')
next
  case False
  then have "nodes n a = Some nd" using a by (simp add: n')
  then show ?thesis using intro [of a nd] c False by (auto simp: introduced_def n')
qed

lemma net_prog_step:
  assumes "net_prog b n" and step: "net_step n n'"
  shows "net_prog b n'"
proof -
  have auth: "net_auth b n" and intro: "\<And>a nd. nodes n a = Some nd \<Longrightarrow> introduced b n a nd"
    and b: "b \<in> dom (nodes n)"
    and phase: "b \<in> joined n \<or> joined n = {} \<and> flight n = [] \<and> (\<exists>rest. waiting n = b # rest)"
    using assms(1) by (auto simp: net_prog_def)
  note auth' = net_auth_step [OF auth step]
  show ?thesis
    using step
  proof (cases rule: net_step.cases)
    case (join a rest)
    then show ?thesis using auth' intro b phase by (auto simp: net_prog_def introduced_def)
  next
    case (handle a nd src msg q rs)
    then show ?thesis using auth' b phase introduced_handle [OF intro handle(2-4,1)] by (auto simp: net_prog_def)
  next
    case (collect a nd dst msg out)
    then show ?thesis using auth' b phase introduced_collect [OF intro collect(3,4,1)] by (auto simp: net_prog_def)
  next
    case (deliver src dst msg fl nd)
    then have "dst = b" using net_auth_flight [OF auth, of src dst msg] by simp
    then show ?thesis
      using auth' b phase deliver introduced_deliver [OF intro, of nd src msg fl n'] by (auto simp: net_prog_def)
  next
    case (lose src dst msg fl)
    then show ?thesis using phase net_auth_flight [OF auth, of src dst msg] by auto
  qed
qed

text \<open>A network nobody has joined yet, as \<open>add_new_worker\<close> prepares its nodes.\<close>

definition net_init :: "socket_addr \<Rightarrow> net \<Rightarrow> bool" where
  "net_init b n \<longleftrightarrow> joined n = {} \<and> flight n = [] \<and>
     (\<forall>a nd. nodes n a = Some nd \<longrightarrow> n_inbox nd = [(b, Ping (n_id nd)), (b, FindPeer (n_id nd))] \<and>
        n_outbox nd = [] \<and> n_view nd = [n_id nd \<mapsto> a])"

definition net_init_first :: "socket_addr \<Rightarrow> net \<Rightarrow> bool" where
  "net_init_first b n \<longleftrightarrow> net_init b n \<and> b \<in> dom (nodes n) \<and> (\<exists>rest. waiting n = b # rest)"

lemma net_init_auth: "net_init b n \<Longrightarrow> net_auth b n"
  by (auto simp: net_init_def net_auth_def node_ok_def id_at_def)

interpretation authentic: inductive_invariant "net_init b" net_step "net_auth b" for b
  by unfold_locales (auto intro: net_init_auth net_auth_step)

interpretation progress: inductive_invariant "net_init_first b" net_step "net_prog b" for b
proof unfold_locales
  fix n assume "net_init_first b n"
  then show "net_prog b n" using net_init_auth [of b n]
    by (auto simp: net_init_first_def net_prog_def net_init_def introduced_def)
qed (rule net_prog_step)

subsection \<open>The simulator refines the network\<close>

definition node_of :: "worker \<Rightarrow> net_node" where
  "node_of w = \<lparr>n_id = w_peer_id w, n_inbox = inbox w, n_outbox = ch_queue (outbox w), n_view = worker_view w\<rparr>"

definition net_of :: "'r sim_run \<Rightarrow> net" where
  "net_of s = \<lparr>nodes = (\<lambda>a. map_option (\<lambda>h. node_of (sim_threads s ! h)) (map_of (homes s) a)),
     joined = dom (hm_get (sim_workers s)), waiting = map fst (rev (worker_add_queue s)), flight = messages s\<rparr>"

text \<open>The simulator's invariant, with one worker per address.\<close>

definition addr_inv :: "'r sim_run \<Rightarrow> bool" where
  "addr_inv s \<longleftrightarrow> sim_inv s \<and> distinct (map fst (homes s))"

lemma net_of_simps [simp]:
  "joined (net_of s) = dom (hm_get (sim_workers s))" "waiting (net_of s) = map fst (rev (worker_add_queue s))"
  "flight (net_of s) = messages s"
  "nodes (net_of s) a = map_option (\<lambda>h. node_of (sim_threads s ! h)) (map_of (homes s) a)"
  by (simp_all add: net_of_def)

lemma net_of_pc [simp]: "net_of (s\<lparr>pc := p\<rparr>) = net_of s" "net_of (s\<lparr>clock := c\<rparr>) = net_of s"
  by (simp_all add: net_of_def)

lemma addr_inv_home: "addr_inv s \<Longrightarrow> (a, h) \<in> set (homes s) \<Longrightarrow> map_of (homes s) a = Some h"
  by (simp add: addr_inv_def)

lemma net_of_thread:
  assumes "addr_inv s" and home: "(a, h) \<in> set (homes s)"
  shows "net_of (s\<lparr>sim_threads := (sim_threads s)[h := w]\<rparr>) = (net_of s)\<lparr>nodes := (nodes (net_of s))(a \<mapsto> node_of w)\<rparr>"
proof -
  have other: "h' \<noteq> h" if "map_of (homes s) x = Some h'" "x \<noteq> a" for x h'
  proof
    assume "h' = h"
    then have "(x, h) \<in> set (homes s)" using that by (auto dest: map_of_SomeD)
    moreover have "inj_on snd (set (homes s))" using assms(1) by (simp add: addr_inv_def sim_inv_def distinct_map)
    ultimately show False using home \<open>x \<noteq> a\<close> inj_onD [of snd "set (homes s)" "(x, h)" "(a, h)"] by auto
  qed
  have "h < length (sim_threads s)" using assms sim_inv_home by (auto simp: addr_inv_def)
  then have "map_option (\<lambda>h'. node_of ((sim_threads s)[h := w] ! h')) (map_of (homes s) x) =
      ((nodes (net_of s))(a \<mapsto> node_of w)) x" for x
    using addr_inv_home [OF assms] other [of x] by (cases "map_of (homes s) x") auto
  then show ?thesis by (simp add: net_of_def fun_eq_iff)
qed

lemma net_of_stray:
  assumes "h \<notin> snd ` set (homes s)"
  shows "net_of (s\<lparr>sim_threads := (sim_threads s)[h := w]\<rparr>) = net_of s"
proof -
  have "h \<noteq> h'" if "map_of (homes s) x = Some h'" for x h' using that assms by (force dest: map_of_SomeD)
  then have "map_option (\<lambda>h'. node_of ((sim_threads s)[h := w] ! h')) (map_of (homes s) x) =
      map_option (\<lambda>h'. node_of (sim_threads s ! h')) (map_of (homes s) x)" for x
    by (cases "map_of (homes s) x") simp_all
  then show ?thesis by (simp add: net_of_def)
qed

lemma alist_update_new: "k \<notin> fst ` set al \<Longrightarrow> AList.update k v al = al @ [(k, v)]"
  by (induction al) auto

text \<open>A worker that is due joins with its address, which no other worker has.\<close>

lemma add_worker_net:
  assumes inv: "addr_inv s" and q: "worker_add_queue s = q @ [(a, h, d)]"
  defines "s' \<equiv> add_worker a h (s\<lparr>worker_add_queue := q\<rparr>)"
  shows "mset (homes s') = mset (homes s) \<and> net_step (net_of s) (net_of s')"
proof -
  let ?q = "map (\<lambda>(a, h, _). (a, h)) q"
  have homes: "homes s = hm_entries (sim_workers s) @ ?q @ [(a, h)]" by (simp add: homes_def q)
  then have new: "a \<notin> fst ` set (hm_entries (sim_workers s))" using inv by (auto simp: addr_inv_def)
  then have get: "hm_get (sim_workers s) a = None" by (simp add: hm_get_def map_of_eq_None_iff)
  have s': "s' = s\<lparr>worker_add_queue := q, sim_workers := snd (hm_insert a h (sim_workers s))\<rparr>"
    by (simp add: s'_def add_worker_def hm_insert_def get)
  have homes': "homes s' = hm_entries (sim_workers s) @ [(a, h)] @ ?q"
    using new by (simp add: s' homes_def hm_insert_def alist_update_new)
  have perm: "mset (homes s') = mset (homes s)" by (simp add: homes homes')
  have keys: "distinct (map fst (homes s))" "distinct (map fst (homes s'))"
    using inv mset_eq_imp_distinct_iff [of "map fst (homes s')" "map fst (homes s)"] perm by (simp_all add: addr_inv_def)
  have "map_of (homes s') = map_of (homes s)"
    using map_of_inject_set [OF keys(2,1)] mset_eq_setD [OF perm] by blast
  then have "net_of s' = (net_of s)\<lparr>waiting := map fst (rev q), joined := insert a (joined (net_of s))\<rparr>"
    by (simp add: net_of_def s')
  then show ?thesis using perm join [of "net_of s" a "map fst (rev q)"] by (simp add: q)
qed

lemma collect_one_net:
  assumes inv: "addr_inv s" and home: "hm_get (sim_workers s) src = Some h"
  shows "net_of (collect_one src h todo s) = net_of s \<or> net_step (net_of s) (net_of (collect_one src h todo s))"
proof -
  let ?w = "sim_threads s ! h"
  note here = hm_get_home [OF home]
  have node: "nodes (net_of s) src = Some (node_of ?w)" using addr_inv_home [OF inv here] by simp
  show ?thesis
  proof (cases "worker_sent ?w")
    case Nil
    then show ?thesis by (simp add: collect_one_def recv_message_eq)
  next
    case (Cons x xs)
    obtain dst msg where x: "x = (dst, msg)" by fastforce
    let ?w' = "?w\<lparr>outbox := (outbox ?w)\<lparr>ch_queue := xs\<rparr>\<rparr>"
    have "collect_one src h todo s =
        s\<lparr>sim_threads := (sim_threads s)[h := ?w'], messages := messages s @ [(src, dst, msg)]\<rparr>"
      by (simp add: collect_one_def recv_message_eq Cons x)
    then have "net_of (collect_one src h todo s) =
        (net_of (s\<lparr>sim_threads := (sim_threads s)[h := ?w']\<rparr>))\<lparr>flight := messages s @ [(src, dst, msg)]\<rparr>"
      by (simp add: net_of_def)
    also have "\<dots> = (net_of s)\<lparr>nodes := (nodes (net_of s))(src \<mapsto> (node_of ?w)\<lparr>n_outbox := xs\<rparr>),
        flight := flight (net_of s) @ [(src, dst, msg)]\<rparr>"
      unfolding net_of_thread [OF inv here] by (simp add: node_of_def)
    finally show ?thesis
      using collect [of src "net_of s" "node_of ?w" dst msg xs] node home Cons x by (auto simp: node_of_def)
  qed
qed

lemma deliver_one_net:
  assumes inv: "addr_inv s" and ms: "messages s = (src, dst, msg) # ms"
  shows "net_step (net_of s) (net_of (deliver_one (src, dst, msg) (s\<lparr>messages := ms\<rparr>)))"
proof (cases "hm_get (sim_workers s) dst")
  case None
  have "net_of (s\<lparr>messages := ms\<rparr>) = (net_of s)\<lparr>flight := ms\<rparr>" by (simp add: net_of_def)
  then show ?thesis using lose [of "net_of s" src dst msg ms] None ms by (simp add: deliver_one_def domIff)
next
  case (Some h)
  let ?w = "sim_threads s ! h"
  note here = hm_get_home [OF Some]
  have "alive ?w" using inv sim_inv_home [OF _ here] by (simp add: addr_inv_def)
  from message_via_alive [OF this, of src msg] obtain w where
    w: "message_via src msg ?w = Inr w" "node_of w = (node_of ?w)\<lparr>n_inbox := inbox ?w @ [(src, msg)]\<rparr>"
    by (auto simp: node_of_def)
  have "net_of (deliver_one (src, dst, msg) (s\<lparr>messages := ms\<rparr>)) =
      (net_of (s\<lparr>sim_threads := (sim_threads s)[h := w]\<rparr>))\<lparr>flight := ms\<rparr>"
    by (simp add: deliver_one_def Some w(1) net_of_def)
  also have "\<dots> = (net_of s)\<lparr>nodes := (nodes (net_of s))(dst \<mapsto> (node_of ?w)\<lparr>n_inbox := n_inbox (node_of ?w) @ [(src, msg)]\<rparr>),
      flight := ms\<rparr>"
    unfolding net_of_thread [OF inv here] w(2) by (simp add: node_of_def)
  finally show ?thesis
    using deliver [of "net_of s" src dst msg ms "node_of ?w"] addr_inv_home [OF inv here] Some ms by (simp add: domIff)
qed

lemma main_step_net:
  assumes inv: "addr_inv s" and step: "main_step now s = Some s'"
  shows "mset (homes s') = mset (homes s) \<and> (net_of s' = net_of s \<or> net_step (net_of s) (net_of s'))"
proof (cases "pc s")
  case Adding
  have "mset (homes (add_due now s)) = mset (homes s) \<and>
      (net_of (add_due now s) = net_of s \<or> net_step (net_of s) (net_of (add_due now s)))"
  proof (cases "worker_add_queue s" rule: rev_cases)
    case (snoc q ahd)
    obtain a h d where "ahd = (a, h, d)" by (cases ahd)
    then show ?thesis using snoc add_worker_net [OF inv, of q a h d] by (simp add: add_due_snoc)
  qed (simp add: add_due_def)
  then show ?thesis using step by (auto simp: main_step_def Adding Let_def)
next
  case (Collecting todo)
  have sub: "set todo \<subseteq> set (hm_entries (sim_workers s))" and wf: "hm_wf (sim_workers s)"
    using inv by (simp_all add: addr_inv_def sim_inv_def Collecting)
  show ?thesis
  proof (cases todo)
    case (Cons ah rest)
    obtain a h where ah: "ah = (a, h)" by fastforce
    then have "hm_get (sim_workers s) a = Some h" using sub wf Cons by (simp add: hm_get_def hm_wf_def)
    then show ?thesis
      using step collect_one_net [OF inv, of a h rest]
      by (auto simp: main_step_def Collecting Cons ah collect_one_def Let_def split: prod.splits sum.splits)
  qed (use step in \<open>auto simp: main_step_def Collecting\<close>)
next
  case Delivering
  show ?thesis
  proof (cases "messages s")
    case (Cons m ms)
    obtain src dst msg where m: "m = (src, dst, msg)" by (cases m)
    then have s': "s' = deliver_one (src, dst, msg) (s\<lparr>messages := ms\<rparr>)"
      using step by (simp add: main_step_def Delivering Cons)
    have "homes s' = homes s" unfolding s' by (simp add: deliver_one_def split: option.splits sum.splits)
    then show ?thesis using deliver_one_net [OF inv, of src dst msg ms] Cons m s' by simp
  qed (use step in \<open>auto simp: main_step_def Delivering\<close>)
qed (use step in \<open>simp add: main_step_def\<close>)

lemma thread_turn_net:
  assumes inv: "addr_inv s" and step: "worker_step (sim_threads s ! h) = Some w" and home: "h \<in> snd ` set (homes s)"
  defines "s' \<equiv> s\<lparr>sim_threads := (sim_threads s)[h := w]\<rparr>"
  shows "net_step (net_of s) (net_of s')"
proof -
  let ?w = "sim_threads s ! h"
  from home obtain a where here: "(a, h) \<in> set (homes s)" by force
  then have "alive ?w" using inv sim_inv_home by (auto simp: addr_inv_def)
  from worker_step_alive [OF this step] obtain src msg rs where
    w: "inbox ?w = (src, msg) # inbox w" "answers (w_peer_id ?w) 16 (worker_view ?w) msg rs"
      "node_of w = (node_of ?w)\<lparr>n_inbox := inbox w, n_outbox := n_outbox (node_of ?w) @ map (Pair src) rs,
        n_view := learns (src, msg) (n_view (node_of ?w))\<rparr>"
    by (auto simp: node_of_def)
  have "net_of s' = (net_of s)\<lparr>nodes := (nodes (net_of s))(a \<mapsto> node_of w)\<rparr>"
    unfolding s'_def by (rule net_of_thread [OF inv here])
  then show ?thesis
    using handle [of "net_of s" a "node_of ?w" src msg "inbox w" rs] addr_inv_home [OF inv here] w by (simp add: node_of_def)
qed

lemma sim_step_homes:
  assumes inv: "addr_inv s" and step: "sim_step s s'"
  shows "mset (homes s') = mset (homes s) \<and> (net_of s' = net_of s \<or> net_step (net_of s) (net_of s'))"
  using step
proof (cases rule: sim_step.cases)
  case (main_turn now)
  then show ?thesis using main_step_net [OF inv] by blast
next
  case (thread_turn h w)
  then show ?thesis using thread_turn_net [OF inv, of h w] net_of_stray [of h s w] by auto
qed

lemma sim_step_net:
  assumes inv: "addr_inv s" and step: "sim_step s s'"
  shows "addr_inv s' \<and> (net_of s' = net_of s \<or> net_step (net_of s) (net_of s'))"
proof -
  note homes = sim_step_homes [OF assms]
  then have "distinct (map fst (homes s'))"
    using inv mset_eq_imp_distinct_iff [of "map fst (homes s')" "map fst (homes s)"] by (simp add: addr_inv_def)
  then show ?thesis using inv sim_step_inv [OF _ step] homes by (simp add: addr_inv_def)
qed

lemma sim_steps_net:
  assumes "addr_inv s" and "sim_step\<^sup>*\<^sup>* s s'"
  shows "addr_inv s' \<and> net_step\<^sup>*\<^sup>* (net_of s) (net_of s')"
  using assms(2,1)
proof (induction rule: rtranclp_induct)
  case (step s1 s2)
  then show ?case using sim_step_net [of s1 s2] by (metis rtranclp.rtrancl_into_rtrancl)
qed simp

subsection \<open>The start of a run\<close>

text \<open>
  The setups the properties speak of: workers with distinct addresses, and for the last one the
  bootstrap address among them with a delay below all others.
\<close>

definition distinct_addresses :: "'r externals \<Rightarrow> (string \<times> nat) list \<Rightarrow> bool" where
  "distinct_addresses e specs \<longleftrightarrow> distinct (map (\<lambda>(addr, _). the (addr_of e addr)) specs)"

definition bootstrap_first :: "'r externals \<Rightarrow> string \<Rightarrow> (string \<times> nat) list \<Rightarrow> bool" where
  "bootstrap_first e boot specs \<longleftrightarrow>
     (\<exists>(addr0, d0) \<in> set specs. addr_of e addr0 = addr_of e boot \<and>
        (\<forall>(addr, d) \<in> set specs. addr_of e addr \<noteq> addr_of e boot \<longrightarrow> d0 < d))"

lemma sort_queue_last:
  assumes "(b, h, d0) \<in> set q" and "\<And>a h d. (a, h, d) \<in> set q \<Longrightarrow> a \<noteq> b \<Longrightarrow> d0 < d"
  shows "\<exists>rest. map fst (rev (sort_queue q)) = b # rest"
proof (cases "sort_queue q" rule: rev_cases)
  case Nil
  then have "set q = {}" unfolding sort_queue_def by (metis list.set(1) set_sort)
  then show ?thesis using assms(1) by simp
next
  case (snoc ys z)
  obtain a h' d where z: "z = (a, h', d)" by (cases z)
  have set: "set (ys @ [z]) = set q" unfolding snoc [symmetric] sort_queue_def by simp
  have "sorted (map (\<lambda>(_, _, d). - int d) (ys @ [z]))" unfolding snoc [symmetric] sort_queue_def by simp
  then have "d \<le> d0" using assms(1) unfolding set [symmetric] by (auto simp: sorted_append z)
  then have "a = b" using assms(2) [of a h' d] set z by force
  then show ?thesis by (simp add: snoc z)
qed

lemma net_init_run_start:
  assumes "externals_ok e" and "sim_setup e boot specs = Inr sim" and "distinct_addresses e specs"
    and b: "addr_of e boot = Some b"
  shows "addr_inv (run_start sim) \<and> net_init b (net_of (run_start sim))"
proof -
  from sim_setup_ok [OF assms(1,2)] b have ok: "setup_ok b sim"
    and queue: "map (\<lambda>(a, h, d). (a, d)) (worker_add_queue sim) = map (\<lambda>(addr, d). (the (addr_of e addr), d)) specs"
    by auto
  have "map fst (worker_add_queue sim) = map (\<lambda>(addr, _). the (addr_of e addr)) specs"
    using arg_cong [OF queue, of "map fst"] by (simp add: comp_def case_prod_beta)
  then have "distinct (map fst (worker_add_queue sim))" using assms(3) by (simp add: distinct_addresses_def)
  moreover have "mset (map fst (homes (run_start sim))) = mset (map fst (worker_add_queue sim))"
    using homes_run_start [OF ok] by (auto simp: image_mset.compositionality intro!: image_mset_cong)
  ultimately have inv: "addr_inv (run_start sim)"
    using sim_inv_run_start [OF ok] mset_eq_imp_distinct_iff by (metis addr_inv_def)
  have "n_inbox nd = [(b, Ping (n_id nd)), (b, FindPeer (n_id nd))] \<and> n_outbox nd = [] \<and> n_view nd = [n_id nd \<mapsto> a]"
    if nd: "nodes (net_of (run_start sim)) a = Some nd" for a nd
  proof -
    from nd obtain h where h: "(a, h) \<in> set (homes (run_start sim))" "nd = node_of (sim_threads sim ! h)"
      by (auto simp: run_start_def dest: map_of_SomeD)
    then obtain d where "(a, h, d) \<in> set (worker_add_queue sim)" using set_homes_run_start [OF ok] by auto
    then have "fresh b a (sim_threads sim ! h)" using ok by (auto simp: setup_ok_def)
    then show ?thesis by (simp add: h(2) fresh_def node_of_def)
  qed
  moreover have "hm_get (sim_workers (run_start sim)) = Map.empty"
    using ok by (simp add: run_start_def setup_ok_def hm_get_def fun_eq_iff)
  ultimately show ?thesis using inv by (simp add: net_init_def run_start_def)
qed

lemma net_init_first_run_start:
  assumes "externals_ok e" and "sim_setup e boot specs = Inr sim" and "distinct_addresses e specs"
    and b: "addr_of e boot = Some b" and first: "bootstrap_first e boot specs"
  shows "net_init_first b (net_of (run_start sim))"
proof -
  note init = net_init_run_start [OF assms(1-4)]
  from sim_setup_ok [OF assms(1,2)] b have ok: "setup_ok b sim"
    and queue: "map (\<lambda>(a, h, d). (a, d)) (worker_add_queue sim) = map (\<lambda>(addr, d). (the (addr_of e addr), d)) specs"
    by auto
  have parsed: "\<forall>(addr, _) \<in> set specs. addr_of e addr \<noteq> None" using sim_setup_iff [OF assms(1)] assms(2) by blast
  have mem: "(\<exists>h. (a, h, d) \<in> set (worker_add_queue sim)) \<longleftrightarrow> (\<exists>addr. (addr, d) \<in> set specs \<and> addr_of e addr = Some a)" for a d
  proof -
    have "(\<exists>h. (a, h, d) \<in> set (worker_add_queue sim)) \<longleftrightarrow> (a, d) \<in> set (map (\<lambda>(a, h, d). (a, d)) (worker_add_queue sim))"
      by force
    also have "\<dots> \<longleftrightarrow> (\<exists>addr. (addr, d) \<in> set specs \<and> the (addr_of e addr) = a)"
      unfolding queue by force
    also have "\<dots> \<longleftrightarrow> (\<exists>addr. (addr, d) \<in> set specs \<and> addr_of e addr = Some a)"
      using parsed by (metis (mono_tags, lifting) case_prodD option.exhaust_sel option.sel)
    finally show ?thesis .
  qed
  from first obtain d0 where d0: "\<exists>addr. (addr, d0) \<in> set specs \<and> addr_of e addr = Some b"
      "\<And>addr d. (addr, d) \<in> set specs \<Longrightarrow> addr_of e addr \<noteq> Some b \<Longrightarrow> d0 < d"
    unfolding bootstrap_first_def b by fastforce
  from d0(1) obtain h where h: "(b, h, d0) \<in> set (worker_add_queue sim)" using mem by blast
  have "d0 < d" if "(a, h', d) \<in> set (worker_add_queue sim)" "a \<noteq> b" for a h' d
    using mem [of a d] that d0(2) by force
  from sort_queue_last [OF h this] have "\<exists>rest. waiting (net_of (run_start sim)) = b # rest"
    by (simp add: run_start_def)
  moreover have "(b, h) \<in> set (homes (run_start sim))" using set_homes_run_start [OF ok] h by force
  then have "b \<in> dom (nodes (net_of (run_start sim)))" using init addr_inv_home by fastforce
  ultimately show ?thesis using init by (simp add: net_init_first_def)
qed

subsection \<open>The traffic is bounded\<close>

text \<open>
  What is left to do for a message: a request in an inbox (4) becomes a reply in an outbox (3), in
  flight (2) and in an inbox (1).
\<close>

definition inbox_work :: "(socket_addr \<times> message) list \<Rightarrow> nat" where
  "inbox_work box = sum_list (map (\<lambda>(_, m). if wants_reply m then 4 else 1) box)"

definition node_work :: "net_node option \<Rightarrow> nat" where
  "node_work x = (case x of None \<Rightarrow> 0 | Some nd \<Rightarrow> inbox_work (n_inbox nd) + 3 * length (n_outbox nd))"

definition net_work :: "socket_addr set \<Rightarrow> net \<Rightarrow> nat" where
  "net_work D n = (\<Sum>a\<in>D. node_work (nodes n a)) + 2 * length (flight n) + length (waiting n)"

lemma net_work_update:
  assumes "finite D" and "a \<in> D"
  shows "net_work D (n\<lparr>nodes := (nodes n)(a \<mapsto> nd), flight := fl\<rparr>) + node_work (nodes n a) + 2 * length (flight n) =
    net_work D n + node_work (Some nd) + 2 * length fl"
proof -
  have "(\<Sum>x\<in>D. node_work (((nodes n)(a \<mapsto> nd)) x)) = node_work (Some nd) + (\<Sum>x\<in>D - {a}. node_work (nodes n x))"
    by (simp add: sum.remove [OF assms])
  moreover have "(\<Sum>x\<in>D. node_work (nodes n x)) = node_work (nodes n a) + (\<Sum>x\<in>D - {a}. node_work (nodes n x))"
    by (rule sum.remove [OF assms])
  ultimately show ?thesis unfolding net_work_def by simp
qed

lemma answers_work:
  assumes ok: "node_ok ids b a nd" and box: "n_inbox nd = (src, msg) # q" and rs: "answers (n_id nd) 16 (n_view nd) msg rs"
  shows "3 * length rs < (if wants_reply msg then 4 else 1)"
proof -
  have "msg = Ping (n_id nd) \<or> msg = FindPeer (n_id nd) \<or> genuine ids src msg"
    using ok box by (auto simp: node_ok_def)
  moreover have "\<exists>x. n_view nd (n_id nd) = Some x" using ok by (simp add: node_ok_def)
  ultimately show ?thesis using rs by (cases msg) auto
qed

lemma net_work_step:
  assumes auth: "net_auth b n" and step: "net_step n n'" and D: "finite D" "dom (nodes n) \<subseteq> D"
  shows "net_work D n' < net_work D n"
  using step
proof (cases rule: net_step.cases)
  case (handle a nd src msg q rs)
  let ?nd = "nd\<lparr>n_inbox := q, n_outbox := n_outbox nd @ map (Pair src) rs, n_view := learns (src, msg) (n_view nd)\<rparr>"
  have "a \<in> D" using handle(2) D(2) by auto
  moreover have "node_work (Some ?nd) < node_work (nodes n a)"
    using answers_work [OF net_auth_node [OF auth handle(2)] handle(3,4)] handle(2,3)
    by (simp add: node_work_def inbox_work_def)
  ultimately show ?thesis using net_work_update [OF D(1), where a = a and n = n and nd = ?nd and fl = "flight n"] handle(1) by simp
next
  case (collect a nd dst msg out)
  let ?fl = "flight n @ [(a, dst, msg)]"
  have "a \<in> D" using collect(3) D(2) by auto
  then show ?thesis
    using net_work_update [OF D(1), where a = a and n = n and nd = "nd\<lparr>n_outbox := out\<rparr>" and fl = ?fl] collect by (simp add: node_work_def)
next
  case (deliver src dst msg fl nd)
  have "dst \<in> D" using deliver(4) D(2) by auto
  moreover have "genuine (id_at n) src msg" using net_auth_flight [OF auth, of src dst msg] deliver(2) by simp
  then have "\<not> wants_reply msg" by (cases msg) auto
  ultimately show ?thesis
    using net_work_update [OF D(1), where a = dst and n = n and nd = "nd\<lparr>n_inbox := n_inbox nd @ [(src, msg)]\<rparr>" and fl = fl] deliver
    by (simp add: node_work_def inbox_work_def)
qed (simp_all add: net_work_def)

lemma net_step_dom: "net_step n n' \<Longrightarrow> dom (nodes n') = dom (nodes n)"
  by (cases rule: net_step.cases) (auto split: if_splits)

lemma net_steps_bounded:
  "(net_step ^^ k) n n' \<Longrightarrow> net_auth b n \<Longrightarrow> finite D \<Longrightarrow> dom (nodes n) \<subseteq> D \<Longrightarrow>
     k + net_work D n' \<le> net_work D n"
proof (induction k arbitrary: n')
  case (Suc k)
  then obtain n1 where n1: "(net_step ^^ k) n n1" "net_step n1 n'" by auto
  have "net_auth b n1 \<and> dom (nodes n1) \<subseteq> D"
    using n1(1) Suc.prems(2,4)
  proof (induction k arbitrary: n1)
    case (Suc k)
    then obtain m where "(net_step ^^ k) n m" "net_step m n1" by auto
    with Suc show ?case using net_auth_step net_step_dom by blast
  qed simp
  then show ?case using net_work_step [OF _ n1(2) Suc.prems(3)] Suc.IH [OF n1(1) Suc.prems(2-4)] by fastforce
qed simp

text \<open>
  A step of the simulator that only moves the loop on: no worker joins, no thread takes a turn, and
  no message is collected or delivered.
\<close>

definition only_loops :: "'r sim_run \<Rightarrow> 'r sim_run \<Rightarrow> bool" where
  "only_loops s s' \<longleftrightarrow> sim_threads s' = sim_threads s \<and> sim_workers s' = sim_workers s \<and>
     worker_add_queue s' = worker_add_queue s \<and> messages s' = messages s"

text \<open>Every thread has a handle in the map or in the queue.\<close>

definition all_homes :: "'r sim_run \<Rightarrow> bool" where
  "all_homes s \<longleftrightarrow> addr_inv s \<and> {..<length (sim_threads s)} \<subseteq> snd ` set (homes s)"

lemma sim_step_threads: "sim_step s s' \<Longrightarrow> length (sim_threads s') = length (sim_threads s)"
  by (cases rule: sim_step.cases, assumption)
    (auto simp: main_step_def add_due_def add_worker_def collect_one_def deliver_one_def Let_def
      split: sim_pc.splits list.splits prod.splits option.splits sum.splits if_splits)

lemma all_homes_step: "all_homes s \<Longrightarrow> sim_step s s' \<Longrightarrow> all_homes s'"
  using sim_step_net [of s s'] sim_step_homes [of s s'] sim_step_threads [of s s'] mset_eq_setD [of "homes s'" "homes s"]
  by (auto simp: all_homes_def)

lemma main_step_busy:
  assumes inv: "addr_inv s" and step: "main_step now s = Some s'" and busy: "\<not> only_loops s s'"
  shows "net_step (net_of s) (net_of s')"
proof (cases "pc s")
  case Adding
  show ?thesis
  proof (cases "worker_add_queue s" rule: rev_cases)
    case Nil
    then show ?thesis using step busy by (auto simp: main_step_def Adding add_due_def Let_def only_loops_def)
  next
    case (snoc q ahd)
    obtain a h d where ahd: "ahd = (a, h, d)" by (cases ahd)
    show ?thesis
    proof (cases "d < now")
      case True
      then show ?thesis using step add_worker_net [OF inv, of q a h d] snoc ahd by (auto simp: main_step_def Adding add_due_snoc Let_def)
    next
      case False
      then show ?thesis using step busy snoc ahd by (auto simp: main_step_def Adding add_due_snoc Let_def only_loops_def)
    qed
  qed
next
  case (Collecting todo)
  show ?thesis
  proof (cases todo)
    case Nil
    then show ?thesis using step busy by (auto simp: main_step_def Collecting only_loops_def)
  next
    case (Cons ah rest)
    obtain a h where ah: "ah = (a, h)" by fastforce
    have s': "s' = collect_one a h rest s" using step by (simp add: main_step_def Collecting Cons ah)
    have home: "hm_get (sim_workers s) a = Some h"
      using inv Cons ah by (auto simp: addr_inv_def sim_inv_def Collecting hm_get_def hm_wf_def)
    have "worker_sent (sim_threads s ! h) \<noteq> []"
      using busy by (auto simp: s' collect_one_def recv_message_eq only_loops_def)
    then have "messages s' \<noteq> messages s"
      by (auto simp: s' collect_one_def recv_message_eq split: list.splits)
    then have "net_of s' \<noteq> net_of s" using net_of_simps(3) by metis
    then show ?thesis using collect_one_net [OF inv home, of rest] s' by simp
  qed
next
  case Delivering
  show ?thesis
  proof (cases "messages s")
    case Nil
    then show ?thesis using step busy by (auto simp: main_step_def Delivering only_loops_def)
  next
    case (Cons m ms)
    obtain src dst msg where "m = (src, dst, msg)" by (cases m)
    then show ?thesis using step deliver_one_net [OF inv, of src dst msg ms] Cons by (auto simp: main_step_def Delivering)
  qed
qed (use step in \<open>simp add: main_step_def\<close>)

lemma sim_step_busy:
  assumes "all_homes s" and "sim_step s s'" and "\<not> only_loops s s'"
  shows "net_step (net_of s) (net_of s')"
  using assms(2)
proof (cases rule: sim_step.cases)
  case (main_turn now)
  then show ?thesis using main_step_busy assms(1,3) by (auto simp: all_homes_def)
next
  case (thread_turn h w)
  then have "h \<in> snd ` set (homes s)" using assms(1) by (auto simp: all_homes_def)
  then show ?thesis using thread_turn_net [of s h w] assms(1) thread_turn by (simp add: all_homes_def)
qed

text \<open>The steps of a run that do something, counted against the work.\<close>

lemma card_less_Suc_filter:
  "card {i. i < Suc n \<and> P i} = card {i. i < n \<and> P i} + (if P n then 1 else 0)"
proof -
  have "{i. i < Suc n \<and> P i} = (if P n then insert n {i. i < n \<and> P i} else {i. i < n \<and> P i})" by (auto simp: less_Suc_eq)
  then show ?thesis by simp
qed

lemma busy_steps_bounded:
  assumes "all_homes (ss 0)" and "net_auth b (net_of (ss 0))" and "finite D" and "dom (nodes (net_of (ss 0))) \<subseteq> D"
    and "\<And>i. i < n \<Longrightarrow> sim_step (ss i) (ss (Suc i))"
  shows "all_homes (ss n) \<and> net_auth b (net_of (ss n)) \<and> dom (nodes (net_of (ss n))) \<subseteq> D \<and>
    card {i. i < n \<and> \<not> only_loops (ss i) (ss (Suc i))} + net_work D (net_of (ss n)) \<le> net_work D (net_of (ss 0))"
  using assms(5)
proof (induction n)
  case (Suc n)
  then have IH: "all_homes (ss n)" "net_auth b (net_of (ss n))" "dom (nodes (net_of (ss n))) \<subseteq> D"
      "card {i. i < n \<and> \<not> only_loops (ss i) (ss (Suc i))} + net_work D (net_of (ss n)) \<le> net_work D (net_of (ss 0))"
    using less_SucI by blast+
  have step: "sim_step (ss n) (ss (Suc n))" by (rule Suc.prems) simp
  have homes: "all_homes (ss (Suc n))" by (rule all_homes_step [OF IH(1) step])
  note work = net_work_step [OF IH(2) _ assms(3) IH(3)]
  show ?case
  proof (cases "only_loops (ss n) (ss (Suc n)) \<and> net_of (ss (Suc n)) = net_of (ss n)")
    case True
    then show ?thesis using IH homes by (simp add: card_less_Suc_filter del: net_of_simps)
  next
    case False
    then have net: "net_step (net_of (ss n)) (net_of (ss (Suc n)))"
      using sim_step_busy [OF IH(1) step] sim_step_net [of "ss n" "ss (Suc n)"] IH(1) step by (auto simp: all_homes_def)
    then show ?thesis
      using homes IH net_auth_step [OF IH(2) net] net_step_dom [OF net] work [OF net] by (simp add: card_less_Suc_filter del: net_of_simps)
  qed
qed (use assms in simp)

subsection \<open>The network comes to rest\<close>

text \<open>Nobody waits to join and no message is in a channel or in the loop's vector.\<close>

definition quiescent :: "'r sim_run \<Rightarrow> bool" where
  "quiescent s \<longleftrightarrow> worker_add_queue s = [] \<and> messages s = [] \<and>
     (\<forall>(a, h) \<in> set (homes s). inbox (sim_threads s ! h) = [] \<and> ch_queue (outbox (sim_threads s ! h)) = [])"

definition net_quiet :: "net \<Rightarrow> bool" where
  "net_quiet n \<longleftrightarrow> waiting n = [] \<and> flight n = [] \<and> (\<forall>a nd. nodes n a = Some nd \<longrightarrow> n_inbox nd = [] \<and> n_outbox nd = [])"

lemma nodes_net_of_iff:
  "addr_inv s \<Longrightarrow> nodes (net_of s) a = Some nd \<longleftrightarrow> (\<exists>h. (a, h) \<in> set (homes s) \<and> nd = node_of (sim_threads s ! h))"
  by (auto simp: addr_inv_home dest: map_of_SomeD)

lemma nodes_net_of_home:
  "addr_inv s \<Longrightarrow> (a, h) \<in> set (homes s) \<Longrightarrow> nodes (net_of s) a = Some (node_of (sim_threads s ! h))"
  by (simp add: addr_inv_home)

lemma id_at_home: "addr_inv s \<Longrightarrow> (a, h) \<in> set (homes s) \<Longrightarrow> id_at (net_of s) a = Some (w_peer_id (sim_threads s ! h))"
  by (simp add: id_at_def addr_inv_home node_of_def)

lemma id_at_net_ofD: "id_at (net_of s) a = Some p \<Longrightarrow> \<exists>h. (a, h) \<in> set (homes s) \<and> w_peer_id (sim_threads s ! h) = p"
  by (auto simp: id_at_def node_of_def dest: map_of_SomeD)

lemma quiescent_net: "addr_inv s \<Longrightarrow> quiescent s \<longleftrightarrow> net_quiet (net_of s)"
  unfolding quiescent_def net_quiet_def nodes_net_of_iff by (fastforce simp: node_of_def)

text \<open>A state from which no step changes the network is at rest.\<close>

definition stuck :: "'r sim_run \<Rightarrow> bool" where
  "stuck s \<longleftrightarrow> addr_inv s \<and> (\<forall>s'. sim_step\<^sup>*\<^sup>* s s' \<longrightarrow> net_of s' = net_of s)"

lemma stuck_step: "stuck s \<Longrightarrow> sim_step s s' \<Longrightarrow> stuck s' \<and> net_of s' = net_of s"
  by (metis (full_types) converse_rtranclp_into_rtranclp r_into_rtranclp sim_step_net stuck_def)

lemma stuck_main: "stuck s \<Longrightarrow> clock s \<le> now \<Longrightarrow> main_step now s = Some s' \<Longrightarrow> stuck s' \<and> net_of s' = net_of s"
  using main_turn stuck_step by blast

lemma stuck_inbox:
  assumes "stuck s" and "(a, h) \<in> set (homes s)"
  shows "inbox (sim_threads s ! h) = []"
proof (rule ccontr)
  let ?w = "sim_threads s ! h"
  assume box: "inbox ?w \<noteq> []"
  have inv: "addr_inv s" and sinv: "sim_inv s" using assms(1) by (simp_all add: stuck_def addr_inv_def)
  have h: "h < length (sim_threads s)" and live: "alive ?w" using sim_inv_home [OF sinv assms(2)] by simp_all
  have "worker_step ?w \<noteq> None"
    using box live alive_queue [OF live]
    by (cases "inbox ?w") (auto simp: worker_step_def alive_def split: sum.splits)
  then obtain w where w: "worker_step ?w = Some w" by blast
  have "\<forall>p. pc s \<noteq> Crashed p" using sinv by (auto simp: sim_inv_def)
  then have "sim_step s (s\<lparr>sim_threads := (sim_threads s)[h := w]\<rparr>)" using thread_turn h w by blast
  then have "nodes (net_of s) a = Some (node_of w)"
    using stuck_step [OF assms(1)] net_of_thread [OF inv assms(2), of w] by (metis fun_upd_same net.simps(1) net.surjective net.update_convs(1))
  then have "inbox w = inbox ?w" using addr_inv_home [OF inv assms(2)] by (auto simp: node_of_def)
  then show False using worker_step_alive [OF live w] by auto
qed

lemma stuck_delivering:
  assumes "stuck s" and "pc s = Delivering"
  shows "messages s = [] \<and> stuck (s\<lparr>pc := Adding\<rparr>)"
proof (cases "messages s")
  case Nil
  then show ?thesis using stuck_main [OF assms(1) order.refl] assms(2) by (simp add: main_step_def)
next
  case (Cons m ms)
  let ?s' = "deliver_one m (s\<lparr>messages := ms\<rparr>)"
  have "net_of ?s' = net_of s" using stuck_main [OF assms(1) order.refl] assms(2) Cons by (simp add: main_step_def)
  from arg_cong [OF this, of flight] have "messages s = ms"
    by (simp add: deliver_one_def split: prod.splits option.splits sum.splits)
  then show ?thesis using Cons by simp
qed

lemma stuck_collecting:
  "stuck s \<Longrightarrow> pc s = Collecting todo \<Longrightarrow>
     (\<forall>(a, h) \<in> set todo. worker_sent (sim_threads s ! h) = []) \<and> stuck (s\<lparr>pc := Delivering\<rparr>)"
proof (induction todo arbitrary: s)
  case Nil
  then show ?case using stuck_main [OF Nil.prems(1) order.refl] by (simp add: main_step_def)
next
  case (Cons ah todo)
  obtain a h where ah: "ah = (a, h)" by fastforce
  have "stuck (collect_one a h todo s) \<and> net_of (collect_one a h todo s) = net_of s"
    using stuck_main [OF Cons.prems(1) order.refl] Cons.prems(2) by (simp add: main_step_def ah)
  then have same: "stuck (collect_one a h todo s)" "messages (collect_one a h todo s) = messages s"
    using net_of_simps(3) by metis+
  have sent: "worker_sent (sim_threads s ! h) = []"
  proof (cases "worker_sent (sim_threads s ! h)")
    case (Cons x xs)
    then show ?thesis using same(2) by (simp add: collect_one_def recv_message_eq split: prod.splits)
  qed
  then have "collect_one a h todo s = s\<lparr>pc := Collecting todo\<rparr>" by (simp add: collect_one_def recv_message_eq)
  then show ?case using Cons.IH [of "s\<lparr>pc := Collecting todo\<rparr>"] same(1) sent by (simp add: ah)
qed

lemma stuck_adding:
  assumes "stuck s" and "pc s = Adding"
  shows "worker_add_queue s = [] \<and> stuck (s\<lparr>pc := Collecting (hm_iter (sim_workers s))\<rparr>)"
proof (cases "worker_add_queue s" rule: rev_cases)
  case Nil
  have "s\<lparr>clock := clock s\<rparr> = s" by simp
  then show ?thesis
    using stuck_main [OF assms(1) order.refl] assms(2) Nil by (simp add: main_step_def add_due_def Let_def)
next
  case (snoc q ahd)
  obtain a h d where ahd: "ahd = (a, h, d)" by (cases ahd)
  let ?now = "max (clock s) (Suc d)"
  let ?s1 = "add_worker a h (s\<lparr>worker_add_queue := q\<rparr>)"
  have "main_step ?now s = Some (?s1\<lparr>clock := ?now, pc := Collecting (hm_iter (sim_workers ?s1))\<rparr>)"
    using assms(2) snoc ahd by (simp add: main_step_def add_due_snoc Let_def less_max_iff_disj)
  from stuck_main [OF assms(1) _ this] have "net_of ?s1 = net_of s" by simp
  from arg_cong [OF this, of "\<lambda>n. length (waiting n)"] show ?thesis
    using snoc by (simp add: add_worker_def hm_insert_def split: option.splits)
qed

text \<open>The loop comes around to its start, without a change of the network.\<close>

definition rests_as :: "'r sim_run \<Rightarrow> 'r sim_run \<Rightarrow> bool" where
  "rests_as s s1 \<longleftrightarrow> stuck s1 \<and> pc s1 = Adding \<and> net_of s1 = net_of s \<and> messages s1 = []"

lemma stuck_around:
  assumes "stuck s"
  shows "\<exists>s1. rests_as s s1"
proof -
  have del: "rests_as t (t\<lparr>pc := Adding\<rparr>)" if "stuck t" "pc t = Delivering" for t :: "'a sim_run"
    using stuck_delivering [OF that] by (simp add: rests_as_def)
  have col: "rests_as t (t\<lparr>pc := Adding\<rparr>)" if "stuck t" "pc t = Collecting todo" for t :: "'a sim_run" and todo
    using stuck_collecting [OF that] del [of "t\<lparr>pc := Delivering\<rparr>"] by (simp add: rests_as_def)
  show ?thesis
  proof (cases "pc s")
    case Adding
    let ?t = "s\<lparr>pc := Collecting (hm_iter (sim_workers s))\<rparr>"
    have "rests_as ?t (?t\<lparr>pc := Adding\<rparr>)" using col [of ?t] stuck_adding [OF assms Adding] by simp
    then show ?thesis by (auto simp: rests_as_def)
  next
    case (Crashed p)
    then show ?thesis using assms by (simp add: stuck_def addr_inv_def sim_inv_def)
  qed (use assms del col in blast)+
qed

lemma stuck_quiescent:
  assumes "stuck s"
  shows "quiescent s"
proof -
  from stuck_around [OF assms] obtain s1 where "rests_as s s1" by blast
  then have s1: "stuck s1" "pc s1 = Adding" "net_of s1 = net_of s" "messages s1 = []" by (simp_all add: rests_as_def)
  note add = stuck_adding [OF s1(1,2)]
  have wf: "hm_wf (sim_workers s1)" and inv: "addr_inv s1" "addr_inv s"
    using s1(1) assms by (simp_all add: stuck_def addr_inv_def sim_inv_def)
  have "homes s1 = hm_entries (sim_workers s1)" using add by (simp add: homes_def)
  then have "\<forall>(a, h) \<in> set (homes s1). worker_sent (sim_threads s1 ! h) = []"
    using add stuck_collecting [of "s1\<lparr>pc := Collecting (hm_iter (sim_workers s1))\<rparr>"] set_hm_iter_entries [OF wf] by simp
  then have "quiescent s1" using stuck_inbox [OF s1(1)] add s1(4) by (auto simp: quiescent_def)
  then show ?thesis using quiescent_net inv s1(3) by metis
qed

text \<open>From any state a state of rest can be reached: every change of the network reduces its work.\<close>

lemma sim_converges:
  assumes "addr_inv s" and "net_auth b (net_of s)"
  shows "\<exists>s'. sim_step\<^sup>*\<^sup>* s s' \<and> quiescent s'"
  using assms
proof (induction "net_work (dom (nodes (net_of s))) (net_of s)" arbitrary: s rule: less_induct)
  case less
  show ?case
  proof (cases "stuck s")
    case True
    then show ?thesis using stuck_quiescent by blast
  next
    case False
    then obtain s1 where s1: "sim_step\<^sup>*\<^sup>* s s1" "net_of s1 \<noteq> net_of s" using less.prems(1) by (auto simp: stuck_def)
    from sim_steps_net [OF less.prems(1) s1(1)] have inv: "addr_inv s1" and steps: "net_step\<^sup>*\<^sup>* (net_of s) (net_of s1)" by auto
    then obtain k where k: "(net_step ^^ k) (net_of s) (net_of s1)" by (auto simp: rtranclp_power)
    then have "0 < k" using s1(2) by (cases k) auto
    have "finite (dom (nodes (net_of s)))" by (rule finite_subset [of _ "fst ` set (homes s)"]) (force dest: map_of_SomeD)+
    from net_steps_bounded [OF k less.prems(2) this] \<open>0 < k\<close>
    have "net_work (dom (nodes (net_of s))) (net_of s1) < net_work (dom (nodes (net_of s))) (net_of s)" by simp
    moreover have "dom (nodes (net_of s1)) = dom (nodes (net_of s))"
      using steps by (induction rule: rtranclp_induct) (simp_all add: net_step_dom)
    moreover have "net_auth b (net_of s1)" using authentic.inv_steps [OF less.prems(2) steps] .
    ultimately obtain s' where "sim_step\<^sup>*\<^sup>* s1 s'" "quiescent s'" using less.hyps [OF _ inv] by auto
    then show ?thesis using s1(1) by (meson rtranclp_trans)
  qed
qed

lemma sim_run_net:
  assumes "externals_ok e" and "sim_setup e boot specs = Inr sim" and "distinct_addresses e specs"
    and "addr_of e boot = Some b" and "sim_step\<^sup>*\<^sup>* (run_start sim) s"
  shows "addr_inv s \<and> net_step\<^sup>*\<^sup>* (net_of (run_start sim)) (net_of s) \<and> net_auth b (net_of s)"
proof -
  note init = net_init_run_start [OF assms(1-4)]
  note steps = sim_steps_net [OF conjunct1 [OF init] assms(5)]
  then show ?thesis using authentic.inv_steps net_init_auth init by blast
qed

lemma net_init_work:
  assumes "externals_ok e" and "sim_setup e boot specs = Inr sim" and "distinct_addresses e specs"
    and "addr_of e boot = Some b"
  defines "n \<equiv> net_of (run_start sim)"
  shows "finite (dom (nodes n)) \<and> net_work (dom (nodes n)) n \<le> 9 * length specs"
proof -
  have init: "net_init b n" using net_init_run_start [OF assms(1-4)] by (simp add: n_def)
  from sim_setup_ok [OF assms(1,2)] have "length (worker_add_queue sim) = length specs" by (metis length_map)
  moreover from sim_setup_ok [OF assms(1,2)] obtain b' where "setup_ok b' sim" by blast
  ultimately have len: "length (homes (run_start sim)) = length specs" "length (waiting n) = length specs"
    by (simp_all add: homes_def run_start_def setup_ok_def sort_queue_def n_def)
  have sub: "dom (nodes n) \<subseteq> fst ` set (homes (run_start sim))" by (force simp: n_def dest: map_of_SomeD)
  have "card (dom (nodes n)) \<le> length specs"
    using card_mono [OF _ sub] card_image_le [of "set (homes (run_start sim))" fst] card_length [of "homes (run_start sim)"]
      len(1) by simp
  moreover have "node_work (nodes n a) \<le> 8" for a
    using init by (cases "nodes n a") (simp_all add: node_work_def net_init_def inbox_work_def)
  then have "(\<Sum>a\<in>dom (nodes n). node_work (nodes n a)) \<le> card (dom (nodes n)) * 8"
    using sum_bounded_above [of "dom (nodes n)" "\<lambda>a. node_work (nodes n a)" 8] by simp
  ultimately show ?thesis
    using len(2) init finite_subset [OF sub] by (simp add: net_work_def net_init_def)
qed

lemma all_homes_run_start:
  assumes "externals_ok e" and "sim_setup e boot specs = Inr sim" and "distinct_addresses e specs"
    and "addr_of e boot = Some b"
  shows "all_homes (run_start sim)"
proof -
  from sim_setup_ok [OF assms(1,2)] obtain b' where ok: "setup_ok b' sim" by blast
  have "snd ` set (homes (run_start sim)) = set (map (\<lambda>(a, h, d). h) (worker_add_queue sim))"
    unfolding set_homes_run_start [OF ok] by force
  also have "\<dots> = {..<length (sim_threads sim)}" using ok by (auto simp: setup_ok_def)
  finally show ?thesis using net_init_run_start [OF assms] by (simp add: all_homes_def run_start_def)
qed

text \<open>The network of \<open>heckin_simulator\<close> has distinct addresses, and its bootstrap worker joins first.\<close>

abbreviation heckin_specs :: "(string \<times> nat) list" where
  "heckin_specs \<equiv> [(''10.0.0.1:4433'', 0), (''10.0.0.2:4433'', 2000000000), (''10.0.0.3:4433'', 10000000000)]"

lemma heckin_specs_ok: "distinct_addresses e heckin_specs \<and> bootstrap_first e ''10.0.0.1:4433'' heckin_specs"
  by (simp add: distinct_addresses_def bootstrap_first_def parse_sim_addrs)

lemma heckin_homes:
  assumes "externals_ok e" and "heckin_simulator e = Inr sim"
  shows "\<exists>h. (V4 167772162 4433, h) \<in> set (homes (run_start sim))"
    and "(a, h) \<in> set (homes (run_start sim)) \<Longrightarrow>
      worker_view (sim_threads (run_start sim) ! h) (w_peer_id (sim_threads (run_start sim) ! h)) = Some a"
proof -
  note started = assms(2) [unfolded heckin_simulator_setup]
  from sim_setup_ok [OF assms(1) started] obtain b where ok: "setup_ok b sim"
    and queue: "map (\<lambda>(a, h, d). (a, d)) (worker_add_queue sim) = map (\<lambda>(addr, d). (the (addr_of e addr), d)) heckin_specs"
    by blast
  have "(V4 167772162 4433, 2000000000) \<in> set (map (\<lambda>(a, h, d). (a, d)) (worker_add_queue sim))"
    unfolding queue by (simp add: parse_sim_addrs)
  then show "\<exists>h. (V4 167772162 4433, h) \<in> set (homes (run_start sim))"
    unfolding set_homes_run_start [OF ok] by force
  assume "(a, h) \<in> set (homes (run_start sim))"
  then obtain d where "(a, h, d) \<in> set (worker_add_queue sim)" unfolding set_homes_run_start [OF ok] by auto
  then have "fresh b a (sim_threads sim ! h)" using ok by (auto simp: setup_ok_def)
  then show "worker_view (sim_threads (run_start sim) ! h) (w_peer_id (sim_threads (run_start sim) ! h)) = Some a"
    by (simp add: fresh_def run_start_def)
qed

text \<open>At rest, an introduction has nowhere to be but in what the bootstrap worker knows.\<close>

lemma introduced_quiet:
  "introduced b n a nd \<Longrightarrow> net_quiet n \<Longrightarrow> nodes n a = Some nd \<Longrightarrow> nodes n b = Some bn \<Longrightarrow> \<exists>x. n_view bn (n_id nd) = Some x"
  by (auto simp: introduced_def net_quiet_def)

lemma net_prog_quiet_knows:
  assumes "net_prog b (net_of s)" and inv: "addr_inv s" and "quiescent s"
  shows "\<exists>hb. (b, hb) \<in> set (homes s) \<and>
    (\<forall>(a, h) \<in> set (homes s). \<exists>x h'. worker_view (sim_threads s ! hb) (w_peer_id (sim_threads s ! h)) = Some x \<and>
       (x, h') \<in> set (homes s) \<and> w_peer_id (sim_threads s ! h') = w_peer_id (sim_threads s ! h))"
proof -
  have quiet: "net_quiet (net_of s)" using assms(3) quiescent_net [OF inv] by simp
  have auth: "net_auth b (net_of s)" using assms(1) by (simp add: net_prog_def)
  obtain hb where hb: "(b, hb) \<in> set (homes s)"
    using assms(1) nodes_net_of_iff [OF inv] unfolding net_prog_def dom_def by blast
  note bn = nodes_net_of_home [OF inv hb]
  have "\<exists>x h'. worker_view (sim_threads s ! hb) (w_peer_id (sim_threads s ! h)) = Some x \<and>
       (x, h') \<in> set (homes s) \<and> w_peer_id (sim_threads s ! h') = w_peer_id (sim_threads s ! h)"
    if "(a, h) \<in> set (homes s)" for a h
  proof -
    let ?p = "w_peer_id (sim_threads s ! h)"
    note nd = nodes_net_of_home [OF inv that]
    have "introduced b (net_of s) a (node_of (sim_threads s ! h))" using assms(1) nd unfolding net_prog_def by blast
    from introduced_quiet [OF this quiet nd bn] obtain x where x: "worker_view (sim_threads s ! hb) ?p = Some x"
      by (auto simp: node_of_def)
    then have "id_at (net_of s) x = Some ?p"
      using net_auth_node [OF auth bn] by (simp add: node_ok_def node_of_def)
    then show ?thesis using x id_at_net_ofD by blast
  qed
  then show ?thesis using hb by blast
qed

end
