(* ===== verification/Fair_Runs.thy ===== *)
theory Fair_Runs
  imports Network
begin

text \<open>
  Runs of the simulator under a schedule that gives a turn to the loop or to a thread at every point
  in time. In a fair schedule every thread and the loop get a turn again and again, and the clock
  the loop reads goes on without bound. Under every fair schedule the network comes to rest.
\<close>

subsection \<open>Schedules\<close>

text \<open>
  A turn of the loop reads the clock, which does not run backwards; a thread that waits for a
  message does nothing in its turn.
\<close>

datatype actor = Main nat | Thread handle

fun turn :: "actor \<Rightarrow> 'r sim_run \<Rightarrow> 'r sim_run" where
  "turn (Main now) s = (case main_step (max (clock s) now) s of None \<Rightarrow> s | Some s' \<Rightarrow> s')"
| "turn (Thread h) s =
     (case pc s of
        Crashed _ \<Rightarrow> s
      | _ \<Rightarrow>
          if h < length (sim_threads s) then
            (case worker_step (sim_threads s ! h) of
               None \<Rightarrow> s
             | Some w \<Rightarrow> s\<lparr>sim_threads := (sim_threads s)[h := w]\<rparr>)
          else s)"

primrec exec :: "(nat \<Rightarrow> actor) \<Rightarrow> 'r sim_run \<Rightarrow> nat \<Rightarrow> 'r sim_run" where
  "exec \<rho> s 0 = s"
| "exec \<rho> s (Suc i) = turn (\<rho> i) (exec \<rho> s i)"

definition fair :: "nat \<Rightarrow> (nat \<Rightarrow> actor) \<Rightarrow> bool" where
  "fair n \<rho> \<longleftrightarrow> (\<forall>h < n. \<forall>i. \<exists>j \<ge> i. \<rho> j = Thread h) \<and> (\<forall>i. \<exists>j \<ge> i. \<exists>now. \<rho> j = Main now) \<and>
     (\<forall>t. \<exists>i. \<forall>j \<ge> i. \<forall>now. \<rho> j = Main now \<longrightarrow> t \<le> now)"

abbreviation later :: "nat \<Rightarrow> (nat \<Rightarrow> actor) \<Rightarrow> nat \<Rightarrow> actor" where
  "later k \<rho> \<equiv> \<lambda>i. \<rho> (k + i)"

lemma exec_later: "exec (later k \<rho>) (exec \<rho> s k) i = exec \<rho> s (k + i)"
  by (induction i) simp_all

lemma fair_later: "fair n \<rho> \<Longrightarrow> fair n (later k \<rho>)"
  unfolding fair_def
proof (intro conjI allI impI; elim conjE)
  fix h i
  assume "h < n" "\<forall>h<n. \<forall>i. \<exists>j\<ge>i. \<rho> j = Thread h"
  then obtain j where "j \<ge> k + i" "\<rho> j = Thread h" by blast
  then show "\<exists>j\<ge>i. \<rho> (k + j) = Thread h" by (intro exI [of _ "j - k"]) auto
next
  fix i
  assume "\<forall>i. \<exists>j\<ge>i. \<exists>now. \<rho> j = Main now"
  then obtain j where "j \<ge> k + i" "\<exists>now. \<rho> j = Main now" by blast
  then show "\<exists>j\<ge>i. \<exists>now. \<rho> (k + j) = Main now" by (intro exI [of _ "j - k"]) auto
next
  fix t
  assume "\<forall>t. \<exists>i. \<forall>j\<ge>i. \<forall>now. \<rho> j = Main now \<longrightarrow> t \<le> now"
  then obtain i where "\<forall>j\<ge>i. \<forall>now. \<rho> j = Main now \<longrightarrow> t \<le> now" by blast
  then show "\<exists>i. \<forall>j\<ge>i. \<forall>now. \<rho> (k + j) = Main now \<longrightarrow> t \<le> now" by (meson trans_le_add2)
qed

text \<open>The next turn of the loop comes after turns of threads only.\<close>

lemma next_main:
  assumes "fair n \<rho>"
  obtains k now where "\<rho> k = Main now" and "\<And>i. i < k \<Longrightarrow> \<exists>h. \<rho> i = Thread h"
proof -
  have ex: "\<exists>j now. \<rho> j = Main now" using assms unfolding fair_def by blast
  define k where "k = (LEAST j. \<exists>now. \<rho> j = Main now)"
  have "\<exists>now. \<rho> k = Main now" unfolding k_def using ex by (rule LeastI_ex)
  moreover have "\<exists>h. \<rho> i = Thread h" if "i < k" for i
    using not_less_Least [OF that [unfolded k_def]] by (cases "\<rho> i") auto
  ultimately show ?thesis using that by blast
qed

subsection \<open>Turns are steps\<close>

lemma turn_step: "turn x s = s \<or> sim_step s (turn x s)"
proof (cases x)
  case (Main now)
  then show ?thesis using main_turn [of s "max (clock s) now"] by (auto split: option.splits)
next
  case (Thread h)
  then show ?thesis using thread_turn [of s h] by (auto split: option.splits sim_pc.splits)
qed

lemma exec_steps: "sim_step\<^sup>*\<^sup>* s (exec \<rho> s i)"
proof (induction i)
  case (Suc i)
  then show ?case using turn_step [of "\<rho> i" "exec \<rho> s i"] by (metis exec.simps(2) rtranclp.rtrancl_into_rtrancl)
qed simp

lemma turn_homes: "addr_inv s \<Longrightarrow> mset (homes (turn x s)) = mset (homes s)"
  by (cases x) (auto split: option.splits sim_pc.splits dest: main_step_net)

lemma exec_inv: "addr_inv s \<Longrightarrow> addr_inv (exec \<rho> s i)"
  using sim_steps_net exec_steps by blast

lemma exec_homes: "addr_inv s \<Longrightarrow> set (homes (exec \<rho> s i)) = set (homes s)"
proof (induction i)
  case (Suc i)
  then show ?case using mset_eq_setD [OF turn_homes [OF exec_inv [OF Suc.prems]]] by simp
qed simp

text \<open>Turns of threads leave the loop alone.\<close>

lemma turn_thread_same [simp]:
  "pc (turn (Thread h) s) = pc s" "messages (turn (Thread h) s) = messages s" "clock (turn (Thread h) s) = clock s"
  "worker_add_queue (turn (Thread h) s) = worker_add_queue s" "sim_workers (turn (Thread h) s) = sim_workers s"
  by (simp_all split: option.splits sim_pc.splits)

lemma exec_threads_same:
  assumes "\<And>i. i < k \<Longrightarrow> \<exists>h. \<rho> i = Thread h"
  shows "pc (exec \<rho> s k) = pc s \<and> messages (exec \<rho> s k) = messages s \<and>
    worker_add_queue (exec \<rho> s k) = worker_add_queue s \<and> sim_workers (exec \<rho> s k) = sim_workers s"
  using assms
proof (induction k)
  case (Suc k)
  from Suc.prems [of k] obtain h where "\<rho> k = Thread h" by auto
  then show ?case using Suc by (simp del: turn.simps)
qed simp

subsection \<open>Runs that do not change the network\<close>

definition frozen :: "(nat \<Rightarrow> actor) \<Rightarrow> 'r sim_run \<Rightarrow> bool" where
  "frozen \<rho> s \<longleftrightarrow> addr_inv s \<and> (\<forall>i. net_of (exec \<rho> s i) = net_of s)"

lemma frozen_later:
  assumes "frozen \<rho> s"
  shows "frozen (later k \<rho>) (exec \<rho> s k)" and "net_of (exec \<rho> s k) = net_of s"
  using assms exec_inv [of s \<rho> k] by (simp_all add: frozen_def exec_later)

lemma frozen_turn: "frozen \<rho> s \<Longrightarrow> addr_inv s \<and> net_of (turn (\<rho> 0) s) = net_of s"
  unfolding frozen_def by (metis exec.simps)

lemma frozen_home:
  assumes "frozen \<rho> s" and home: "(a, h) \<in> set (homes s)"
  shows "node_of (sim_threads (exec \<rho> s j) ! h) = node_of (sim_threads s ! h)"
proof -
  have inv: "addr_inv s" "addr_inv (exec \<rho> s j)" using assms(1) exec_inv by (auto simp: frozen_def)
  have "(a, h) \<in> set (homes (exec \<rho> s j))" using home exec_homes [OF inv(1)] by simp
  from nodes_net_of_home [OF inv(2) this] nodes_net_of_home [OF inv(1) home] frozen_later(2) [OF assms(1), of j]
  show ?thesis by (simp only: option.inject)
qed

text \<open>In a frozen run a thread that gets a turn has nothing to handle.\<close>

lemma thread_turn_inbox:
  assumes inv: "addr_inv s" and home: "(a, h) \<in> set (homes s)" and same: "net_of (turn (Thread h) s) = net_of s"
  shows "inbox (sim_threads s ! h) = []"
proof (rule ccontr)
  let ?w = "sim_threads s ! h"
  assume box: "inbox ?w \<noteq> []"
  have sinv: "sim_inv s" using inv by (simp add: addr_inv_def)
  have h: "h < length (sim_threads s)" and live: "alive ?w" using sim_inv_home [OF sinv home] by simp_all
  have "worker_step ?w \<noteq> None"
    using box live alive_queue [OF live]
    by (cases "inbox ?w") (auto simp: worker_step_def alive_def split: sum.splits)
  then obtain w where w: "worker_step ?w = Some w" by blast
  have "\<forall>p. pc s \<noteq> Crashed p" using sinv by (auto simp: sim_inv_def)
  then have "turn (Thread h) s = s\<lparr>sim_threads := (sim_threads s)[h := w]\<rparr>" using h w by (auto split: sim_pc.splits)
  then have "nodes (net_of s) a = Some (node_of w)"
    using same net_of_thread [OF inv home, of w] by (metis fun_upd_same net.simps(1) net.surjective net.update_convs(1))
  then have "inbox w = inbox ?w" using addr_inv_home [OF inv home] by (auto simp: node_of_def)
  then show False using worker_step_alive [OF live w] by auto
qed

lemma frozen_inbox:
  assumes "frozen \<rho> s" and "fair n \<rho>" and home: "(a, h) \<in> set (homes s)" and "h < n"
  shows "inbox (sim_threads s ! h) = []"
proof -
  from assms(2,4) obtain j where j: "\<rho> j = Thread h" unfolding fair_def by blast
  let ?s = "exec \<rho> s j"
  have inv: "addr_inv s" "addr_inv ?s" using assms(1) exec_inv by (auto simp: frozen_def)
  have home': "(a, h) \<in> set (homes ?s)" using home exec_homes [OF inv(1)] by simp
  have "inbox (sim_threads ?s ! h) = []"
    using thread_turn_inbox [OF inv(2) home'] frozen_turn [OF frozen_later(1) [OF assms(1), of j]] frozen_later(2) [OF assms(1)] j by simp
  then show ?thesis using frozen_home [OF assms(1) home, of j] by (simp add: node_of_def)
qed

text \<open>What a turn of the loop does when it does not change the network.\<close>

lemma main_delivering:
  assumes "pc s = Delivering" and "net_of (turn (Main now) s) = net_of s"
  shows "messages s = [] \<and> turn (Main now) s = s\<lparr>pc := Adding\<rparr>"
proof (cases "messages s")
  case (Cons m ms)
  have "net_of (deliver_one m (s\<lparr>messages := ms\<rparr>)) = net_of s" using assms Cons by (simp add: main_step_def)
  from arg_cong [OF this, of flight] have "messages s = ms"
    by (simp add: deliver_one_def split: prod.splits option.splits sum.splits)
  then show ?thesis using Cons by simp
qed (use assms in \<open>simp add: main_step_def\<close>)

lemma main_collecting:
  assumes "pc s = Collecting ((a, h) # todo)" and "net_of (turn (Main now) s) = net_of s"
  shows "worker_sent (sim_threads s ! h) = [] \<and> turn (Main now) s = s\<lparr>pc := Collecting todo\<rparr>"
proof -
  have "messages (collect_one a h todo s) = messages s"
    using arg_cong [OF assms(2), of flight] assms(1) by (simp add: main_step_def)
  then have "worker_sent (sim_threads s ! h) = []"
    by (cases "worker_sent (sim_threads s ! h)") (simp_all add: collect_one_def recv_message_eq split: prod.splits)
  then show ?thesis using assms(1) by (simp add: main_step_def collect_one_def recv_message_eq)
qed

lemma main_adding:
  assumes "pc s = Adding" and "net_of (turn (Main now) s) = net_of s"
  shows "worker_add_queue (turn (Main now) s) = worker_add_queue s" and "sim_workers (turn (Main now) s) = sim_workers s"
    and "pc (turn (Main now) s) = Collecting (hm_iter (sim_workers s))"
    and "worker_add_queue s = q @ [(a, h, d)] \<Longrightarrow> now \<le> d"
proof -
  have "worker_add_queue (turn (Main now) s) = worker_add_queue s \<and> sim_workers (turn (Main now) s) = sim_workers s \<and>
      pc (turn (Main now) s) = Collecting (hm_iter (sim_workers s)) \<and> (\<forall>q a h d. worker_add_queue s = q @ [(a, h, d)] \<longrightarrow> now \<le> d)"
  proof (cases "worker_add_queue s" rule: rev_cases)
    case Nil
    then show ?thesis using assms(1) by (simp add: main_step_def add_due_def Let_def)
  next
    case (snoc q ahd)
    obtain a h d where ahd: "ahd = (a, h, d)" by (cases ahd)
    show ?thesis
    proof (cases "d < max (clock s) now")
      case True
      then have "waiting (net_of (turn (Main now) s)) = map fst (rev q)"
        using assms(1) snoc ahd by (simp add: main_step_def add_due_snoc Let_def add_worker_def hm_insert_def split: option.splits)
      from this [unfolded assms(2)] show ?thesis using arg_cong [of _ _ length] snoc by fastforce
    next
      case False
      then show ?thesis using assms(1) snoc ahd by (simp add: main_step_def add_due_snoc Let_def)
    qed
  qed
  then show "worker_add_queue (turn (Main now) s) = worker_add_queue s" "sim_workers (turn (Main now) s) = sim_workers s"
    "pc (turn (Main now) s) = Collecting (hm_iter (sim_workers s))" "worker_add_queue s = q @ [(a, h, d)] \<Longrightarrow> now \<le> d" by blast+
qed

text \<open>The loop comes to its next turn, with its own state as it was.\<close>

lemma frozen_next:
  assumes "frozen \<rho> s" and "fair n \<rho>"
  obtains k now where "\<rho> k = Main now" and "pc (exec \<rho> s k) = pc s" and "messages (exec \<rho> s k) = messages s"
    and "worker_add_queue (exec \<rho> s k) = worker_add_queue s" and "sim_workers (exec \<rho> s k) = sim_workers s"
    and "net_of (turn (Main now) (exec \<rho> s k)) = net_of (exec \<rho> s k)"
proof -
  obtain k now where k: "\<rho> k = Main now" "\<And>i. i < k \<Longrightarrow> \<exists>h. \<rho> i = Thread h" using next_main [OF assms(2)] by blast
  have "net_of (turn (Main now) (exec \<rho> s k)) = net_of (exec \<rho> s k)"
    using frozen_turn [OF frozen_later(1) [OF assms(1), of k]] k(1) by simp
  then show ?thesis using that k exec_threads_same [of k \<rho> s] by blast
qed

lemma frozen_next_at:
  assumes "frozen \<rho> s" and "fair n \<rho>"
  obtains k now where "\<rho> (i + k) = Main now" and "pc (exec \<rho> s (i + k)) = pc (exec \<rho> s i)"
    and "net_of (turn (Main now) (exec \<rho> s (i + k))) = net_of (exec \<rho> s (i + k))"
  by (rule frozen_next [OF frozen_later(1) [OF assms(1), of i] fair_later [OF assms(2), of i]]) (simp only: exec_later that)

lemma frozen_delivering:
  assumes "frozen \<rho> s" and "fair n \<rho>" and "pc s = Delivering"
  shows "messages s = [] \<and> (\<exists>k. pc (exec \<rho> s k) = Adding)"
proof -
  obtain k now where k: "\<rho> k = Main now" "pc (exec \<rho> s k) = pc s" "messages (exec \<rho> s k) = messages s"
      "net_of (turn (Main now) (exec \<rho> s k)) = net_of (exec \<rho> s k)" using frozen_next [OF assms(1,2)] by metis
  from main_delivering [OF _ k(4)] have "messages s = []" "pc (exec \<rho> s (Suc k)) = Adding"
    using k assms(3) by (simp_all del: turn.simps)
  then show ?thesis by blast
qed

lemma frozen_collecting:
  "frozen \<rho> s \<Longrightarrow> fair n \<rho> \<Longrightarrow> pc s = Collecting todo \<Longrightarrow> set todo \<subseteq> set (homes s) \<Longrightarrow>
     (\<forall>(a, h) \<in> set todo. worker_sent (sim_threads s ! h) = []) \<and> (\<exists>k. pc (exec \<rho> s k) = Delivering)"
proof (induction todo arbitrary: \<rho> s)
  case Nil
  obtain k now where k: "\<rho> k = Main now" "pc (exec \<rho> s k) = pc s" using frozen_next [OF Nil(1,2)] by metis
  then have "pc (exec \<rho> s (Suc k)) = Delivering" using Nil(3) by (simp add: main_step_def)
  then show ?case by (simp del: exec.simps) blast
next
  case (Cons ah todo)
  obtain a h where ah: "ah = (a, h)" by fastforce
  obtain k now where k: "\<rho> k = Main now" "pc (exec \<rho> s k) = pc s"
      "net_of (turn (Main now) (exec \<rho> s k)) = net_of (exec \<rho> s k)" using frozen_next [OF Cons.prems(1,2)] by metis
  let ?s = "exec \<rho> s (Suc k)"
  have inv: "addr_inv s" using Cons.prems(1) by (simp add: frozen_def)
  from main_collecting [OF _ k(3), of a h todo]
  have sent: "worker_sent (sim_threads (exec \<rho> s k) ! h) = []" and pc: "pc ?s = Collecting todo"
    using k Cons.prems(3) by (simp_all add: ah del: turn.simps)
  have "set todo \<subseteq> set (homes ?s)" using Cons.prems(4) by (simp only: exec_homes [OF inv]) simp
  from Cons.IH [OF frozen_later(1) [OF Cons.prems(1)] fair_later [OF Cons.prems(2)] pc this]
  have rest: "\<forall>(a, h) \<in> set todo. worker_sent (sim_threads ?s ! h) = []"
    and "\<exists>i. pc (exec (later (Suc k) \<rho>) ?s i) = Delivering" by blast+
  then have reach: "\<exists>i. pc (exec \<rho> s i) = Delivering" unfolding exec_later by blast
  have same: "worker_sent (sim_threads (exec \<rho> s j) ! h') = worker_sent (sim_threads s ! h')" if "(a', h') \<in> set (ah # todo)" for a' h' j
    using arg_cong [OF frozen_home [OF Cons.prems(1), of a' h' j], of n_outbox] that Cons.prems(4) by (auto simp: node_of_def)
  have "worker_sent (sim_threads s ! h') = []" if "(a', h') \<in> set (ah # todo)" for a' h'
    using that same [OF that, of k] same [OF that, of "Suc k"] sent rest by (auto simp: ah simp del: exec.simps)
  then show ?case using reach by blast
qed

text \<open>The loop comes around to its start again and again.\<close>

lemma frozen_reaches_adding:
  assumes "frozen \<rho> s" and "fair n \<rho>"
  shows "\<exists>k. pc (exec \<rho> s k) = Adding"
proof -
  have del: "\<exists>k. pc (exec \<rho> s k) = Adding" if "pc (exec \<rho> s j) = Delivering" for j
    using frozen_delivering [OF frozen_later(1) [OF assms(1)] fair_later [OF assms(2)] that] exec_later by metis
  show ?thesis
  proof (cases "pc s")
    case Adding
    then show ?thesis by (metis exec.simps(1))
  next
    case (Collecting todo)
    then have "set todo \<subseteq> set (homes s)" using assms(1) by (auto simp: frozen_def addr_inv_def sim_inv_def homes_def)
    then show ?thesis using frozen_collecting [OF assms Collecting] del by blast
  next
    case Delivering
    then show ?thesis using del [of 0] by simp
  next
    case (Crashed p)
    then show ?thesis using assms(1) by (simp add: frozen_def addr_inv_def sim_inv_def)
  qed
qed

lemma main_queue:
  assumes "net_of (turn (Main now) s) = net_of s"
  shows "worker_add_queue (turn (Main now) s) = worker_add_queue s"
proof (cases "pc s")
  case Adding
  then show ?thesis using main_adding [OF _ assms] by blast
next
  case (Collecting todo)
  then show ?thesis
    using main_collecting [OF _ assms] by (cases todo) (auto simp: main_step_def)
next
  case Delivering
  then show ?thesis using main_delivering [OF _ assms] by (simp del: turn.simps)
qed (simp add: main_step_def)

lemma frozen_queue:
  assumes "frozen \<rho> s"
  shows "worker_add_queue (exec \<rho> s j) = worker_add_queue s"
proof (induction j)
  case (Suc j)
  have "net_of (turn (\<rho> j) (exec \<rho> s j)) = net_of (exec \<rho> s j)"
    using frozen_turn [OF frozen_later(1) [OF assms, of j]] by simp
  then show ?case using Suc main_queue [of _ "exec \<rho> s j"] by (cases "\<rho> j") (simp_all del: turn.simps)
qed simp

lemma frozen_nobody_waits:
  assumes "frozen \<rho> s" and "fair n \<rho>"
  shows "worker_add_queue s = []"
proof (rule ccontr)
  assume "worker_add_queue s \<noteq> []"
  then obtain q a h d where q: "worker_add_queue s = q @ [(a, h, d)]" by (metis rev_exhaust surj_pair)
  obtain i where i: "\<And>j now. j \<ge> i \<Longrightarrow> \<rho> j = Main now \<Longrightarrow> Suc d \<le> now" using assms(2) unfolding fair_def by metis
  note run = frozen_later(1) [OF assms(1)] and fairness = fair_later [OF assms(2)]
  obtain k where "pc (exec (later i \<rho>) (exec \<rho> s i) k) = Adding" using frozen_reaches_adding [OF run fairness] by blast
  then have adding: "pc (exec \<rho> s (i + k)) = Adding" by (simp only: exec_later)
  obtain k' now where k': "\<rho> (i + k + k') = Main now" "pc (exec \<rho> s (i + k + k')) = Adding"
      "net_of (turn (Main now) (exec \<rho> s (i + k + k'))) = net_of (exec \<rho> s (i + k + k'))"
    using frozen_next_at [OF assms, of "i + k"] adding by metis
  have "now \<le> d" by (rule main_adding(4) [OF k'(2,3)]) (use q frozen_queue [OF assms(1)] in simp)
  then show False using i [OF _ k'(1)] by simp
qed

text \<open>A fair run that does not change the network is at rest.\<close>

lemma frozen_quiescent:
  assumes "frozen \<rho> s" and "fair n \<rho>" and "\<forall>(a, h) \<in> set (homes s). h < n"
  shows "quiescent s"
proof -
  have inv: "addr_inv s" using assms(1) by (simp add: frozen_def)
  note run = frozen_later(1) [OF assms(1)] and fairness = fair_later [OF assms(2)]
  obtain k where k: "pc (exec \<rho> s k) = Adding" using frozen_reaches_adding [OF assms(1,2)] by blast
  obtain k' now where k': "pc (exec \<rho> s (k + k')) = Adding" "\<rho> (k + k') = Main now"
      "net_of (turn (Main now) (exec \<rho> s (k + k'))) = net_of (exec \<rho> s (k + k'))"
    using frozen_next_at [OF assms(1,2), of k] k by metis
  let ?s = "exec \<rho> s (Suc (k + k'))"
  have inv': "addr_inv ?s" using exec_inv [OF inv] .
  have pc: "pc ?s = Collecting (hm_iter (sim_workers ?s))"
    using main_adding(2,3) [OF k'(1,3)] k'(2) by (simp del: turn.simps)
  have queue: "worker_add_queue ?s = []" using frozen_nobody_waits [OF run fairness] by blast
  have wf: "hm_wf (sim_workers ?s)" using inv' by (simp add: addr_inv_def sim_inv_def)
  have all: "set (hm_iter (sim_workers ?s)) = set (homes ?s)"
    using set_hm_iter_entries [OF wf] queue by (simp add: homes_def del: exec.simps)
  from frozen_collecting [OF run fairness pc] all obtain j where
    sent: "\<forall>(a, h) \<in> set (homes ?s). worker_sent (sim_threads ?s ! h) = []"
    and j: "pc (exec (later (Suc (k + k')) \<rho>) ?s j) = Delivering" by auto
  have "messages (exec (later (Suc (k + k')) \<rho>) ?s j) = []"
    using frozen_delivering [OF frozen_later(1) [OF run] fair_later [OF fairness] j] by blast
  then have "messages ?s = []"
    using arg_cong [OF frozen_later(2) [OF run, of "Suc (k + k')" j], of flight] by (simp del: exec.simps)
  moreover have "inbox (sim_threads ?s ! h) = []" if "(a, h) \<in> set (homes ?s)" for a h
  proof (rule frozen_inbox [OF run fairness that])
    show "h < n" using that assms(3) unfolding exec_homes [OF inv] by blast
  qed
  ultimately have "quiescent ?s" using queue sent by (auto simp: quiescent_def simp del: exec.simps)
  then show ?thesis using quiescent_net [OF inv] quiescent_net [OF inv'] frozen_later(2) [OF assms(1)] by metis
qed

subsection \<open>Every fair run comes to rest\<close>

lemma decreasing_constant:
  fixes f :: "nat \<Rightarrow> nat"
  assumes "\<And>i. f (Suc i) \<le> f i"
  shows "\<exists>N. \<forall>i. f (N + i) = f N"
proof -
  obtain N where N: "\<And>i. f N \<le> f i" using ex_has_least_nat [of "\<lambda>_. True" 0 f] by auto
  have "f (N + i) \<le> f N" for i using assms lift_Suc_antimono_le [of f N "N + i"] by simp
  then show ?thesis using N le_antisym by blast
qed

lemma exec_freezes:
  assumes inv: "addr_inv s" and auth: "net_auth b (net_of s)"
  shows "\<exists>N. frozen (later N \<rho>) (exec \<rho> s N)"
proof -
  let ?D = "dom (nodes (net_of s))" and ?n = "\<lambda>i. net_of (exec \<rho> s i)"
  have fin: "finite ?D" by (rule finite_subset [of _ "fst ` set (homes s)"]) (force dest: map_of_SomeD)+
  have step: "?n (Suc i) = ?n i \<or> net_step (?n i) (?n (Suc i))" for i
    using turn_step [of "\<rho> i" "exec \<rho> s i"] sim_step_net [OF exec_inv [OF inv]] by (metis exec.simps(2))
  have good: "net_auth b (?n i) \<and> dom (nodes (?n i)) = ?D" for i
  proof (induction i)
    case (Suc i)
    from step [of i] show ?case
    proof
      assume "net_step (?n i) (?n (Suc i))"
      then show ?thesis using Suc net_auth_step net_step_dom by blast
    qed (use Suc in simp)
  qed (use auth in simp)
  have work: "?n (Suc i) = ?n i \<or> net_work ?D (?n (Suc i)) < net_work ?D (?n i)" for i
    using step [of i] good [of i] net_work_step [OF _ _ fin] by (metis order_refl)
  then have "net_work ?D (?n (Suc i)) \<le> net_work ?D (?n i)" for i by (metis less_imp_le order_refl)
  from decreasing_constant [of "\<lambda>i. net_work ?D (?n i)", OF this]
  obtain N where N: "\<And>i. net_work ?D (?n (N + i)) = net_work ?D (?n N)" by blast
  have "?n (N + i) = ?n N" for i
  proof (induction i)
    case (Suc i)
    then show ?case using work [of "N + i"] N [of i] N [of "Suc i"] by (metis add_Suc_right less_irrefl)
  qed simp
  then have "frozen (later N \<rho>) (exec \<rho> s N)" using exec_inv [OF inv] by (simp add: frozen_def exec_later)
  then show ?thesis by blast
qed

lemma fair_run_rests:
  assumes inv: "addr_inv s" and "net_auth b (net_of s)" and "fair n \<rho>" and "\<forall>(a, h) \<in> set (homes s). h < n"
  shows "\<exists>N. \<forall>j \<ge> N. quiescent (exec \<rho> s j) \<and> net_of (exec \<rho> s j) = net_of (exec \<rho> s N)"
proof -
  obtain N where N: "frozen (later N \<rho>) (exec \<rho> s N)" using exec_freezes [OF assms(1,2)] by blast
  have "quiescent (exec \<rho> s N)"
    by (rule frozen_quiescent [OF N fair_later [OF assms(3)]]) (use assms(4) exec_homes [OF inv] in simp)
  then have quiet: "net_quiet (net_of (exec \<rho> s N))" using quiescent_net exec_inv [OF inv] by blast
  have "net_of (exec \<rho> s j) = net_of (exec \<rho> s N)" if "j \<ge> N" for j
    using N that unfolding frozen_def exec_later by (metis le_add_diff_inverse)
  then show ?thesis using quiet quiescent_net exec_inv [OF inv] by metis
qed

text \<open>A round of all threads and then the loop, for ever, with one unit of time per turn.\<close>

definition round_robin :: "nat \<Rightarrow> nat \<Rightarrow> actor" where
  "round_robin n i = (if i mod Suc n = n then Main i else Thread (i mod Suc n))"

lemma round_robin_fair: "fair n (round_robin n)"
  unfolding fair_def
proof (intro conjI allI impI)
  fix h i
  assume "h < n"
  then have "round_robin n (Suc n * i + h) = Thread h"
    unfolding round_robin_def mod_mult_self4 by simp
  moreover have "i \<le> Suc n * i + h" by simp
  ultimately show "\<exists>j\<ge>i. round_robin n j = Thread h" by blast
next
  fix i
  have "round_robin n (Suc n * i + n) = Main (Suc n * i + n)"
    unfolding round_robin_def mod_mult_self4 by simp
  moreover have "i \<le> Suc n * i + n" by simp
  ultimately show "\<exists>j\<ge>i. \<exists>now. round_robin n j = Main now" by blast
next
  fix t
  show "\<exists>i. \<forall>j\<ge>i. \<forall>now. round_robin n j = Main now \<longrightarrow> t \<le> now"
    by (rule exI [of _ t]) (simp add: round_robin_def)
qed

text \<open>The worker at the bootstrap address knows every worker, at the address of a worker with that id.\<close>

definition informed :: "socket_addr \<Rightarrow> 'r sim_run \<Rightarrow> bool" where
  "informed b s \<longleftrightarrow> (\<exists>hb. (b, hb) \<in> set (homes s) \<and>
     (\<forall>(a, h) \<in> set (homes s). \<exists>x h'. worker_view (sim_threads s ! hb) (w_peer_id (sim_threads s ! h)) = Some x \<and>
        (x, h') \<in> set (homes s) \<and> w_peer_id (sim_threads s ! h') = w_peer_id (sim_threads s ! h)))"

end
