(* ===== verification/Unit_Tests.thy ===== *)
theory Unit_Tests
  imports Sim FlatPeerMap
begin

text \<open>
  The unit tests of \<open>src/src/hash.rs\<close> and \<open>src/src/types.rs\<close> as programs that panic when an
  assertion fails, over the same code outside the repository as the simulator. The tests without
  random numbers are shown to pass; for the others the theorems say on which random numbers they do.
\<close>

subsection \<open>The tests of hash.rs\<close>

definition test_leading_zeroes :: "unit outcome" where
  "test_leading_zeroes =
     res_bind (new_raw (replicate BLAKE2_HASH_SIZE 0)) (\<lambda>x.
     res_bind (assert_eq (leading_zeros x) (word_of_nat max_power - 1)) (\<lambda>_.
     res_bind (new_raw
       [0x00, 0xFF, 0x00, 0x00, 0x00, 0x00, 0x00, 0x00, 0x00, 0x00, 0x00, 0x00, 0x00, 0x00,
        0x00, 0x00, 0x00, 0x00, 0x00, 0x00, 0x00, 0x00, 0x00, 0x00, 0x00, 0x00, 0x00, 0x00,
        0x00, 0x00, 0x00, 0x00]) (\<lambda>x.
     res_bind (assert_eq (leading_zeros x) 7) (\<lambda>_.
     res_bind (new_raw
       [0x00, 0x00, 0x00, 0x00, 0x00, 0x00, 0x00, 0x00, 0x00, 0x00, 0x00, 0x00, 0x00, 0x00,
        0x00, 0x00, 0x00, 0x00, 0x00, 0x00, 0x00, 0x00, 0x00, 0x00, 0x00, 0x00, 0x00, 0x00,
        0x00, 0x00, 0x00, 0xFF]) (\<lambda>x.
     res_bind (assert_eq (leading_zeros x) 247) (\<lambda>_.
     res_bind (new_raw
       [0x00, 0x00, 0x01, 0x00, 0x00, 0x00, 0x00, 0x00, 0x00, 0x00, 0x00, 0x00, 0x00, 0x00,
        0x00, 0x00, 0x00, 0x00, 0x00, 0x00, 0x00, 0x00, 0x00, 0x00, 0x00, 0x00, 0x00, 0x00,
        0x00, 0x00, 0x00, 0x00]) (\<lambda>x.
     assert_eq (leading_zeros x) 22)))))))"

subsection \<open>The tests of types.rs\<close>

definition test_distance_rank :: "unit outcome" where
  "test_distance_rank =
     (let p1 = peer_id_raw
            [0, 0, 0, 0, 0, 0, 0, 0, 0, 0, 0, 0, 0, 0, 0, 0,
             0, 0, 0, 0, 0, 0, 0, 0, 0, 0, 0, 0, 0, 0, 0, 1];
          p2 = peer_id_raw
            [0, 0, 0, 0, 0, 0, 0, 0, 0, 0, 0, 0, 0, 0, 0, 0,
             0, 0, 0, 0, 0, 0, 0, 0, 0, 0, 0, 0, 0, 0, 0, 1]
      in res_bind (assert_eq (distance_rank p1 p2) 255) (\<lambda>_.
        let p3 = peer_id_raw
            [0, 0, 0, 0, 0, 0, 0, 0, 0, 0, 0, 0, 0, 0, 0, 0,
             0, 0, 0, 0, 0, 0, 0, 0, 0, 0, 0, 0, 0, 0, 1, 1]
        in assert_eq (distance_rank p1 p3) 246))"

definition test_distance_rank2 :: "unit outcome" where
  "test_distance_rank2 =
     (let p1 = peer_id_raw
            [0, 1, 0, 1, 1, 1, 0, 1, 0, 1, 0, 1, 0, 1, 0, 1,
             0, 1, 0, 1, 0, 1, 0, 1, 0, 1, 0, 1, 0, 1, 0, 1];
          p2 = peer_id_raw
            [0, 1, 0, 1, 0, 1, 0, 1, 0, 1, 0, 1, 0, 1, 0, 1,
             0, 1, 0, 1, 0, 1, 0, 1, 0, 1, 0, 1, 0, 1, 0, 1]
      in assert_eq (distance_rank p1 p2) 38)"

text \<open>\<open>(0..n).map(|_| Contact::new_dummy(PeerId::new_insecure_random(rng))).collect()\<close>.\<close>

definition random_id :: "'r externals \<Rightarrow> 'r \<Rightarrow> (peer_id \<times> 'r) outcome" where
  "random_id e rng = new_insecure_random (rand_u64 e) (bytes_of e) (blake2s e) rng"

fun random_contacts :: "'r externals \<Rightarrow> nat \<Rightarrow> 'r \<Rightarrow> (contact list \<times> 'r) outcome" where
  "random_contacts e 0 rng = Inr ([], rng)"
| "random_contacts e (Suc n) rng =
     res_bind (random_id e rng) (\<lambda>(p, rng).
     res_map (\<lambda>(cs, rng). (new_dummy p # cs, rng)) (random_contacts e n rng))"

definition peermap_contains :: "'r externals \<Rightarrow> unit outcome" where
  "peermap_contains e =
     res_bind (random_id e (rand64_new e 235445)) (\<lambda>(p, rng).
     res_bind (flat_default p) (\<lambda>m.
     res_bind (random_contacts e 12 rng) (\<lambda>(contains, rng).
     res_bind (res_fold flat_insert contains m) (\<lambda>m.
     res_bind (for_each (\<lambda>c. res_bind (flat_contains m (ct_peer_id c)) (\<lambda>r. assert_that (r \<noteq> None))) contains) (\<lambda>_.
     res_bind (random_contacts e 100 rng) (\<lambda>(does_not_contain, rng).
     for_each (\<lambda>c. res_bind (flat_contains m (ct_peer_id c)) (\<lambda>r. assert_that (r = None))) does_not_contain))))))"

definition peermap_eviction :: "'r externals \<Rightarrow> unit outcome" where
  "peermap_eviction e =
     res_bind (random_id e (rand64_new e 235445)) (\<lambda>(p, rng).
     res_bind (flat_default p) (\<lambda>m.
     res_bind (random_contacts e 12 rng) (\<lambda>(contains, rng).
     res_map (\<lambda>_. ()) (res_fold flat_insert contains m))))"

definition peermap_find_closest :: "'r externals \<Rightarrow> unit outcome" where
  "peermap_find_closest e =
     res_bind (random_id e (rand64_new e 235445)) (\<lambda>(p, rng).
     res_bind (flat_new p 16) (\<lambda>m.
     res_bind (random_contacts e 0xFF rng) (\<lambda>(contains, rng).
     res_bind (res_fold flat_insert contains m) (\<lambda>m.
     res_bind (flat_find_closest_peers m p 16) (\<lambda>itms.
     res_bind (assert_eq (length itms) 16) (\<lambda>_.
     assert_eq (flat_count m) 84))))))"

subsection \<open>Evaluation and random numbers\<close>

lemma replicate_32: "replicate 32 x = [x, x, x, x, x, x, x, x, x, x, x, x, x, x, x, x, x, x, x, x, x, x, x, x, x, x, x, x, x, x, x, x]"
  by (simp add: numeral_eq_Suc)

lemmas rank_eval = leading_zeros_def u32_saturating_sub_def lz_step_def u8_leading_zeros_def byte_lz_def byte_bits_def
  bitxor_Blake2Hash assert_eq_def Let_def

lemma test_leading_zeroes_passes: "test_leading_zeroes = Inr ()" 
  by (simp add: test_leading_zeroes_def new_raw_eq BLAKE2_HASH_SIZE_def replicate_32 rank_eval)

lemma test_distance_rank_passes: "test_distance_rank = Inr ()" 
  by (simp add: test_distance_rank_def distance_rank_def peer_id_raw_def leading_zeros_all_zero rank_eval replicate_32 )
lemma test_distance_rank2_passes: "test_distance_rank2 = Inr ()" 
  by (simp add: test_distance_rank2_def distance_rank_def peer_id_raw_def rank_eval)

lemma ball_not_mem_iff: "(\<forall>x \<in> D. f x \<notin> A) \<longleftrightarrow> A \<inter> f ` D = {}"
  by auto

lemma random_id_total: "externals_ok e \<Longrightarrow> \<exists>p rng'. random_id e rng = Inr (p, rng')"
  by (auto simp: externals_ok_def random_id_def new_insecure_random_def hash_new_eq split: prod.splits)

lemma random_contacts_total: "externals_ok e \<Longrightarrow> \<exists>cs rng'. random_contacts e n rng = Inr (cs, rng') \<and> length cs = n"
proof (induction n arbitrary: rng)
  case (Suc n)
  obtain p rng1 where "random_id e rng = Inr (p, rng1)" using random_id_total [OF Suc.prems] by blast
  then show ?case using Suc.IH [OF Suc.prems, of rng1] by auto
qed simp

lemma flat_new_16: "\<exists>m. flat_new p 16 = Inr m"
  by (simp add: flat_new_def usize_range_def)

subsection \<open>Properties\<close>

text \<open>
  The tests of the leading zeros and of the distance rank, which use no random numbers, pass.
\<close>

theorem deterministic_tests_pass:
  "test_leading_zeroes = Inr () \<and> test_distance_rank = Inr () \<and> test_distance_rank2 = Inr ()"
  by (simp add: test_leading_zeroes_passes test_distance_rank_passes test_distance_rank2_passes)

text \<open>
  The test \<open>peermap_contains\<close> passes exactly when none of the hundred ids drawn last is one of
  the twelve drawn before, whatever the generator and the digest: twelve contacts never overflow a
  bucket of sixteen slots, so the worry in its comment about evictions is unfounded.
\<close>

theorem peermap_contains_passes_iff:
  assumes "externals_ok e"
  shows "\<exists>p rng1 cs rng2 ds rng3. random_id e (rand64_new e 235445) = Inr (p, rng1) \<and>
    random_contacts e 12 rng1 = Inr (cs, rng2) \<and> random_contacts e 100 rng2 = Inr (ds, rng3) \<and>
    peermap_contains e = assert_that (ct_peer_id ` set cs \<inter> ct_peer_id ` set ds = {})"
proof -
  obtain p rng1 where p: "random_id e (rand64_new e 235445) = Inr (p, rng1)" using random_id_total [OF assms] by blast
  obtain cs rng2 where cs: "random_contacts e 12 rng1 = Inr (cs, rng2)" "length cs = 12" using random_contacts_total [OF assms] by blast
  obtain ds rng3 where ds: "random_contacts e 100 rng2 = Inr (ds, rng3)" using random_contacts_total [OF assms] by blast
  obtain m where m: "flat_new p 16 = Inr m" using flat_new_16 by blast
  obtain m' where m': "res_fold flat_insert cs m = Inr m'" "fpm_wf m'" "fpm_view m' = map_of (rev (map contact_pair cs))"
    using flat_inserts_few [of m cs] flat_new_wf [OF m] cs(2) by auto
  have known: "fpm_view m' q = None \<longleftrightarrow> q \<notin> ct_peer_id ` set cs" for q
    by (simp add: m'(3) map_of_eq_None_iff image_image)
  have check: "for_each (\<lambda>c. res_bind (flat_contains m' (ct_peer_id c)) (\<lambda>r. assert_that (Q (r = None)))) xs =
      assert_that (\<forall>c \<in> set xs. Q (ct_peer_id c \<notin> ct_peer_id ` set cs))" for Q xs
  proof (rule for_each_assert)
    fix c
    obtain r where "flat_contains m' (ct_peer_id c) = Inr r" "r = None \<longleftrightarrow> fpm_view m' (ct_peer_id c) = None"
      using flat_contains_None [OF m'(2)] by blast
    then show "res_bind (flat_contains m' (ct_peer_id c)) (\<lambda>r. assert_that (Q (r = None))) =
        assert_that (Q (ct_peer_id c \<notin> ct_peer_id ` set cs))" by (simp add: known)
  qed
  have "peermap_contains e =
      res_bind (assert_that (\<forall>c \<in> set cs. \<not> ct_peer_id c \<notin> ct_peer_id ` set cs)) (\<lambda>_.
      assert_that (\<forall>c \<in> set ds. ct_peer_id c \<notin> ct_peer_id ` set cs))"
    by (simp only: peermap_contains_def flat_default_def p cs(1) ds m m'(1) res_bind.simps prod.case
        check [of Not] check [of "\<lambda>b. b"])
  also have "\<dots> = assert_that (ct_peer_id ` set cs \<inter> ct_peer_id ` set ds = {})"
  proof -
    have all: "(\<forall>c \<in> set cs. \<not> ct_peer_id c \<notin> ct_peer_id ` set cs) \<longleftrightarrow> True" by simp
    show ?thesis unfolding all ball_not_mem_iff by (simp add: assert_that_def)
  qed
  finally have "peermap_contains e = assert_that (ct_peer_id ` set cs \<inter> ct_peer_id ` set ds = {})" .
  then show ?thesis
    by (intro exI [of _ p] exI [of _ rng1] exI [of _ cs] exI [of _ rng2] exI [of _ ds] exI [of _ rng3] conjI p cs(1) ds)
qed

text \<open>A generator whose ids are the bytes 0, 1, 2, ... repeated.\<close>

definition block_externals :: "nat externals" where
  "block_externals = sample_externals\<lparr>rand64_new := (\<lambda>_. 0), rand_u64 := (\<lambda>r. (word_of_nat (r div 32), Suc r))\<rparr>"

definition block_id :: "nat \<Rightarrow> peer_id" where
  "block_id k = peer_id_raw (replicate 32 (word_of_nat k))"

lemma block_externals_ok: "externals_ok block_externals"
  using sample_externals_ok by (simp add: block_externals_def externals_ok_def)

lemma block_fill:
  "r + n \<le> 32 \<Longrightarrow> fill_random (rand_u64 block_externals) n (32 * k + r) = (replicate n (word_of_nat k), 32 * k + r + n)"
proof (induction n arbitrary: r)
  case (Suc n)
  then show ?case using Suc.IH [of "Suc r"] by (simp add: block_externals_def)
qed simp

lemma u8_of_u64: "ucast (word_of_nat k :: u64) = (word_of_nat k :: u8)"
  by (simp add: unsigned_of_nat word_of_nat_eq_iff take_bit_take_bit)

lemma block_random_id: "random_id block_externals (32 * k) = Inr (block_id k, 32 * Suc k)"
  using block_fill [of 0 32 k]
  by (simp add: random_id_def new_insecure_random_def BLAKE2_HASH_SIZE_def hash_new_eq)
    (simp add: block_externals_def sample_externals_def block_id_def peer_id_raw_def u8_of_u64)

definition block_contacts :: "nat \<Rightarrow> nat \<Rightarrow> contact list" where
  "block_contacts a b = map (new_dummy \<circ> block_id) [a..<b]"

lemma block_contacts_ids: "ct_peer_id ` set (block_contacts a b) = block_id ` {a..<b}"
  by (force simp: block_contacts_def new_dummy_def)

lemma block_random_contacts:
  "random_contacts block_externals n (32 * k) = Inr (block_contacts k (k + n), 32 * (k + n))"
proof (induction n arbitrary: k)
  case (Suc n)
  show ?case using Suc [of "Suc k"] by (simp only: random_contacts.simps block_random_id) (simp add: block_contacts_def upt_rec [of k])
qed (simp add: block_contacts_def)

lemma block_id_inject: "i < 256 \<Longrightarrow> j < 256 \<Longrightarrow> block_id i = block_id j \<longleftrightarrow> i = j"
proof
  assume "i < 256" "j < 256" "block_id i = block_id j"
  then have "hash_bytes (peer_hash (block_id i)) = hash_bytes (peer_hash (block_id j))" by simp
  then show "i = j" using \<open>i < 256\<close> \<open>j < 256\<close>
    by (simp add: block_id_def peer_id_raw_def replicate_eq_replicate word_unat_eq_iff unat_of_nat)
qed simp

theorem peermap_contains_passes_iff_witness: "peermap_contains block_externals = Inr ()"
proof -
  have draws: "random_id block_externals 0 = Inr (block_id 0, 32)"
    "random_contacts block_externals 12 32 = Inr (block_contacts 1 13, 416)"
    "random_contacts block_externals 100 416 = Inr (block_contacts 13 113, 3616)"
    using block_random_id [of 0] block_random_contacts [of 12 1] block_random_contacts [of 100 13] by simp_all
  have "ct_peer_id ` set (block_contacts 1 13) \<inter> ct_peer_id ` set (block_contacts 13 113) = {}"
    unfolding block_contacts_ids using block_id_inject by fastforce
  moreover have "rand64_new block_externals 235445 = 0" by (simp add: block_externals_def)
  moreover obtain p rng1 cs rng2 ds rng3 where "random_id block_externals (rand64_new block_externals 235445) = Inr (p, rng1)"
      "random_contacts block_externals 12 rng1 = Inr (cs, rng2)" "random_contacts block_externals 100 rng2 = Inr (ds, rng3)"
      "peermap_contains block_externals = assert_that (ct_peer_id ` set cs \<inter> ct_peer_id ` set ds = {})"
    using peermap_contains_passes_iff [OF block_externals_ok] by blast
  ultimately show ?thesis using draws by (clarsimp simp: assert_that_def)
qed

text \<open>
  The test \<open>peermap_eviction\<close> never panics, and \<open>peermap_find_closest\<close> passes exactly when the
  table knows 84 peers after the insertions: its first assertion then holds as well.
\<close>

theorem peermap_find_closest_passes_iff:
  assumes "externals_ok e"
  shows "peermap_eviction e = Inr () \<and> (\<exists>p rng1 cs rng2 m m'. random_id e (rand64_new e 235445) = Inr (p, rng1) \<and>
    random_contacts e 255 rng1 = Inr (cs, rng2) \<and> flat_new p 16 = Inr m \<and> res_fold flat_insert cs m = Inr m' \<and>
    (peermap_find_closest e = Inr () \<longleftrightarrow> card (dom (fpm_view m')) = 84))"
proof -
  obtain p rng1 where p: "random_id e (rand64_new e 235445) = Inr (p, rng1)" using random_id_total [OF assms] by blast
  obtain m where m: "flat_new p 16 = Inr m" using flat_new_16 by blast
  note total = flat_inserts_total [OF flat_new_wf(1) [OF m]]
  obtain cs rng2 where cs: "random_contacts e 255 rng1 = Inr (cs, rng2)" using random_contacts_total [OF assms] by blast
  obtain m' where m': "res_fold flat_insert cs m = Inr m'" "fpm_wf m'" "fpm_bucket_size m' = 16"
    using total [of cs] flat_new_wf(3) [OF m] by auto
  obtain itms where itms: "flat_find_closest_peers m' p 16 = Inr itms" using flat_find_closest_visits [OF m'(2), of 16] m'(3) by simp
  have "length itms = 16" if "fpm_count m' = 84" using flat_closest_result [OF m'(2) itms] that by simp
  then have "peermap_find_closest e = Inr () \<longleftrightarrow> card (dom (fpm_view m')) = 84"
    using p m cs m'(1) itms fpm_count_card [OF m'(2)]
    by (auto simp: peermap_find_closest_def assert_eq_def flat_count_def)
  moreover obtain ds rng3 where "random_contacts e 12 rng1 = Inr (ds, rng3)" using random_contacts_total [OF assms] by blast
  then have "peermap_eviction e = Inr ()"
    using p m total [of ds] flat_new_wf(3) [OF m] by (auto simp: peermap_eviction_def flat_default_def)
  ultimately show ?thesis using p m cs m'(1) by blast
qed

text \<open>A generator that always returns the same number.\<close>

definition constant_externals :: "nat externals" where
  "constant_externals = sample_externals\<lparr>rand_u64 := (\<lambda>r. (0, r))\<rparr>"

lemma constant_externals_ok: "externals_ok constant_externals"
  using sample_externals_ok by (simp add: constant_externals_def externals_ok_def)

lemma constant_fill: "fill_random (rand_u64 constant_externals) n r = (replicate n 0, r)"
  by (induction n) (simp_all add: constant_externals_def)

lemma constant_random_id: "\<exists>p. \<forall>r. random_id constant_externals r = Inr (p, r)"
  using constant_externals_ok by (simp add: random_id_def new_insecure_random_def constant_fill hash_new_eq externals_ok_def)

lemma constant_random_contacts:
  assumes "\<forall>r. random_id constant_externals r = Inr (p, r)"
  shows "random_contacts constant_externals n r = Inr (replicate n (new_dummy p), r)"
  by (induction n) (simp_all add: assms)

theorem peermap_find_closest_passes_iff_witness:
  "peermap_eviction block_externals = Inr () \<and> peermap_find_closest constant_externals \<noteq> Inr ()"
proof
  show "peermap_eviction block_externals = Inr ()" using peermap_find_closest_passes_iff [OF block_externals_ok] by simp
  from peermap_find_closest_passes_iff [OF constant_externals_ok] obtain p rng1 cs rng2 m m' where
    w: "random_id constant_externals (rand64_new constant_externals 235445) = Inr (p, rng1)"
      "random_contacts constant_externals 255 rng1 = Inr (cs, rng2)" "flat_new p 16 = Inr m" "res_fold flat_insert cs m = Inr m'"
      "peermap_find_closest constant_externals = Inr () \<longleftrightarrow> card (dom (fpm_view m')) = 84" by blast
  have "ct_peer_id ` set cs \<subseteq> {p}"
    using constant_random_id w(1) w(2) constant_random_contacts [of p 255 rng1] by (auto simp: new_dummy_def)
  moreover have "dom (fpm_view m') \<subseteq> ct_peer_id ` set cs"
    using flat_inserts_total [of m cs] flat_new_wf [OF w(3)] w(4) by auto
  ultimately have "card (dom (fpm_view m')) \<le> 1" using card_mono [of "{p}" "dom (fpm_view m')"] by auto
  then show "peermap_find_closest constant_externals \<noteq> Inr ()" using w(5) by simp
qed

end
