(* ===== verification/Transport.thy ===== *)
theory Transport
  imports WD_Prelude
begin

text \<open>
  The streams of the QUIC library, which is not part of the repository: their operations are
  arguments of the code that uses them. \<open>stream_laws\<close> states what the library documents of a
  connection that works: \<open>read_to_end\<close> returns everything the other side sent before it finished,
  or fails if that is more than the limit; \<open>write_all\<close> appends; \<open>finish\<close> closes the sending side.
\<close>

record ('s, 'e) stream_io =
  io_read_to_end :: "nat \<Rightarrow> 's \<Rightarrow> 'e + u8 list \<times> 's"
  io_write_all :: "u8 list \<Rightarrow> 's \<Rightarrow> 'e + 's"
  io_finish :: "'s \<Rightarrow> 'e + 's"

record 's stream_view =
  incoming :: "'s \<Rightarrow> u8 list"
  written :: "'s \<Rightarrow> u8 list"
  finished :: "'s \<Rightarrow> bool"

definition stream_laws :: "('s, 'e) stream_io \<Rightarrow> 's stream_view \<Rightarrow> bool" where
  "stream_laws io v \<longleftrightarrow>
     (\<forall>n s. if length (incoming v s) \<le> n
        then \<exists>s'. io_read_to_end io n s = Inr (incoming v s, s') \<and> written v s' = written v s \<and> finished v s' = finished v s
        else \<exists>e. io_read_to_end io n s = Inl e) \<and>
     (\<forall>bs s. \<not> finished v s \<longrightarrow>
        (\<exists>s'. io_write_all io bs s = Inr s' \<and> written v s' = written v s @ bs \<and> \<not> finished v s' \<and> incoming v s' = incoming v s)) \<and>
     (\<forall>s. \<exists>s'. io_finish io s = Inr s' \<and> written v s' = written v s \<and> finished v s' \<and> incoming v s' = incoming v s)"

text \<open>\<open>Result::map_err\<close> with a closure that logs, and \<open>ResultExt::inspect_err\<close>, which logs and returns the result.\<close>

fun map_err :: "('e \<Rightarrow> 'f) \<Rightarrow> 'e + 'a \<Rightarrow> 'f + 'a" where
  "map_err f (Inl e) = Inl (f e)"
| "map_err f (Inr x) = Inr x"

text \<open>A stream as two buffers: an instance that satisfies the laws.\<close>

record pipe =
  p_in :: "u8 list"
  p_out :: "u8 list"
  p_fin :: bool

definition pipe_io :: "(pipe, unit) stream_io" where
  "pipe_io = \<lparr>io_read_to_end = (\<lambda>n s. if length (p_in s) \<le> n then Inr (p_in s, s) else Inl ()),
     io_write_all = (\<lambda>bs s. if p_fin s then Inl () else Inr (s\<lparr>p_out := p_out s @ bs\<rparr>)),
     io_finish = (\<lambda>s. Inr (s\<lparr>p_fin := True\<rparr>))\<rparr>"

definition pipe_view :: "pipe stream_view" where
  "pipe_view = \<lparr>incoming = p_in, written = p_out, finished = p_fin\<rparr>"

lemma pipe_laws: "stream_laws pipe_io pipe_view"
  by (simp add: stream_laws_def pipe_io_def pipe_view_def)

lemma stream_read:
  assumes "stream_laws io v" and "length (incoming v s) \<le> n"
  obtains s' where "io_read_to_end io n s = Inr (incoming v s, s')" "written v s' = written v s" "finished v s' = finished v s"
  using assms unfolding stream_laws_def by meson

lemma stream_read_limit:
  assumes "stream_laws io v" and "n < length (incoming v s)"
  shows "\<exists>e. io_read_to_end io n s = Inl e"
proof -
  have "if length (incoming v s) \<le> n
      then \<exists>s'. io_read_to_end io n s = Inr (incoming v s, s') \<and> written v s' = written v s \<and> finished v s' = finished v s
      else \<exists>e. io_read_to_end io n s = Inl e"
    using assms(1) unfolding stream_laws_def by (elim conjE allE)
  then show ?thesis using assms(2) by simp
qed

lemma stream_write:
  assumes "stream_laws io v" and "\<not> finished v s"
  obtains s' where "io_write_all io bs s = Inr s'" "written v s' = written v s @ bs" "\<not> finished v s'" "incoming v s' = incoming v s"
  using assms unfolding stream_laws_def by meson

lemma stream_finish:
  assumes "stream_laws io v"
  obtains s' where "io_finish io s = Inr s'" "written v s' = written v s" "finished v s'" "incoming v s' = incoming v s"
  using assms unfolding stream_laws_def by meson

end
