(* ===== verification/Std_Utf8.thy ===== *)
theory Std_Utf8
  imports WD_Prelude
begin

text \<open>
  What the program uses of the standard library's strings: \<open>String::from_utf8_lossy\<close>, on the bytes
  of the string it returns.
\<close>

subsection \<open>Lossy decoding\<close>

definition is_cont :: "u8 list \<Rightarrow> nat \<Rightarrow> bool" where
  "is_cont bs i \<longleftrightarrow> i < length bs \<and> 0x80 \<le> bs ! i \<and> bs ! i \<le> 0xBF"

text \<open>The second byte of a sequence of three or four: no overlong form, surrogate or value above U+10FFFF.\<close>

definition second_ok :: "u8 list \<Rightarrow> bool" where
  "second_ok bs \<longleftrightarrow> is_cont bs 1 \<and>
     (bs ! 0 = 0xE0 \<longrightarrow> 0xA0 \<le> bs ! 1) \<and> (bs ! 0 = 0xED \<longrightarrow> bs ! 1 \<le> 0x9F) \<and>
     (bs ! 0 = 0xF0 \<longrightarrow> 0x90 \<le> bs ! 1) \<and> (bs ! 0 = 0xF4 \<longrightarrow> bs ! 1 \<le> 0x8F)"

text \<open>The length of the sequence a byte starts, 0 if it starts none.\<close>

definition utf8_width :: "u8 \<Rightarrow> nat" where
  "utf8_width b =
     (if b < 0x80 then 1 else if 0xC2 \<le> b \<and> b \<le> 0xDF then 2 else if 0xE0 \<le> b \<and> b \<le> 0xEF then 3
      else if 0xF0 \<le> b \<and> b \<le> 0xF4 then 4 else 0)"

text \<open>
  The first sequence of a non-empty list of bytes: whether it encodes a character, and its length;
  an ill-formed sequence is as long as it could be the start of a well-formed one.
\<close>

definition utf8_first :: "u8 list \<Rightarrow> bool \<times> nat" where
  "utf8_first bs =
     (let w = utf8_width (bs ! 0) in
      if w = 0 then (False, 1)
      else if w = 1 then (True, 1)
      else if w = 2 then (if is_cont bs 1 then (True, 2) else (False, 1))
      else if \<not> second_ok bs then (False, 1)
      else if \<not> is_cont bs 2 then (False, 2)
      else if w = 3 then (True, 3)
      else if is_cont bs 3 then (True, 4) else (False, 3))"

lemma utf8_first_pos: "0 < snd (utf8_first bs)"
  by (simp add: utf8_first_def Let_def)

lemma is_cont_less: "is_cont bs i \<Longrightarrow> i < length bs"
  by (simp add: is_cont_def)

lemma second_ok_less: "second_ok bs \<Longrightarrow> 1 < length bs"
  by (simp add: second_ok_def is_cont_def)

lemma utf8_first_le: "bs \<noteq> [] \<Longrightarrow> snd (utf8_first bs) \<le> length bs"
  using is_cont_less [of bs 1] is_cont_less [of bs 2] is_cont_less [of bs 3] second_ok_less [of bs]
  by (auto simp: utf8_first_def Let_def Suc_le_eq)

lemma utf8_rest_less: "bs \<noteq> [] \<Longrightarrow> length (drop (snd (utf8_first bs)) bs) < length bs"
  using utf8_first_pos [of bs] by simp

function from_utf8_lossy :: "u8 list \<Rightarrow> u8 list" where
  "from_utf8_lossy bs =
     (if bs = [] then []
      else (if fst (utf8_first bs) then take (snd (utf8_first bs)) bs else [0xEF, 0xBF, 0xBD]) @
        from_utf8_lossy (drop (snd (utf8_first bs)) bs))"
  by pat_completeness auto
termination
  by (relation "measure length") (use utf8_rest_less in auto)

function utf8_valid :: "u8 list \<Rightarrow> bool" where
  "utf8_valid bs \<longleftrightarrow>
     (if bs = [] then True else fst (utf8_first bs) \<and> utf8_valid (drop (snd (utf8_first bs)) bs))"
  by pat_completeness auto
termination
  by (relation "measure length") (use utf8_rest_less in auto)

declare from_utf8_lossy.simps [simp del] utf8_valid.simps [simp del]

lemma utf8_first_prefix:
  assumes "bs \<noteq> []" and "utf8_first bs = (True, n)"
  shows "utf8_first (take n bs @ rest) = (True, n)"
proof -
  let ?cs = "take n bs @ rest"
  have le: "n \<le> length bs" using utf8_first_le [OF assms(1)] assms(2) by simp
  have nth: "?cs ! i = bs ! i" if "i < n" for i using le that by (simp add: nth_append)
  have cont: "is_cont ?cs i \<longleftrightarrow> is_cont bs i" if "i < n" for i
    unfolding is_cont_def nth [OF that] using le that by simp
  have "0 < n" using utf8_first_pos [of bs] assms(2) by simp
  then have hd: "?cs ! 0 = bs ! 0" by (rule nth)
  have second: "second_ok ?cs \<longleftrightarrow> second_ok bs" if "1 < n"
    unfolding second_ok_def hd nth [OF that] cont [OF that] ..
  consider "n = 1" "utf8_width (bs ! 0) = 1" | "n = 2" "utf8_width (bs ! 0) = 2" "is_cont bs 1"
    | "n = 3" "utf8_width (bs ! 0) = 3" "second_ok bs" "is_cont bs 2"
    | "n = 4" "utf8_width (bs ! 0) \<notin> {0, 1, 2, 3}" "second_ok bs" "is_cont bs 2" "is_cont bs 3"
    using assms(2) by (simp add: utf8_first_def Let_def split: if_splits)
  then show ?thesis
  proof cases
    case 4
    then have "second_ok ?cs" "is_cont ?cs 2" "is_cont ?cs 3" using second cont by simp_all
    then show ?thesis using 4 unfolding utf8_first_def hd by simp
  next
    case 3
    then have "second_ok ?cs" "is_cont ?cs 2" using second cont by simp_all
    then show ?thesis using 3 unfolding utf8_first_def hd by simp
  next
    case 2
    then have "is_cont ?cs 1" using cont by simp
    then show ?thesis using 2 unfolding utf8_first_def hd by simp
  next
    case 1
    then show ?thesis unfolding utf8_first_def hd by simp
  qed
qed

lemma lossy_Nil [simp]: "from_utf8_lossy [] = []"
  by (subst from_utf8_lossy.simps) simp

lemma valid_Nil [simp]: "utf8_valid []"
  by (subst utf8_valid.simps) simp

lemma valid_append_first:
  assumes "bs \<noteq> []" and "utf8_first bs = (True, n)" and "utf8_valid rest"
  shows "utf8_valid (take n bs @ rest)"
proof -
  have "n \<le> length bs" using utf8_first_le [OF assms(1)] assms(2) by simp
  then show ?thesis
    using utf8_first_prefix [OF assms(1,2), of rest] assms(3) by (subst utf8_valid.simps) simp
qed

text \<open>The result is always well-formed, and a well-formed text is decoded as it is.\<close>

lemma replacement_first: "utf8_first [0xEF, 0xBF, 0xBD] = (True, 3)"
  by (simp add: utf8_first_def utf8_width_def is_cont_def second_ok_def)

lemma lossy_valid: "utf8_valid (from_utf8_lossy bs)"
proof (induction bs rule: from_utf8_lossy.induct)
  case (1 bs)
  show ?case
  proof (cases "bs = []")
    case False
    obtain ok n where first: "utf8_first bs = (ok, n)" by fastforce
    have rest: "utf8_valid (from_utf8_lossy (drop n bs))" using 1 [OF False] first by simp
    note eq = from_utf8_lossy.simps [of bs]
    show ?thesis
    proof (cases ok)
      case True
      then show ?thesis using valid_append_first [OF False _ rest, of n] first False by (simp add: eq)
    next
      case False
      then show ?thesis
        using valid_append_first [OF _ replacement_first rest] first \<open>bs \<noteq> []\<close> by (simp add: eq)
    qed
  qed simp
qed

lemma lossy_id: "utf8_valid bs \<Longrightarrow> from_utf8_lossy bs = bs"
proof (induction bs rule: utf8_valid.induct)
  case (1 bs)
  show ?case
  proof (cases "bs = []")
    case False
    then have "fst (utf8_first bs)" "utf8_valid (drop (snd (utf8_first bs)) bs)"
      using 1(2) utf8_valid.simps [of bs] by simp_all
    then show ?thesis using 1(1) False from_utf8_lossy.simps [of bs] by simp
  qed simp
qed

lemma ascii_valid: "\<forall>b \<in> set bs. b < 0x80 \<Longrightarrow> utf8_valid bs"
proof (induction bs)
  case (Cons b bs)
  then show ?case by (subst utf8_valid.simps) (simp add: utf8_first_def utf8_width_def)
qed simp

end
