(* ===== verification/Peer_Binary.thy ===== *)
theory Peer_Binary
  imports Transport Std_Utf8
begin

text \<open>
  The model of \<open>src/src/bin/peer.rs\<close>: a server that answers every request on a stream with what it
  received, and the clients that talk to it. The streams and connections of the QUIC library and
  the standard output are arguments. Options, endpoints, certificates and \<open>main\<close> are in \<open>Peer_Main\<close>.
\<close>

definition ascii :: "string \<Rightarrow> u8 list" where
  "ascii s = map of_char s"

subsection \<open>The server\<close>

text \<open>\<open>handle_request\<close>: the stream after the response is sent and finished, or an error that was logged.\<close>

definition response_to :: "u8 list \<Rightarrow> u8 list" where
  "response_to req = ascii ''Received: '' @ from_utf8_lossy req"

definition handle_request :: "('s, 'e) stream_io \<Rightarrow> 's \<Rightarrow> unit + 's" where
  "handle_request io s =
     res_bind (map_err (\<lambda>_. ()) (io_read_to_end io (64 * 1024) s)) (\<lambda>(req, s).
     let resp = response_to req in
     res_bind (map_err (\<lambda>_. ()) (io_write_all io resp s)) (\<lambda>s.
     map_err (\<lambda>_. ()) (io_finish io s)))"

text \<open>\<open>quinn::ConnectionError\<close>: the variant the code looks into, and all others.\<close>

datatype 'x connection_error = ApplicationClosed nat | OtherError 'x

text \<open>What the driver task logs when it ends with an error.\<close>

fun driver_report :: "'x connection_error \<Rightarrow> string option" where
  "driver_report (ApplicationClosed error_code) = (if error_code \<noteq> 0 then Some ''Application error'' else None)"
| "driver_report (OtherError e) = Some ''UDP I/O error''"

text \<open>
  The loop over the streams of a connection, as what \<open>bi_streams.next()\<close> yields in order (the end
  of the list is \<open>None\<close>): the result, and the streams a request handler is spawned for.
\<close>

fun serve_streams :: "('x connection_error + 's) list \<Rightarrow> ('x connection_error + unit) \<times> 's list" where
  "serve_streams [] = (Inr (), [])"
| "serve_streams (Inl (ApplicationClosed c) # rest) = (Inr (), [])"
| "serve_streams (Inl (OtherError e) # rest) = (Inl (OtherError e), [])"
| "serve_streams (Inr s # rest) = (let (r, ss) = serve_streams rest in (r, s # ss))"

text \<open>
  \<open>handle_connection\<close>: a connection that is not established ends with its error, one whose streams
  fail with theirs. Otherwise the driver task is awaited; the code panics if that task panicked.
\<close>

definition handle_connection ::
  "'x connection_error + ('x connection_error + 's) list \<Rightarrow> bool \<Rightarrow> ('x connection_error + unit) outcome \<times> 's list" where
  "handle_connection conn driver_panicked =
     (case conn of
        Inl e \<Rightarrow> (Inr (Inl e), [])
      | Inr streams \<Rightarrow>
          (case serve_streams streams of
             (Inl e, ss) \<Rightarrow> (Inr (Inl e), ss)
           | (Inr _, ss) \<Rightarrow> (if driver_panicked then Inl (Expectation ''TODO'') else Inr (Inr ()), ss)))"

text \<open>
  The accept loop of \<open>run_server\<close>: every connection is handled by a task of its own, and an error
  of one is only logged. The result is the streams that requests are handled on, per connection.
\<close>

fun accept_loop :: "(('x connection_error + ('x connection_error + 's) list) \<times> bool) list \<Rightarrow> 's list list" where
  "accept_loop [] = []"
| "accept_loop ((conn, driver_panicked) # rest) = snd (handle_connection conn driver_panicked) # accept_loop rest"

subsection \<open>The client\<close>

text \<open>
  The task of \<open>run_client\<close> on the stream it opened: what it has sent, handed to the other side when
  it is finished, and what it prints. \<open>answer\<close> is what reading the response yields.
\<close>

definition client_request :: "('s, 'e) stream_io \<Rightarrow> u8 list \<Rightarrow> 's \<Rightarrow> 's outcome" where
  "client_request io message s =
     res_bind (expect ''TODO'' (io_write_all io message s)) (\<lambda>s.
     expect ''TODO'' (io_finish io s))"

definition client_response :: "('s, 'e) stream_io \<Rightarrow> 's \<Rightarrow> u8 list outcome" where
  "client_response io s =
     res_map (\<lambda>(resp, _). resp @ [0x0A]) (expect ''TODO'' (io_read_to_end io (2 ^ 64 - 1) s))"

text \<open>The messages of the clients \<open>main\<close> starts.\<close>

definition digit :: "nat \<Rightarrow> char" where
  "digit i = char_of (48 + i)"

definition client_message :: "nat \<Rightarrow> u8 list" where
  "client_message i = ascii (''This is client '' @ [digit i])"

definition client_messages :: "u8 list list" where
  "client_messages = map client_message [0..<10]"

subsection \<open>Requests\<close>

lemma handle_request_spec:
  assumes laws: "stream_laws io v" and "\<not> finished v s" and "length (incoming v s) \<le> 65536"
  shows "\<exists>s'. handle_request io s = Inr s' \<and> finished v s' \<and> written v s' = written v s @ response_to (incoming v s)"
proof -
  from stream_read [OF laws, of s 65536] assms(3) obtain s1 where
    s1: "io_read_to_end io 65536 s = Inr (incoming v s, s1)" "written v s1 = written v s" "finished v s1 = finished v s" by auto
  from stream_write [OF laws, of s1 "response_to (incoming v s)"] assms(2) s1(3) obtain s2 where
    s2: "io_write_all io (response_to (incoming v s)) s1 = Inr s2" "written v s2 = written v s1 @ response_to (incoming v s)" by auto
  from stream_finish [OF laws, of s2] obtain s3 where "io_finish io s2 = Inr s3" "written v s3 = written v s2" "finished v s3" by auto
  then show ?thesis using s1 s2 by (simp add: handle_request_def)
qed

lemma serve_streams_prefix:
  "serve_streams (map Inr ss @ rest) = (fst (serve_streams rest), ss @ snd (serve_streams rest))"
  by (induction ss) (simp_all add: case_prod_beta)

lemma serve_streams_all: "serve_streams (map Inr ss) = (Inr (), ss)"
  using serve_streams_prefix [where rest = "[]"] by simp

lemma client_message_ok: "utf8_valid (client_message i) \<and> length (client_message i) \<le> 65536" if "i < 10"
proof -
  have "i \<in> {0, 1, 2, 3, 4, 5, 6, 7, 8, 9}" using that by auto
  then have "\<forall>b \<in> set (client_message i). b < 0x80"
    by (elim insertE) (simp_all add: client_message_def ascii_def digit_def char_of_def)
  moreover have "length (client_message i) = 16" by (simp add: client_message_def ascii_def)
  ultimately show ?thesis using ascii_valid by simp
qed

lemma ascii_append_valid: "\<forall>b \<in> set as. b < 0x80 \<Longrightarrow> utf8_valid bs \<Longrightarrow> utf8_valid (as @ bs)"
proof (induction as)
  case (Cons a as)
  then show ?case by (subst utf8_valid.simps) (simp add: utf8_first_def utf8_width_def)
qed simp

lemma response_to_valid: "utf8_valid (response_to req)"
  unfolding response_to_def by (rule ascii_append_valid) (simp_all add: ascii_def lossy_valid)

subsection \<open>Properties\<close>

text \<open>
  C33. The server answers a request exactly when it has at most 64 KiB: then the response, which is
  the request as decoded after a prefix and always well-formed UTF-8, is written and the stream
  is finished; a longer request ends in an error.
\<close>

theorem handle_request_answers_iff:
  assumes "stream_laws io v" and "\<not> finished v s"
  shows "if length (incoming v s) \<le> 65536
    then \<exists>s'. handle_request io s = Inr s' \<and> finished v s' \<and>
      written v s' = written v s @ response_to (incoming v s) \<and> utf8_valid (response_to (incoming v s))
    else handle_request io s = Inl ()"
proof (cases "length (incoming v s) \<le> 65536")
  case True
  then show ?thesis using handle_request_spec [OF assms True] response_to_valid by simp
next
  case False
  then obtain e where "io_read_to_end io 65536 s = Inl e" using stream_read_limit [OF assms(1), of 65536 s] by auto
  then show ?thesis using False by (simp add: handle_request_def)
qed

theorem handle_request_answers_iff_witness:
  "handle_request pipe_io \<lparr>p_in = replicate 65537 0, p_out = [], p_fin = False\<rparr> = Inl () \<and>
   (\<exists>s'. handle_request pipe_io \<lparr>p_in = [0xFF, 0x41], p_out = [], p_fin = False\<rparr> = Inr s' \<and> p_fin s' \<and>
      p_out s' = ascii ''Received: '' @ [0xEF, 0xBF, 0xBD, 0x41])"
proof
  show "handle_request pipe_io \<lparr>p_in = replicate 65537 0, p_out = [], p_fin = False\<rparr> = Inl ()"
    using handle_request_answers_iff [OF pipe_laws, of "\<lparr>p_in = replicate 65537 0, p_out = [], p_fin = False\<rparr>"]
    by (simp add: pipe_view_def)
  have "response_to [0xFF, 0x41] = ascii ''Received: '' @ [0xEF, 0xBF, 0xBD, 0x41]"
    by (simp add: response_to_def from_utf8_lossy.simps utf8_first_def utf8_width_def)
  then show "\<exists>s'. handle_request pipe_io \<lparr>p_in = [0xFF, 0x41], p_out = [], p_fin = False\<rparr> = Inr s' \<and> p_fin s' \<and>
      p_out s' = ascii ''Received: '' @ [0xEF, 0xBF, 0xBD, 0x41]"
    using handle_request_answers_iff [OF pipe_laws, of "\<lparr>p_in = [0xFF, 0x41], p_out = [], p_fin = False\<rparr>"]
    by (auto simp: pipe_view_def)
qed

text \<open>
  A client's exchange with the server, over streams that deliver what the other side wrote: a
  message of at most 64 KiB of well-formed UTF-8 comes back unchanged after the prefix
  \<open>Received: \<close>, and the client prints it with a newline; neither side panics.
\<close>

theorem client_server_echo:
  assumes "stream_laws io v" and "\<not> finished v c" and "written v c = []"
    and "utf8_valid message" and "length message \<le> 65536"
  shows "\<exists>c'. client_request io message c = Inr c' \<and> finished v c' \<and> written v c' = message \<and>
    (\<forall>s. incoming v s = written v c' \<and> \<not> finished v s \<and> written v s = [] \<longrightarrow>
      (\<exists>s'. handle_request io s = Inr s' \<and> finished v s' \<and>
        (\<forall>c2. incoming v c2 = written v s' \<longrightarrow>
          client_response io c2 = Inr (ascii ''Received: '' @ message @ [0x0A]))))"
proof -
  from stream_write [OF assms(1,2), of message] obtain c1 where
    c1: "io_write_all io message c = Inr c1" "written v c1 = message" using assms(3) by auto
  from stream_finish [OF assms(1), of c1] obtain c' where
    c': "io_finish io c1 = Inr c'" "written v c' = message" "finished v c'" using c1(2) by auto
  have resp: "response_to message = ascii ''Received: '' @ message" using assms(4) by (simp add: response_to_def lossy_id)
  have client: "client_response io c2 = Inr (ascii ''Received: '' @ message @ [0x0A])"
    if "incoming v c2 = response_to message" for c2
  proof -
    have "length (incoming v c2) \<le> 2 ^ 64 - 1" using assms(5) by (simp add: that resp ascii_def)
    from stream_read [OF assms(1) this] obtain s' where "io_read_to_end io (2 ^ 64 - 1) c2 = Inr (incoming v c2, s')" by auto
    then show ?thesis by (simp add: client_response_def that resp)
  qed
  have "\<exists>s'. handle_request io s = Inr s' \<and> finished v s' \<and> written v s' = response_to message"
    if "incoming v s = message" "\<not> finished v s" "written v s = []" for s
    using handle_request_spec [OF assms(1) that(2)] that assms(5) by simp
  then show ?thesis using c1 c' client by (intro exI [of _ c']) (fastforce simp: client_request_def)
qed

theorem client_server_echo_witness:
  "\<exists>c' s'. client_request pipe_io (client_message 7) \<lparr>p_in = [], p_out = [], p_fin = False\<rparr> = Inr c' \<and>
     handle_request pipe_io \<lparr>p_in = p_out c', p_out = [], p_fin = False\<rparr> = Inr s' \<and>
     client_response pipe_io (c'\<lparr>p_in := p_out s'\<rparr>) = Inr (ascii ''Received: '' @ client_message 7 @ [0x0A])"
proof -
  from client_server_echo [OF pipe_laws, of "\<lparr>p_in = [], p_out = [], p_fin = False\<rparr>" "client_message 7"]
    client_message_ok [of 7] obtain c' where
    c': "client_request pipe_io (client_message 7) \<lparr>p_in = [], p_out = [], p_fin = False\<rparr> = Inr c'"
      "\<forall>s. p_in s = p_out c' \<and> \<not> p_fin s \<and> p_out s = [] \<longrightarrow> (\<exists>s'. handle_request pipe_io s = Inr s' \<and> p_fin s' \<and>
        (\<forall>c2. p_in c2 = p_out s' \<longrightarrow> client_response pipe_io c2 = Inr (ascii ''Received: '' @ client_message 7 @ [0x0A])))"
    by (auto simp: pipe_view_def)
  from spec [OF c'(2), of "\<lparr>p_in = p_out c', p_out = [], p_fin = False\<rparr>"] obtain s' where "handle_request pipe_io \<lparr>p_in = p_out c', p_out = [], p_fin = False\<rparr> = Inr s'"
      "\<forall>c2. p_in c2 = p_out s' \<longrightarrow> client_response pipe_io c2 = Inr (ascii ''Received: '' @ client_message 7 @ [0x0A])"
    by auto
  then show "\<exists>c' s'. client_request pipe_io (client_message 7) \<lparr>p_in = [], p_out = [], p_fin = False\<rparr> = Inr c' \<and>
     handle_request pipe_io \<lparr>p_in = p_out c', p_out = [], p_fin = False\<rparr> = Inr s' \<and>
     client_response pipe_io (c'\<lparr>p_in := p_out s'\<rparr>) = Inr (ascii ''Received: '' @ client_message 7 @ [0x0A])"
    using c'(1) by (intro exI [of _ c'] exI [of _ s']) simp
qed

text \<open>
  A request handler is spawned for every stream of a connection that opens before the first
  error, in order, and for none after it. The connection ends in an error exactly when that error
  is not the application closing it.
\<close>

theorem handle_connection_serves_prefix:
  "handle_connection (Inr (map Inr ss @ Inl (err :: 'x connection_error) # rest)) driver_panicked =
     (case err of
        OtherError _ \<Rightarrow> (Inr (Inl err), ss)
      | ApplicationClosed _ \<Rightarrow> (if driver_panicked then Inl (Expectation ''TODO'') else Inr (Inr ()), ss)) \<and>
   handle_connection (Inr (map Inr ss) :: 'x connection_error + ('x connection_error + 's) list) driver_panicked =
     (if driver_panicked then Inl (Expectation ''TODO'') else Inr (Inr ()), ss)"
  by (cases err) (simp_all add: handle_connection_def serve_streams_prefix serve_streams_all)

end
