(* ===== verification/Peer_Setup.thy ===== *)
theory Peer_Setup
  imports Types Transport
begin

text \<open>
  What the two QUIC peers \<open>src/src/peer.rs\<close> and \<open>src/src/peer2.rs\<close> share: the command line options,
  the errors of the crate \<open>failure\<close>, the question mark operator, and the loading of the TLS keys. The file
  system and the PEM parser are arguments.
\<close>

subsection \<open>Options\<close>

text \<open>
  \<open>PeerOpt\<close>. The type of the bootstrap peer is a \<open>SocketAddr\<close> in \<open>bin/sim.rs\<close> and \<open>peer2.rs\<close>, and was
  a URL when \<open>peer.rs\<close> was written. A path is its text.
\<close>

record 'b peer_opt =
  bootstrap_peer :: "'b option"
  listen :: socket_addr
  ca :: "string option"
  key :: string
  cert :: string
  logproto :: bool

subsection \<open>Errors\<close>

text \<open>\<open>failure::Error\<close>: a message, a library's error with a message put on it, or a library's error.\<close>

datatype 'x failure = ErrMsg string | Context string 'x | Cause 'x

text \<open>The question mark operator in a function that may panic and that returns a \<open>Result\<close>.\<close>

definition try_bind :: "('e + 'a) outcome \<Rightarrow> ('a \<Rightarrow> ('e + 'b) outcome) \<Rightarrow> ('e + 'b) outcome" where
  "try_bind r f = res_bind r (\<lambda>x. case x of Inl e \<Rightarrow> Inr (Inl e) | Inr y \<Rightarrow> f y)"

lemma try_bind_simps [simp]:
  "try_bind (Inl p) f = Inl p" "try_bind (Inr (Inl e)) f = Inr (Inl e)" "try_bind (Inr (Inr x)) f = f x"
  by (simp_all add: try_bind_def)

lemma try_bind_Inr_iff: "try_bind r f = Inr (Inr y) \<longleftrightarrow> (\<exists>x. r = Inr (Inr x) \<and> f x = Inr (Inr y))"
  by (cases r) (auto simp: try_bind_def split: sum.split_asm)

lemma try_bind_Inl_iff: "try_bind r f = Inl p \<longleftrightarrow> r = Inl p \<or> (\<exists>x. r = Inr (Inr x) \<and> f x = Inl p)"
  by (cases r) (auto simp: try_bind_def split: sum.split_asm)

lemma try_bind_cong [fundef_cong]:
  "r = s \<Longrightarrow> (\<And>x. s = Inr (Inr x) \<Longrightarrow> f x = g x) \<Longrightarrow> try_bind r f = try_bind s g"
  by (auto simp: try_bind_def intro!: res_bind_cong split: sum.splits)

text \<open>A \<open>Result\<close> of a library, its error converted by \<open>From\<close>.\<close>

abbreviation lib :: "'x + 'a \<Rightarrow> ('x failure + 'a) outcome" where
  "lib r \<equiv> Inr (map_err Cause r)"

subsection \<open>TLS keys\<close>

record ('file, 'key, 'cert, 'x) tls_io =
  open_file :: "string \<Rightarrow> 'x + 'file"
  rsa_private_keys :: "'file \<Rightarrow> unit + 'key list"
  pem_certs :: "'file \<Rightarrow> unit + 'cert list"

definition load_tls_keys :: "('file, 'key, 'cert, 'x) tls_io \<Rightarrow> string \<Rightarrow> string \<Rightarrow> 'x failure + 'key list \<times> 'cert list" where
  "load_tls_keys tls keyfile certfile =
     res_bind (map_err (Context ''failed to read private key'') (open_file tls keyfile)) (\<lambda>reader.
     res_bind (map_err (\<lambda>_. ErrMsg ''failed to read private key'') (rsa_private_keys tls reader)) (\<lambda>keys.
     res_bind (map_err (Context ''failed to read private key'') (open_file tls certfile)) (\<lambda>reader.
     res_bind (map_err (\<lambda>_. ErrMsg ''failed to read certificates'') (pem_certs tls reader)) (\<lambda>cert_chain.
     Inr (keys, cert_chain)))))"

text \<open>The keys and certificates the two files hold, if both can be opened and parsed.\<close>

definition tls_files :: "('file, 'key, 'cert, 'x) tls_io \<Rightarrow> string \<Rightarrow> string \<Rightarrow> 'key list \<Rightarrow> 'cert list \<Rightarrow> bool" where
  "tls_files tls keyfile certfile keys cert_chain \<longleftrightarrow>
     (\<exists>f g. open_file tls keyfile = Inr f \<and> rsa_private_keys tls f = Inr keys \<and>
        open_file tls certfile = Inr g \<and> pem_certs tls g = Inr cert_chain)"

lemma map_err_Inr_iff [simp]: "map_err f r = Inr x \<longleftrightarrow> r = Inr x"
  by (cases r) auto

lemma load_tls_keys_iff:
  "load_tls_keys tls keyfile certfile = Inr (keys, cert_chain) \<longleftrightarrow> tls_files tls keyfile certfile keys cert_chain"
  by (auto simp: load_tls_keys_def tls_files_def res_bind_Inr_iff)

subsection \<open>New connections\<close>

text \<open>
  A stream the other side opens, and an established connection with the streams the other side
  opens on it, in order; the last item may be the error that ends it.
\<close>

datatype 's new_stream = Bi 's | Uni 's

record ('s, 'c, 'x) new_connection =
  nc_connection :: 'c
  nc_incoming :: "('x + 's new_stream) list"

text \<open>
  The trait \<open>ConnectionThingy\<close>: opening a stream to send on, or one to send and receive on. A
  connection of \<open>quinn\<close> also tells the address of the other side.
\<close>

record ('s, 'c, 'x) connection_thingy =
  open_uni :: "'c \<Rightarrow> 'x + 's"
  open_bi :: "'c \<Rightarrow> 'x + 's"

record ('s, 'c, 'x) connection_io = "('s, 'c, 'x) connection_thingy" +
  remote_address :: "'c \<Rightarrow> socket_addr"

text \<open>
  The builder of an endpoint, as far as the peers set it up: how many bidirectional streams the
  other side may open, whether it listens, the certificate chain with its key, and the level of
  the logger it is given.
\<close>

datatype slog_level = Slog_Critical | Slog_Error | Slog_Warning | Slog_Info | Slog_Debug | Slog_Trace

record ('key, 'cert) endpoint_builder =
  max_remote_bi_streams :: nat
  eb_listens :: bool
  eb_certificate :: "('cert list \<times> 'key) option"
  eb_logger :: "slog_level option"

definition builder_from_config :: "('key, 'cert) endpoint_builder" where
  "builder_from_config = \<lparr>max_remote_bi_streams = 64, eb_listens = False, eb_certificate = None, eb_logger = None\<rparr>"

definition enable_protocol_logging :: "('key, 'cert) endpoint_builder \<Rightarrow> ('key, 'cert) endpoint_builder" where
  "enable_protocol_logging builder = builder\<lparr>eb_logger := Some Slog_Trace\<rparr>"

text \<open>The builder once it listens, its certificate is accepted and the options are looked at.\<close>

definition peer_builder :: "'b peer_opt \<Rightarrow> 'cert list \<Rightarrow> 'key \<Rightarrow> ('key, 'cert) endpoint_builder" where
  "peer_builder opts cert_chain key0 =
     (let builder = builder_from_config\<lparr>eb_listens := True\<rparr>;
          builder = builder\<lparr>eb_certificate := Some (cert_chain, key0)\<rparr>
      in if logproto opts then enable_protocol_logging builder else builder)"

text \<open>
  The endpoint: \<open>set_certificate\<close>, \<open>bind\<close> with the connections it will accept, in order,
  \<open>connect_with\<close> with the outcome of the connection attempt, and the result of the driver, which
  runs until the socket is closed.
\<close>

record ('key, 'cert, 's, 'c, 'x) endpoint_io =
  set_certificate :: "'cert list \<Rightarrow> 'key \<Rightarrow> 'x + unit"
  bind_endpoint :: "('key, 'cert) endpoint_builder \<Rightarrow> socket_addr \<Rightarrow> 'x + ('s, 'c, 'x) new_connection list"
  connect_with :: "socket_addr \<Rightarrow> string \<Rightarrow> 'x + ('x + ('s, 'c, 'x) new_connection)"
  driver_result :: "'x + unit"

text \<open>The streams that are opened before the connection's first error.\<close>

fun opened :: "('x + 's) list \<Rightarrow> 's list" where
  "opened [] = []"
| "opened (Inl e # rest) = []"
| "opened (Inr s # rest) = s # opened rest"

text \<open>Files that can all be read, with a number of keys, for concrete runs.\<close>

definition sample_tls :: "nat \<Rightarrow> (string, unit, unit, unit) tls_io" where
  "sample_tls n = \<lparr>open_file = Inr, rsa_private_keys = (\<lambda>_. Inr (replicate n ())), pem_certs = (\<lambda>_. Inr [()])\<rparr>"

end
