(* ===== verification/Peer_Main.thy ===== *)
theory Peer_Main
  imports Peer_Binary Peer_Setup
begin

text \<open>
  The rest of \<open>src/src/bin/peer.rs\<close>: options, certificates, the set-up of the server and of the
  clients, and \<open>main\<close>. The certificate generator, the QUIC library, the runtime and the standard
  output are arguments. Calls that only hand values to these are left out.
\<close>

subsection \<open>Options and errors\<close>

record opt =
  opt_bootstrap_peer :: socket_addr
  opt_listen :: socket_addr
  num_threads :: "u16 option"

text \<open>\<open>ResultExt::inspect_err\<close>: what the closure does to the world, here the log, and the result itself.\<close>

definition inspect_err :: "('e \<Rightarrow> 'w \<Rightarrow> 'w) \<Rightarrow> 'e + 'a \<Rightarrow> 'w \<Rightarrow> ('e + 'a) \<times> 'w" where
  "inspect_err f r w = (r, case r of Inl e \<Rightarrow> f e w | Inr _ \<Rightarrow> w)"

subsection \<open>The server\<close>

text \<open>The crate \<open>rcgen\<close> and the parsers and the configuration builder of \<open>quinn\<close>.\<close>

record ('g, 'key, 'cert, 'x) cert_io =
  generate_simple_self_signed :: "string list \<Rightarrow> 'x + 'g"
  serialize_der :: "'g \<Rightarrow> 'x + u8 list"
  serialize_private_key_der :: "'g \<Rightarrow> u8 list"
  private_key_from_der :: "u8 list \<Rightarrow> 'x + 'key"
  certificate_from_der :: "u8 list \<Rightarrow> 'x + 'cert"
  builder_certificate :: "'cert list \<Rightarrow> 'key \<Rightarrow> 'x + unit"

record ('key, 'cert) server_config =
  stream_window_uni :: nat
  sc_certificate :: "'cert list \<times> 'key"

definition configure_server :: "('g, 'key, 'cert, 'x) cert_io \<Rightarrow> ('x failure + ('key, 'cert) server_config \<times> u8 list) outcome" where
  "configure_server ci =
     res_bind (unwrap (generate_simple_self_signed ci [''localhost''])) (\<lambda>g.
     res_bind (unwrap (serialize_der ci g)) (\<lambda>cert_der.
     try_bind (lib (private_key_from_der ci (serialize_private_key_der ci g))) (\<lambda>priv_key.
     try_bind (lib (certificate_from_der ci cert_der)) (\<lambda>c.
     try_bind (lib (builder_certificate ci [c] priv_key)) (\<lambda>_.
     Inr (Inr (\<lparr>stream_window_uni = 0, sc_certificate = ([c], priv_key)\<rparr>, cert_der)))))))"

text \<open>
  A connection that comes in, as \<open>handle_connection\<close> sees it: the error or the streams, and whether
  its driver task panicked. \<open>server_bind\<close> returns the result of the endpoint's driver and the
  connections that come in. A driver drives a socket until it fails or nobody uses it any more:
  its result is \<open>None\<close> if it never ends.
\<close>

type_synonym 'x driver = "('x + unit) option"

type_synonym ('x, 's) connecting = "('x connection_error + ('x connection_error + 's) list) \<times> bool"

record ('key, 'cert, 's, 'x) server_io =
  server_bind :: "('key, 'cert) server_config \<Rightarrow> socket_addr \<Rightarrow> 'x + 'x driver \<times> ('x, 's) connecting list"

definition make_server_endpoint ::
  "('g, 'key, 'cert, 'x) cert_io \<Rightarrow> ('key, 'cert, 's, 'x) server_io \<Rightarrow> socket_addr \<Rightarrow>
   ('x failure + 'x driver \<times> ('x, 's) connecting list \<times> u8 list) outcome" where
  "make_server_endpoint ci sio bind_addr =
     try_bind (configure_server ci) (\<lambda>(server_config, server_cert).
     try_bind (lib (server_bind sio server_config bind_addr)) (\<lambda>(driver, conns).
     Inr (Inr (driver, conns, server_cert))))"

text \<open>
  \<open>run_server\<close>: the task that drives the socket, which panics on an error, and the streams requests
  are handled on, per connection.
\<close>

definition run_server ::
  "('g, 'key, 'cert, 'x) cert_io \<Rightarrow> ('key, 'cert, 's, 'x) server_io \<Rightarrow> socket_addr \<Rightarrow> (unit outcome option \<times> 's list list) outcome" where
  "run_server ci sio addr =
     res_bind (make_server_endpoint ci sio addr) (\<lambda>r.
     res_map (\<lambda>(driver, conns, _). (map_option (map_err (\<lambda>_. Assertion ''IO error'')) driver, accept_loop conns)) (expect ''TODO'' r))"

subsection \<open>The client\<close>

text \<open>The verifier accepts every certificate.\<close>

datatype server_cert_verified = ServerCertVerified

definition verify_server_cert ::
  "'roots \<Rightarrow> 'cert list \<Rightarrow> 'dns \<Rightarrow> u8 list \<Rightarrow> 'tlserr + server_cert_verified" where
  "verify_server_cert roots presented_certs dns_name ocsp_response = Inr ServerCertVerified"

text \<open>
  A client's configuration: which verifier it uses. \<open>get_mut\<close> is \<open>Arc::get_mut\<close> on the default one,
  \<open>None\<close> if it is shared.
\<close>

datatype cert_verifier = DefaultVerifier | SkipServerVerification

record client_config =
  verifier :: cert_verifier

definition configure_client :: "client_config option \<Rightarrow> client_config outcome" where
  "configure_client get_mut =
     (case get_mut of
        None \<Rightarrow> unwrap (Inl ())
      | Some tls_cfg \<Rightarrow> Inr (tls_cfg\<lparr>verifier := SkipServerVerification\<rparr>))"

text \<open>
  The network as a client uses it: binding the endpoint of the i-th client, with the driver's result,
  connecting (the call and then the handshake), opening a stream, and what a stream holds once the other side has
  answered.
\<close>

record ('s, 'c, 'x) client_io =
  client_bind :: "nat \<Rightarrow> client_config \<Rightarrow> socket_addr \<Rightarrow> 'x + 'x driver"
  client_connect :: "socket_addr \<Rightarrow> string \<Rightarrow> 'x + ('x + 'c)"
  client_open_bi :: "'c \<Rightarrow> 'x + 's"
  answered :: "'s \<Rightarrow> 's"

text \<open>Standard output, as the bytes written to it: writing may fail.\<close>

record ('w, 'x) stdout_io =
  stdout_write :: "u8 list \<Rightarrow> 'w \<Rightarrow> 'x + 'w"
  stdout_flush :: "'w \<Rightarrow> 'x + 'w"

definition print_response :: "('w, 'x) stdout_io \<Rightarrow> u8 list \<Rightarrow> 'w \<Rightarrow> 'w outcome" where
  "print_response so resp w =
     res_bind (unwrap (stdout_write so resp w)) (\<lambda>w.
     res_bind (unwrap (stdout_write so [0x0A] w)) (\<lambda>w.
     unwrap (stdout_flush so w)))"

text \<open>The task \<open>run_client\<close> spawns.\<close>

definition client_task ::
  "('s, 'e) stream_io \<Rightarrow> ('s, 'c, 'x) client_io \<Rightarrow> ('w, 'x) stdout_io \<Rightarrow> socket_addr \<Rightarrow> u8 list \<Rightarrow> 'w \<Rightarrow> 'w outcome" where
  "client_task io net so server_addr message w =
     res_bind (unwrap (client_connect net server_addr ''localhost'')) (\<lambda>connecting.
     res_bind (unwrap connecting) (\<lambda>connection.
     res_bind (expect ''TODO'' (client_open_bi net connection)) (\<lambda>s.
     res_bind (client_request io message s) (\<lambda>s.
     res_bind (expect ''TODO'' (io_read_to_end io (2 ^ 64 - 1) (answered net s))) (\<lambda>(resp, s).
     print_response so resp w)))))"

text \<open>
  \<open>run_client\<close>, called for the i-th time: it panics or returns the handle of the driver task, which only logs an error, and the
  client task it spawned, as the server's address and the message. The endpoint is bound to \<open>[::]:0\<close>.
\<close>

definition run_client ::
  "client_config option \<Rightarrow> ('s, 'c, 'x) client_io \<Rightarrow> nat \<Rightarrow> socket_addr \<Rightarrow> u8 list \<Rightarrow>
   (unit + unit outcome option \<times> socket_addr \<times> u8 list) outcome" where
  "run_client get_mut net i server_addr message =
     res_bind (configure_client get_mut) (\<lambda>client_cfg.
     res_bind (expect ''Could not build client endpoint; is the port already used or something?''
         (client_bind net i client_cfg (V6 0 0 0 0))) (\<lambda>driver.
     let driver_handle = map_option (\<lambda>d. Inr (case d of Inl _ \<Rightarrow> () | Inr _ \<Rightarrow> ())) driver in
     Inr (Inr (driver_handle, server_addr, message))))"

subsection \<open>main\<close>

text \<open>
  The handles \<open>main\<close> waits for are tasks that await the handle of a driver task: such a task ends
  when the driver task does (\<open>None\<close>: never), the outer result is an error if the task panics, the
  inner one if the driver task did.
\<close>

type_synonym main_handle = "(unit + unit outcome) option"

text \<open>\<open>block_on\<close> does not return (\<open>None\<close>) while the task runs.\<close>

definition await_handle :: "main_handle \<Rightarrow> unit outcome option" where
  "await_handle h =
     map_option (\<lambda>r. res_bind (expect ''Runtime errored while waiting for service to finish'' r) (\<lambda>r. expect ''???'' r)) h"

fun await_handles :: "main_handle list \<Rightarrow> unit outcome option" where
  "await_handles [] = Some (Inr ())"
| "await_handles (h # rest) =
     (case await_handle h of
        None \<Rightarrow> None
      | Some (Inl p) \<Rightarrow> Some (Inl p)
      | Some (Inr _) \<Rightarrow> await_handles rest)"

text \<open>The closure passed to \<open>runtime.enter\<close>: the client tasks, the handles, and the streams the server handles.\<close>

fun start_clients ::
  "client_config option \<Rightarrow> ('s, 'c, 'x) client_io \<Rightarrow> socket_addr \<Rightarrow> nat \<Rightarrow> u8 list list \<Rightarrow>
   ((socket_addr \<times> u8 list) list \<times> main_handle list) outcome" where
  "start_clients get_mut net addr i [] = Inr ([], [])"
| "start_clients get_mut net addr i (msg_bytes # rest) =
     res_bind (run_client get_mut net i addr msg_bytes) (\<lambda>r.
     res_bind (expect ''Could not run client'' r) (\<lambda>(h, task).
     res_map (\<lambda>(tasks, handles). (task # tasks, map_option Inr h # handles)) (start_clients get_mut net addr (Suc i) rest)))"

definition main_enter ::
  "client_config option \<Rightarrow> ('s, 'c, 'x) client_io \<Rightarrow> ('g, 'key, 'cert, 'x) cert_io \<Rightarrow> ('key, 'cert, 's, 'x) server_io \<Rightarrow>
   opt \<Rightarrow> ((socket_addr \<times> u8 list) list \<times> main_handle list \<times> 's list list) outcome" where
  "main_enter get_mut net ci sio opts =
     res_bind (start_clients get_mut net (opt_bootstrap_peer opts) 0 client_messages) (\<lambda>(tasks, handles).
     res_map (\<lambda>(h, streams). (tasks, handles @ [map_option Inr h], streams)) (run_server ci sio (opt_listen opts)))"

text \<open>\<open>main\<close>: what it returns or panics with, or \<open>None\<close> if it does not end.\<close>

definition peer_main ::
  "'x + unit \<Rightarrow> client_config option \<Rightarrow> ('s, 'c, 'x) client_io \<Rightarrow> ('g, 'key, 'cert, 'x) cert_io \<Rightarrow>
   ('key, 'cert, 's, 'x) server_io \<Rightarrow> opt \<Rightarrow> (unit + unit) outcome option" where
  "peer_main runtime get_mut net ci sio opts =
     (case res_bind (expect ''Could not build runtime'' runtime) (\<lambda>_. main_enter get_mut net ci sio opts) of
        Inl p \<Rightarrow> Some (Inl p)
      | Inr (_, handles, _) \<Rightarrow> map_option (res_map (\<lambda>_. Inr ())) (await_handles handles))"

subsection \<open>Starting and waiting\<close>

text \<open>The endpoints of \<open>n\<close> clients from the i-th on can be bound, and their drivers.\<close>

definition clients_ready :: "client_config option \<Rightarrow> ('s, 'c, 'x) client_io \<Rightarrow> nat \<Rightarrow> nat \<Rightarrow> 'x driver list \<Rightarrow> bool" where
  "clients_ready get_mut net i n drivers \<longleftrightarrow> length drivers = n \<and>
     (\<exists>cfg. get_mut = Some cfg \<and>
       (\<forall>k < n. client_bind net (i + k) (cfg\<lparr>verifier := SkipServerVerification\<rparr>) (V6 0 0 0 0) = Inr (drivers ! k)))"

definition client_handle :: "'x driver \<Rightarrow> main_handle" where
  "client_handle d = map_option (\<lambda>_. Inr (Inr ())) d"

lemma run_client_eq:
  "run_client get_mut net i addr msg = Inr r \<longleftrightarrow>
     (\<exists>d. clients_ready get_mut net i 1 [d] \<and> r = Inr (map_option (\<lambda>_. Inr ()) d, addr, msg))"
  by (auto simp: run_client_def configure_client_def clients_ready_def res_bind_Inr_iff unwrap_def expect_def
      split: option.splits sum.splits)

lemma clients_ready_Cons:
  "clients_ready get_mut net i (Suc n) (d # ds) \<longleftrightarrow>
     clients_ready get_mut net i 1 [d] \<and> (n = 0 \<and> ds = [] \<or> clients_ready get_mut net (Suc i) n ds)"
  by (cases get_mut) (auto simp: clients_ready_def All_less_Suc2)

lemma start_client:
  "start_clients get_mut net addr i (msg # msgs) = Inr r \<longleftrightarrow>
     (\<exists>d tasks handles. clients_ready get_mut net i 1 [d] \<and> start_clients get_mut net addr (Suc i) msgs = Inr (tasks, handles) \<and>
        r = ((addr, msg) # tasks, client_handle d # handles))"
proof -
  have handle: "map_option Inr (map_option (\<lambda>_. Inr ()) d) = client_handle d" for d :: "'x driver"
    by (simp add: client_handle_def option.map_comp comp_def)
  show ?thesis
  proof
    assume "start_clients get_mut net addr i (msg # msgs) = Inr r"
    then obtain d tasks handles where "clients_ready get_mut net i 1 [d]" "start_clients get_mut net addr (Suc i) msgs = Inr (tasks, handles)"
      "r = ((addr, msg) # tasks, map_option Inr (map_option (\<lambda>_. Inr ()) d) # handles)"
      by (auto simp: res_bind_Inr_iff res_map_Inr_iff run_client_eq)
    then show "\<exists>d tasks handles. clients_ready get_mut net i 1 [d] \<and> start_clients get_mut net addr (Suc i) msgs = Inr (tasks, handles) \<and>
        r = ((addr, msg) # tasks, client_handle d # handles)" unfolding handle by blast
  next
    assume "\<exists>d tasks handles. clients_ready get_mut net i 1 [d] \<and> start_clients get_mut net addr (Suc i) msgs = Inr (tasks, handles) \<and>
        r = ((addr, msg) # tasks, client_handle d # handles)"
    then obtain d tasks handles where d: "clients_ready get_mut net i 1 [d]" "start_clients get_mut net addr (Suc i) msgs = Inr (tasks, handles)"
      "r = ((addr, msg) # tasks, client_handle d # handles)" by blast
    then have "run_client get_mut net i addr msg = Inr (Inr (map_option (\<lambda>_. Inr ()) d, addr, msg))" using run_client_eq by blast
    then show "start_clients get_mut net addr i (msg # msgs) = Inr r" using d by (simp add: handle)
  qed
qed

lemma start_clients_iff:
  "msgs \<noteq> [] \<Longrightarrow> start_clients get_mut net addr i msgs = Inr r \<longleftrightarrow>
     (\<exists>ds. clients_ready get_mut net i (length msgs) ds \<and> r = (map (Pair addr) msgs, map client_handle ds))"
proof (induction msgs arbitrary: i r)
  case (Cons msg msgs)
  have cons: "(\<exists>ds. clients_ready get_mut net i (length (msg # msgs)) ds \<and> P ds) \<longleftrightarrow>
      (\<exists>d ds. clients_ready get_mut net i 1 [d] \<and> (msgs = [] \<and> ds = [] \<or> clients_ready get_mut net (Suc i) (length msgs) ds) \<and> P (d # ds))"
    (is "?l \<longleftrightarrow> ?r") for P
  proof
    assume ?l
    then obtain ds where ds: "clients_ready get_mut net i (Suc (length msgs)) ds" "P ds" by auto
    then obtain d ds' where d: "ds = d # ds'" by (cases ds) (auto simp: clients_ready_def)
    from ds(1) have "clients_ready get_mut net i 1 [d] \<and> (msgs = [] \<and> ds' = [] \<or> clients_ready get_mut net (Suc i) (length msgs) ds')"
      unfolding d clients_ready_Cons length_0_conv .
    then show ?r using ds(2) d by blast
  next
    assume ?r
    then obtain d ds where "clients_ready get_mut net i 1 [d]" "msgs = [] \<and> ds = [] \<or> clients_ready get_mut net (Suc i) (length msgs) ds"
      "P (d # ds)" by blast
    then have "clients_ready get_mut net i (length (msg # msgs)) (d # ds)"
      unfolding list.size(4) add_0_right add_Suc_right clients_ready_Cons length_0_conv by blast
    then show ?l using \<open>P (d # ds)\<close> by blast
  qed
  show ?case
  proof (cases "msgs = []")
    case True
    have "clients_ready get_mut net (Suc i) 0 ds \<Longrightarrow> ds = []" for ds by (simp add: clients_ready_def)
    then show ?thesis unfolding start_client cons using True by auto
  next
    case False
    show ?thesis unfolding start_client cons Cons.IH [OF False] using False by auto
  qed
qed simp

lemma run_server_eq:
  "run_server ci sio addr = Inr (h, streams) \<longleftrightarrow>
     (\<exists>driver conns der. make_server_endpoint ci sio addr = Inr (Inr (driver, conns, der)) \<and>
        h = map_option (map_err (\<lambda>_. Assertion ''IO error'')) driver \<and> streams = accept_loop conns)"
proof (cases "make_server_endpoint ci sio addr")
  case (Inr r)
  then show ?thesis by (cases r) (auto simp: run_server_def)
qed (simp add: run_server_def)

lemma main_enter_iff:
  "main_enter get_mut net ci sio opts = Inr (tasks, handles, streams) \<longleftrightarrow>
     tasks = map (Pair (opt_bootstrap_peer opts)) client_messages \<and>
     (\<exists>ds driver conns der. clients_ready get_mut net 0 10 ds \<and>
        make_server_endpoint ci sio (opt_listen opts) = Inr (Inr (driver, conns, der)) \<and>
        handles = map client_handle ds @ [map_option (\<lambda>d. Inr (map_err (\<lambda>_. Assertion ''IO error'') d)) driver] \<and>
        streams = accept_loop conns)"
proof -
  have "client_messages \<noteq> []" "length client_messages = 10" by (simp_all add: client_messages_def)
  note start = start_clients_iff [OF this(1), of get_mut net "opt_bootstrap_peer opts" 0, unfolded this(2)]
  show ?thesis
    by (auto simp: main_enter_def res_bind_Inr_iff res_map_Inr_iff start run_server_eq option.map_comp comp_def)
qed

text \<open>The handles of the clients are waited for first, and only then that of the server.\<close>

lemma await_clients:
  "await_handles (map client_handle ds @ hs) = (if None \<in> set ds then None else await_handles hs)"
  by (induction ds) (auto simp: client_handle_def await_handle_def split: option.split)

lemma await_server:
  "await_handles [map_option (\<lambda>d. Inr (map_err (\<lambda>_. Assertion ''IO error'') d)) driver] =
     (case driver of None \<Rightarrow> None | Some (Inl _) \<Rightarrow> Some (Inl (Expectation ''???'')) | Some (Inr _) \<Rightarrow> Some (Inr ()))"
  by (simp add: await_handle_def split: option.split sum.split)

subsection \<open>The clients\<close>

text \<open>What the model needs of the network and of standard output for an exchange to work.\<close>

definition connects :: "'s stream_view \<Rightarrow> ('s, 'c, 'x) client_io \<Rightarrow> socket_addr \<Rightarrow> bool" where
  "connects v net addr \<longleftrightarrow> (\<exists>c s. client_connect net addr ''localhost'' = Inr (Inr c) \<and> client_open_bi net c = Inr s \<and>
     \<not> finished v s \<and> written v s = [])"

text \<open>The other side of a finished stream is a stream the server handles, and its response comes back.\<close>

definition served :: "('s, 'e) stream_io \<Rightarrow> 's stream_view \<Rightarrow> ('s, 'c, 'x) client_io \<Rightarrow> bool" where
  "served io v net \<longleftrightarrow> (\<forall>c. finished v c \<longrightarrow>
     (\<exists>s. incoming v s = written v c \<and> \<not> finished v s \<and> written v s = [] \<and>
       (\<forall>s'. handle_request io s = Inr s' \<longrightarrow> incoming v (answered net c) = written v s')))"

definition stdout_ok :: "('w, 'x) stdout_io \<Rightarrow> ('w \<Rightarrow> u8 list) \<Rightarrow> bool" where
  "stdout_ok so out \<longleftrightarrow> (\<forall>bs w. \<exists>w'. stdout_write so bs w = Inr w' \<and> out w' = out w @ bs) \<and>
     (\<forall>w. \<exists>w'. stdout_flush so w = Inr w' \<and> out w' = out w)"

lemma print_response_spec:
  assumes "stdout_ok so out"
  shows "\<exists>w'. print_response so resp w = Inr w' \<and> out w' = out w @ resp @ [0x0A]"
proof -
  obtain w1 where w1: "stdout_write so resp w = Inr w1" "out w1 = out w @ resp" using assms unfolding stdout_ok_def by blast
  obtain w2 where w2: "stdout_write so [0x0A] w1 = Inr w2" "out w2 = out w1 @ [0x0A]" using assms unfolding stdout_ok_def by blast
  obtain w3 where "stdout_flush so w2 = Inr w3" "out w3 = out w2" using assms unfolding stdout_ok_def by blast
  then show ?thesis using w1 w2 by (simp add: print_response_def unwrap_def)
qed

lemma client_task_spec:
  assumes laws: "stream_laws io v" and "connects v net addr" and "served io v net" and "stdout_ok so out"
    and "utf8_valid message" and "length message \<le> 65536"
  shows "\<exists>w'. client_task io net so addr message w = Inr w' \<and> out w' = out w @ ascii ''Received: '' @ message @ [0x0A]"
proof -
  obtain c s where cs: "client_connect net addr ''localhost'' = Inr (Inr c)" "client_open_bi net c = Inr s"
      "\<not> finished v s" "written v s = []" using assms(2) unfolding connects_def by blast
  from stream_write [OF laws cs(3), of message] obtain s1 where
    s1: "io_write_all io message s = Inr s1" "written v s1 = message" using cs(4) by auto
  from stream_finish [OF laws, of s1] obtain s2 where
    s2: "io_finish io s1 = Inr s2" "written v s2 = message" "finished v s2" using s1(2) by auto
  from assms(3) s2(2,3) obtain t where t: "incoming v t = message" "\<not> finished v t" "written v t = []"
      "\<And>t'. handle_request io t = Inr t' \<Longrightarrow> incoming v (answered net s2) = written v t'" unfolding served_def by metis
  from handle_request_spec [OF laws t(2)] t assms(5,6)
  have inc: "incoming v (answered net s2) = ascii ''Received: '' @ message" by (auto simp: response_to_def lossy_id)
  then have "length (incoming v (answered net s2)) \<le> 2 ^ 64 - 1" using assms(6) by (simp add: ascii_def)
  from stream_read [OF laws this] obtain s3 where "io_read_to_end io (2 ^ 64 - 1) (answered net s2) = Inr (incoming v (answered net s2), s3)" by blast
  then show ?thesis
    using cs s1 s2 print_response_spec [OF assms(4), of "ascii ''Received: '' @ message" w]
    by (simp add: client_task_def client_request_def unwrap_def inc)
qed

text \<open>The tasks one after the other, in some order.\<close>

lemma client_tasks_spec:
  assumes "stream_laws io v" and "connects v net addr" and "served io v net" and "stdout_ok so out"
    and "\<forall>(a, msg) \<in> set tasks. a = addr \<and> utf8_valid msg \<and> length msg \<le> 65536"
  shows "\<exists>w'. res_fold (\<lambda>(a, msg). client_task io net so a msg) tasks w = Inr w' \<and>
    out w' = out w @ concat (map (\<lambda>(a, msg). ascii ''Received: '' @ msg @ [0x0A]) tasks)"
  using assms(5)
proof (induction tasks arbitrary: w)
  case (Cons task tasks)
  obtain msg where task: "task = (addr, msg)" "utf8_valid msg" "length msg \<le> 65536" using Cons.prems by (cases task) auto
  from client_task_spec [OF assms(1-4) task(2,3)] obtain w1 where
    w1: "client_task io net so addr msg w = Inr w1" "out w1 = out w @ ascii ''Received: '' @ msg @ [0x0A]" by blast
  from Cons.IH [of w1] Cons.prems w1 show ?case by (auto simp: task(1))
qed simp

subsection \<open>A concrete network\<close>

definition pipe_net :: "(pipe, unit, unit) client_io" where
  "pipe_net = \<lparr>client_bind = (\<lambda>_ _ _. Inr (Some (Inr ()))), client_connect = (\<lambda>_ _. Inr (Inr ())),
     client_open_bi = (\<lambda>_. Inr \<lparr>p_in = [], p_out = [], p_fin = False\<rparr>),
     answered = (\<lambda>c. case handle_request pipe_io \<lparr>p_in = p_out c, p_out = [], p_fin = False\<rparr> of
        Inl _ \<Rightarrow> c | Inr s \<Rightarrow> c\<lparr>p_in := p_out s\<rparr>)\<rparr>"

definition list_stdout :: "(u8 list, unit) stdout_io" where
  "list_stdout = \<lparr>stdout_write = (\<lambda>bs w. Inr (w @ bs)), stdout_flush = Inr\<rparr>"

definition sample_certs :: "(unit, unit, unit, unit) cert_io" where
  "sample_certs = \<lparr>generate_simple_self_signed = (\<lambda>_. Inr ()), serialize_der = (\<lambda>_. Inr [1]), serialize_private_key_der = (\<lambda>_. [2]),
     private_key_from_der = (\<lambda>_. Inr ()), certificate_from_der = (\<lambda>_. Inr ()), builder_certificate = (\<lambda>_ _. Inr ())\<rparr>"

definition sample_server :: "unit driver \<Rightarrow> (unit, unit, pipe, unit) server_io" where
  "sample_server driver = \<lparr>server_bind = (\<lambda>_ _. Inr (driver, []))\<rparr>"

definition default_opt :: opt where
  "default_opt = \<lparr>opt_bootstrap_peer = V6 1 4433 0 0, opt_listen = V6 0 4433 0 0, num_threads = None\<rparr>"

lemma pipe_net_ok: "connects pipe_view pipe_net addr" "served pipe_io pipe_view pipe_net" "stdout_ok list_stdout (\<lambda>w. w)"
proof -
  show "connects pipe_view pipe_net addr" "stdout_ok list_stdout (\<lambda>w. w)"
    by (simp_all add: connects_def pipe_net_def pipe_view_def stdout_ok_def list_stdout_def)
  show "served pipe_io pipe_view pipe_net" unfolding served_def
  proof (intro allI impI)
    fix c :: pipe
    let ?s = "\<lparr>p_in = p_out c, p_out = [], p_fin = False\<rparr>"
    show "\<exists>s. incoming pipe_view s = written pipe_view c \<and> \<not> finished pipe_view s \<and> written pipe_view s = [] \<and>
        (\<forall>s'. handle_request pipe_io s = Inr s' \<longrightarrow> incoming pipe_view (answered pipe_net c) = written pipe_view s')"
      by (rule exI [of _ ?s]) (simp add: pipe_view_def pipe_net_def)
  qed
qed

lemma sample_endpoint_eq:
  "make_server_endpoint sample_certs (sample_server driver) addr = Inr (Inr (driver, [], [1]))"
  by (simp add: make_server_endpoint_def configure_server_def sample_certs_def sample_server_def unwrap_def)

lemma sample_clients_ready: "clients_ready (Some \<lparr>verifier = DefaultVerifier\<rparr>) pipe_net 0 n (replicate n (Some (Inr ())))"
  by (simp add: clients_ready_def pipe_net_def)

subsection \<open>Properties\<close>

text \<open>
  C32. The clients of the program, end to end: \<open>main\<close> starts exactly ten client tasks, for the
  messages \<open>This is client 0\<close> to \<open>This is client 9\<close> and the bootstrap address, and over a network
  that connects them to the server's request handler none of them panics. In whatever order they get
  to printing, which a task does without giving up control, the output is one line per client, each
  its message after \<open>Received: \<close>.
\<close>

theorem main_clients_print:
  assumes "stream_laws io v" and "served io v net" and "stdout_ok so out" and "connects v net (opt_bootstrap_peer opts)"
    and "main_enter get_mut net ci sio opts = Inr (tasks, handles, streams)" and "mset order = mset tasks"
  shows "tasks = map (\<lambda>i. (opt_bootstrap_peer opts, client_message i)) [0..<10] \<and>
    (\<exists>w'. res_fold (\<lambda>(addr, msg). client_task io net so addr msg) order w = Inr w' \<and>
       out w' = out w @ concat (map (\<lambda>(addr, msg). ascii ''Received: '' @ msg @ [0x0A]) order))"
proof
  show tasks: "tasks = map (\<lambda>i. (opt_bootstrap_peer opts, client_message i)) [0..<10]"
    using assms(5) unfolding main_enter_iff by (simp add: client_messages_def)
  have "set order = set tasks" using assms(6) by (metis set_mset_mset)
  then have "\<forall>(addr, msg) \<in> set order. addr = opt_bootstrap_peer opts \<and> utf8_valid msg \<and> length msg \<le> 65536"
    unfolding tasks using client_message_ok by auto
  then show "\<exists>w'. res_fold (\<lambda>(addr, msg). client_task io net so addr msg) order w = Inr w' \<and>
       out w' = out w @ concat (map (\<lambda>(addr, msg). ascii ''Received: '' @ msg @ [0x0A]) order)"
    by (rule client_tasks_spec [OF assms(1,4,2,3)])
qed

theorem main_clients_print_witness:
  "\<exists>tasks handles streams w'. main_enter (Some \<lparr>verifier = DefaultVerifier\<rparr>) pipe_net sample_certs (sample_server (Some (Inr ()))) default_opt =
       Inr (tasks, handles, streams) \<and>
     res_fold (\<lambda>(addr, msg). client_task pipe_io pipe_net list_stdout addr msg) (rev tasks) [] = Inr w' \<and>
     w' = concat (map (\<lambda>(addr, msg). ascii ''Received: '' @ msg @ [0x0A]) (rev tasks))"
proof -
  obtain tasks handles streams where m: "main_enter (Some \<lparr>verifier = DefaultVerifier\<rparr>) pipe_net sample_certs (sample_server (Some (Inr ()))) default_opt =
       Inr (tasks, handles, streams)"
    using main_enter_iff sample_clients_ready [of 10] sample_endpoint_eq by fastforce
  from main_clients_print [OF pipe_laws pipe_net_ok(2,3,1) m, of "rev tasks" "[]"] m show ?thesis by auto
qed

text \<open>
  C34. What becomes of \<open>main\<close>. If the runtime, the ten client endpoints, the server's certificate and its
  endpoint can be made, \<open>main\<close> does not end as long as one of the eleven endpoint drivers does not; a
  socket error of the server is noticed, as a panic, only after the drivers of all clients have
  ended, and socket errors of the clients and panics of their tasks are not noticed. \<open>main\<close> returns
  \<open>Ok\<close> if all drivers end and that of the server without an error. If something cannot be made,
  \<open>main\<close> panics.
\<close>

theorem main_outcome:
  "(\<forall>ds driver conns der. runtime = Inr () \<and> clients_ready get_mut net 0 10 ds \<and>
      make_server_endpoint ci sio (opt_listen opts) = Inr (Inr (driver, conns, der)) \<longrightarrow>
      peer_main runtime get_mut net ci sio opts =
        (if None \<in> set ds then None
         else case driver of
             None \<Rightarrow> None
           | Some (Inl _) \<Rightarrow> Some (Inl (Expectation ''???''))
           | Some (Inr _) \<Rightarrow> Some (Inr (Inr ())))) \<and>
   (\<not> (\<exists>ds driver conns der. runtime = Inr () \<and> clients_ready get_mut net 0 10 ds \<and>
      make_server_endpoint ci sio (opt_listen opts) = Inr (Inr (driver, conns, der))) \<longrightarrow>
      (\<exists>p. peer_main runtime get_mut net ci sio opts = Some (Inl p)))"
proof (intro conjI allI impI)
  fix ds driver conns der
  assume "runtime = Inr () \<and> clients_ready get_mut net 0 10 ds \<and>
      make_server_endpoint ci sio (opt_listen opts) = Inr (Inr (driver, conns, der))"
  then have "runtime = Inr ()" "main_enter get_mut net ci sio opts = Inr (map (Pair (opt_bootstrap_peer opts)) client_messages,
      map client_handle ds @ [map_option (\<lambda>d. Inr (map_err (\<lambda>_. Assertion ''IO error'') d)) driver], accept_loop conns)"
    unfolding main_enter_iff by blast+
  then show "peer_main runtime get_mut net ci sio opts =
        (if None \<in> set ds then None
         else case driver of
             None \<Rightarrow> None
           | Some (Inl _) \<Rightarrow> Some (Inl (Expectation ''???''))
           | Some (Inr _) \<Rightarrow> Some (Inr (Inr ())))"
    by (simp add: peer_main_def await_clients await_server del: await_handles.simps split: option.split sum.split)
next
  assume none: "\<not> (\<exists>ds driver conns der. runtime = Inr () \<and> clients_ready get_mut net 0 10 ds \<and>
      make_server_endpoint ci sio (opt_listen opts) = Inr (Inr (driver, conns, der)))"
  show "\<exists>p. peer_main runtime get_mut net ci sio opts = Some (Inl p)"
  proof (cases "res_bind (expect ''Could not build runtime'' runtime) (\<lambda>_. main_enter get_mut net ci sio opts)")
    case (Inr r)
    then have "runtime = Inr ()" "main_enter get_mut net ci sio opts = Inr r"
      by (auto simp: res_bind_Inr_iff expect_def split: sum.splits)
    then show ?thesis using none by (cases r) (auto simp: main_enter_iff)
  qed (simp add: peer_main_def)
qed

text \<open>Clients whose sockets fail, but for one whose driver does not end.\<close>

definition hanging_net :: "(pipe, unit, unit) client_io" where
  "hanging_net = pipe_net\<lparr>client_bind := (\<lambda>i _ _. Inr (if i = 7 then None else Some (Inl ())))\<rparr>"

theorem main_outcome_witness:
  "peer_main (Inr ()) (Some \<lparr>verifier = DefaultVerifier\<rparr>) pipe_net sample_certs (sample_server None) default_opt = None \<and>
   peer_main (Inr ()) (Some \<lparr>verifier = DefaultVerifier\<rparr>) pipe_net sample_certs (sample_server (Some (Inr ()))) default_opt =
     Some (Inr (Inr ())) \<and>
   peer_main (Inr ()) (Some \<lparr>verifier = DefaultVerifier\<rparr>) pipe_net sample_certs (sample_server (Some (Inl ()))) default_opt =
     Some (Inl (Expectation ''???'')) \<and>
   peer_main (Inr ()) (Some \<lparr>verifier = DefaultVerifier\<rparr>) hanging_net sample_certs (sample_server (Some (Inl ()))) default_opt = None \<and>
   (\<exists>p. peer_main (Inl ()) (Some \<lparr>verifier = DefaultVerifier\<rparr>) pipe_net sample_certs (sample_server None) default_opt = Some (Inl p))"
proof -
  let ?cfg = "Some \<lparr>verifier = DefaultVerifier\<rparr>"
  let ?ds = "map (\<lambda>i. if i = 7 then None else Some (Inl ())) [0..<10] :: unit driver list"
  have hang: "clients_ready ?cfg hanging_net 0 10 ?ds" by (simp add: clients_ready_def hanging_net_def)
  have ready: "clients_ready ?cfg pipe_net 0 10 (replicate 10 (Some (Inr ())))" by (rule sample_clients_ready)
  note made = sample_endpoint_eq [where addr = "opt_listen default_opt"]
  note ends = conjunct1 [OF main_outcome, rule_format, OF conjI [OF refl conjI [OF ready made]]]
  have "None \<in> set ?ds" by force
  then have "peer_main (Inr ()) ?cfg hanging_net sample_certs (sample_server (Some (Inl ()))) default_opt = None"
    using conjunct1 [OF main_outcome, rule_format, OF conjI [OF refl conjI [OF hang made]]] by simp
  moreover have "\<exists>p. peer_main (Inl ()) ?cfg pipe_net sample_certs (sample_server None) default_opt = Some (Inl p)"
    by (rule conjunct2 [OF main_outcome, rule_format]) simp
  ultimately show ?thesis using ends by simp
qed

end
