(* ===== verification/Handshake.thy ===== *)
theory Handshake
  imports Worker
begin

text \<open>
  Two workers whose messages are carried to each other: somebody takes the messages off the handle of
  a worker and hands them to the controller of the other one, while both threads run. The order of
  all this is arbitrary. What a single \<open>Ping\<close> leads to is followed to its end.
\<close>

subsection \<open>Two workers and a carrier\<close>

text \<open>
  The workers are indexed by \<open>True\<close> and \<open>False\<close>; \<open>addr\<close> gives their addresses. A step is a turn of
  the loop of one of the threads, or a message carried to the other worker.
\<close>

inductive pair_step :: "(bool \<Rightarrow> socket_addr) \<Rightarrow> (bool \<Rightarrow> worker) \<Rightarrow> (bool \<Rightarrow> worker) \<Rightarrow> bool"
  for addr :: "bool \<Rightarrow> socket_addr" where
  thread_turn: "worker_step (ws e) = Some w \<Longrightarrow> pair_step addr ws (ws(e := w))"
| carry: "recv_message (ws e) = (Inr (addr (\<not> e), msg), w) \<Longrightarrow>
    controller_message (addr e) msg (ws (\<not> e)) = Inr w' \<Longrightarrow> pair_step addr ws (ws(e := w, (\<not> e) := w'))"

definition node_ready :: "worker \<Rightarrow> bool" where
  "node_ready w \<longleftrightarrow> worker_ok w \<and> w_status w = Running \<and> 0 < ch_senders (control w) \<and> ch_receiver (control w)"

text \<open>
  The messages on their way from a worker to the other one: first those in the control channel of
  the receiver, then those in the outbox of the sender.
\<close>

definition flow :: "(bool \<Rightarrow> socket_addr) \<Rightarrow> (bool \<Rightarrow> worker) \<Rightarrow> bool \<Rightarrow> message list \<Rightarrow> bool" where
  "flow addr ws e ms \<longleftrightarrow> (\<exists>cs out. ms = cs @ out \<and> ch_queue (control (ws (\<not> e))) = map (Incoming (addr e)) cs \<and>
     worker_sent (ws e) = map (Pair (addr (\<not> e))) out)"

abbreviation uncarried :: "(bool \<Rightarrow> worker) \<Rightarrow> nat" where
  "uncarried ws \<equiv> length (worker_sent (ws True)) + length (worker_sent (ws False))"

text \<open>Carrying a message changes nothing but where it is.\<close>

lemma carry_keeps:
  assumes "recv_message (ws e) = (Inr (addr (\<not> e), msg), w)" and "controller_message (addr e) msg (ws (\<not> e)) = Inr w'"
    and "\<And>e. node_ready (ws e)" and "ws' = ws(e := w, (\<not> e) := w')"
  shows "flow addr ws d ms \<Longrightarrow> flow addr ws' d ms" and "node_ready (ws' d)" and "w_peer_id (ws' d) = w_peer_id (ws d)"
    and "worker_view (ws' d) = worker_view (ws d)" and "Suc (uncarried ws') = uncarried ws"
proof -
  from assms(1) obtain rest where out: "worker_sent (ws e) = (addr (\<not> e), msg) # rest"
      and w: "w = (ws e)\<lparr>outbox := (outbox (ws e))\<lparr>ch_queue := rest\<rparr>\<rparr>"
    by (auto simp: recv_message_def chan_try_recv_Inr split: prod.splits)
  have w': "w' = (ws (\<not> e))\<lparr>control := (control (ws (\<not> e)))\<lparr>ch_queue := ch_queue (control (ws (\<not> e))) @ [Incoming (addr e) msg]\<rparr>\<rparr>"
    using assms(2,3) by (simp add: controller_message_def node_ready_def)
  show "node_ready (ws' d)" "w_peer_id (ws' d) = w_peer_id (ws d)" "worker_view (ws' d) = worker_view (ws d)"
    using assms(3) by (auto simp: assms(4) w w' node_ready_def)
  show "Suc (uncarried ws') = uncarried ws" using out by (cases e) (auto simp: assms(4) w w')
  show "flow addr ws' d ms" if "flow addr ws d ms"
  proof (cases "d = e")
    case True
    from that obtain cs out' where co: "ms = cs @ out'" "ch_queue (control (ws (\<not> d))) = map (Incoming (addr d)) cs"
        "worker_sent (ws d) = map (Pair (addr (\<not> d))) out'" by (auto simp: flow_def)
    with out True obtain out'' where "out' = msg # out''" "rest = map (Pair (addr (\<not> d))) out''" by (cases out') auto
    with co True show ?thesis unfolding flow_def
      by (intro exI [of _ "cs @ [msg]"] exI [of _ out'']) (simp add: assms(4) w w')
  next
    case False
    then have "d = (\<not> e)" by blast
    with that show ?thesis by (simp add: flow_def assms(4) w w')
  qed
qed

text \<open>A turn of a thread that is not told to quit handles the first message of its control channel.\<close>

lemma turn_message:
  assumes "worker_step w = Some w'" and "node_ready w" and "Quit \<notin> set (ch_queue (control w))"
  obtains src m rest rs where "ch_queue (control w) = Incoming src m # rest" and "ch_queue (control w') = rest"
    and "worker_sent w' = worker_sent w @ map (Pair src) rs" and "answers (w_peer_id w) 16 (worker_view w) m rs"
    and "worker_view w' = learns (src, m) (worker_view w)" and "node_ready w'" and "w_peer_id w' = w_peer_id w"
proof -
  from assms obtain c rest where c: "ch_queue (control w) = c # rest" "c \<noteq> Quit"
    by (cases "ch_queue (control w)") (auto simp: worker_step_def chan_recv_Nil node_ready_def)
  then obtain src m where queue: "ch_queue (control w) = Incoming src m # rest" by (cases c) auto
  let ?w = "w\<lparr>control := (control w)\<lparr>ch_queue := rest\<rparr>\<rparr>"
  have "worker_ok ?w" using assms(2) by (simp add: node_ready_def)
  from handle_message_spec [OF this, of src m] obtain w1 rs where w1: "handle_message src m ?w = Inr w1"
      "worker_ok w1" "w_peer_id w1 = w_peer_id w" "worker_view w1 = learns (src, m) (worker_view w)"
      "worker_sent w1 = worker_sent w @ map (Pair src) rs" "answers (w_peer_id w) 16 (worker_view w) m rs"
    by auto
  have w': "w' = w1" using assms(1,2) queue w1(1) by (simp add: worker_step_def node_ready_def)
  show ?thesis
    by (rule that [OF queue]) (use w' w1 handle_message_frame [OF w1(1)] assms(2) in \<open>simp_all add: node_ready_def\<close>)
qed

text \<open>A running thread with a message takes a turn.\<close>

lemma node_turns:
  assumes "node_ready w" and "ch_queue (control w) = Incoming src m # rest"
  shows "\<exists>w'. worker_step w = Some w'"
  using assms by (cases "handle_message src m (w\<lparr>control := (control w)\<lparr>ch_queue := rest\<rparr>\<rparr>)")
    (simp_all add: worker_step_def node_ready_def)

text \<open>For the pair: it takes the first message on its way to it, and its answers follow.\<close>

lemma turn_flow:
  assumes "worker_step (ws e) = Some w" and "node_ready (ws e)" and "flow addr ws (\<not> e) ms" and "flow addr ws e ns"
    and "ws' = ws(e := w)"
  obtains m ms' rs where "ms = m # ms'" and "flow addr ws' (\<not> e) ms'" and "flow addr ws' e (ns @ rs)"
    and "answers (w_peer_id (ws e)) 16 (worker_view (ws e)) m rs" and "worker_view w = learns (addr (\<not> e), m) (worker_view (ws e))"
    and "node_ready w" and "w_peer_id w = w_peer_id (ws e)" and "uncarried ws' = uncarried ws + length rs"
proof -
  from assms(3) obtain cs out where co: "ms = cs @ out" "ch_queue (control (ws e)) = map (Incoming (addr (\<not> e))) cs"
      "worker_sent (ws (\<not> e)) = map (Pair (addr e)) out" by (auto simp: flow_def)
  from assms(4) obtain cs' out' where co': "ns = cs' @ out'" "ch_queue (control (ws (\<not> e))) = map (Incoming (addr e)) cs'"
      "worker_sent (ws e) = map (Pair (addr (\<not> e))) out'" by (auto simp: flow_def)
  have "Quit \<notin> set (ch_queue (control (ws e)))" using co(2) by auto
  from turn_message [OF assms(1,2) this] obtain src m rest rs where turn: "ch_queue (control (ws e)) = Incoming src m # rest"
      "ch_queue (control w) = rest" "worker_sent w = worker_sent (ws e) @ map (Pair src) rs"
      "answers (w_peer_id (ws e)) 16 (worker_view (ws e)) m rs" "worker_view w = learns (src, m) (worker_view (ws e))"
      "node_ready w" "w_peer_id w = w_peer_id (ws e)" .
  then obtain cs1 where cs: "cs = m # cs1" "src = addr (\<not> e)" "rest = map (Incoming (addr (\<not> e))) cs1" using co(2) by (cases cs) auto
  show ?thesis
  proof (rule that [of m "cs1 @ out" rs])
    show "flow addr ws' (\<not> e) (cs1 @ out)" using co(3) cs turn(2)
      unfolding flow_def by (intro exI [of _ cs1] exI [of _ out]) (simp add: assms(5))
    show "flow addr ws' e (ns @ rs)" using co' turn(3) cs(2)
      unfolding flow_def by (intro exI [of _ cs'] exI [of _ "out' @ rs"]) (simp add: assms(5))
    show "uncarried ws' = uncarried ws + length rs" using turn(3) by (cases e) (simp_all add: assms(5))
  qed (use co(1) cs turn in simp_all)
qed

text \<open>Nothing can happen only if nothing is on its way.\<close>

lemma pair_stuck:
  assumes "\<And>e. node_ready (ws e)" and "flow addr ws e ms" and "\<not> (\<exists>ws'. pair_step addr ws ws')"
  shows "ms = []"
proof -
  from assms(2) obtain cs out where co: "ms = cs @ out" "ch_queue (control (ws (\<not> e))) = map (Incoming (addr e)) cs"
      "worker_sent (ws e) = map (Pair (addr (\<not> e))) out" by (auto simp: flow_def)
  have "cs = []"
  proof (cases cs)
    case (Cons m rest)
    have "\<exists>w. worker_step (ws (\<not> e)) = Some w" using node_turns [OF assms(1)] co(2) Cons by simp
    then show ?thesis using assms(3) thread_turn by blast
  qed
  moreover have "out = []"
  proof (cases out)
    case (Cons m rest)
    have "recv_message (ws e) = (Inr (addr (\<not> e), m), (ws e)\<lparr>outbox := (outbox (ws e))\<lparr>ch_queue := map (Pair (addr (\<not> e))) rest\<rparr>\<rparr>)"
      using co(3) Cons by (simp add: recv_message_def chan_try_recv_def)
    moreover have "\<exists>w'. controller_message (addr e) m (ws (\<not> e)) = Inr w'"
      using assms(1) [of "\<not> e"] by (simp add: controller_message_def node_ready_def)
    ultimately show ?thesis using assms(3) carry by blast
  qed
  ultimately show ?thesis using co(1) by simp
qed

subsection \<open>The stages of an introduction\<close>

text \<open>
  The worker \<open>False\<close>, whose id is \<open>pb\<close>, has sent a \<open>Ping\<close> to the worker \<open>True\<close>, whose id is \<open>pa\<close>.
  A stage has a bound on the turns and messages that are still to come, what is on its way from
  \<open>False\<close> and from \<open>True\<close>, and what \<open>True\<close> and \<open>False\<close> know; they knew \<open>va\<close> and \<open>vb\<close> at the start.
\<close>

inductive stage ::
  "(bool \<Rightarrow> socket_addr) \<Rightarrow> peer_id \<Rightarrow> peer_id \<Rightarrow> knowledge \<Rightarrow> knowledge \<Rightarrow>
   nat \<Rightarrow> message list \<Rightarrow> message list \<Rightarrow> knowledge \<Rightarrow> knowledge \<Rightarrow> bool"
  for addr :: "bool \<Rightarrow> socket_addr" and pa pb :: peer_id and va vb :: knowledge where
  asked: "stage addr pa pb va vb 7 [Ping pb] [] va vb"
| new_peer: "va pb = None \<Longrightarrow> stage addr pa pb va vb 4 [] [Pong pa, Ping pa] va vb"
| learned: "va pb = None \<Longrightarrow> stage addr pa pb va vb 3 [] [Ping pa] va (vb(pa \<mapsto> addr True))"
| pinged: "va pb = None \<Longrightarrow> stage addr pa pb va vb 1 [Pong pb] [] va (vb(pa \<mapsto> addr True))"
| introduced: "va pb = None \<Longrightarrow> stage addr pa pb va vb 0 [] [] (va(pb \<mapsto> addr False)) (vb(pa \<mapsto> addr True))"
| known_peer: "va pb = Some y \<Longrightarrow> stage addr pa pb va vb 1 [] [Pong pa] va vb"
| refreshed: "va pb = Some y \<Longrightarrow> stage addr pa pb va vb 0 [] [] va (vb(pa \<mapsto> addr True))"

inductive_cases stage_doneE: "stage addr pa pb va vb k [] [] v v'"

text \<open>A message is handled: the stage that follows.\<close>

lemma stage_at_True:
  assumes "stage addr pa pb va vb k (m # ms) ns v v'" and "answers pa 16 v m rs"
  shows "\<exists>k'. stage addr pa pb va vb k' ms (ns @ rs) (learns (addr False, m) v) v' \<and> k' + length rs < k"
  using assms by cases (auto intro: stage.intros split: if_splits)

lemma stage_at_False:
  assumes "stage addr pa pb va vb k ns (m # ms) v v'" and "answers pb 16 v' m rs"
  shows "\<exists>k'. stage addr pa pb va vb k' (ns @ rs) ms v (learns (addr True, m) v') \<and> k' + length rs < k"
  using assms by cases (auto intro: stage.intros)

definition shaking ::
  "(bool \<Rightarrow> socket_addr) \<Rightarrow> peer_id \<Rightarrow> peer_id \<Rightarrow> knowledge \<Rightarrow> knowledge \<Rightarrow> nat \<Rightarrow> (bool \<Rightarrow> worker) \<Rightarrow> bool" where
  "shaking addr pa pb va vb k ws \<longleftrightarrow> (\<forall>e. node_ready (ws e)) \<and> w_peer_id (ws True) = pa \<and> w_peer_id (ws False) = pb \<and>
     (\<exists>fb fa. flow addr ws False fb \<and> flow addr ws True fa \<and>
        stage addr pa pb va vb k fb fa (worker_view (ws True)) (worker_view (ws False)))"

lemma shaking_step:
  assumes "shaking addr pa pb va vb k ws" and "pair_step addr ws ws'"
  shows "\<exists>k'. shaking addr pa pb va vb k' ws' \<and> k' + uncarried ws' < k + uncarried ws"
proof -
  from assms(1) obtain fb fa where ready: "\<And>e. node_ready (ws e)" and ids: "w_peer_id (ws True) = pa" "w_peer_id (ws False) = pb"
      and flows: "flow addr ws False fb" "flow addr ws True fa"
      and stage: "stage addr pa pb va vb k fb fa (worker_view (ws True)) (worker_view (ws False))"
    by (auto simp: shaking_def)
  from assms(2) show ?thesis
  proof cases
    case (carry e msg w w')
    note keeps = carry_keeps [OF carry(2,3) ready carry(1)]
    have "shaking addr pa pb va vb k ws'"
      using keeps(2-4) keeps(1) [OF flows(1)] keeps(1) [OF flows(2)] ids stage by (auto simp: shaking_def)
    then show ?thesis using keeps(5) by (intro exI [of _ k]) linarith
  next
    case (thread_turn e w)
    show ?thesis
    proof (cases e)
      case True
      have "flow addr ws (\<not> e) fb" "flow addr ws e fa" using flows True by simp_all
      then obtain m ms' rs where t: "fb = m # ms'" "flow addr ws' False ms'" "flow addr ws' True (fa @ rs)"
          "answers pa 16 (worker_view (ws True)) m rs" "worker_view w = learns (addr False, m) (worker_view (ws True))"
          "node_ready w" "w_peer_id w = pa" "uncarried ws' = uncarried ws + length rs"
        by (rule turn_flow [OF thread_turn(2) ready _ _ thread_turn(1)]) (use True ids in simp)
      from stage_at_True [OF stage [unfolded t(1)] t(4)] show ?thesis
        using t True thread_turn(1) ids ready by (fastforce simp: shaking_def)
    next
      case False
      have "flow addr ws (\<not> e) fa" "flow addr ws e fb" using flows False by simp_all
      then obtain m ms' rs where t: "fa = m # ms'" "flow addr ws' True ms'" "flow addr ws' False (fb @ rs)"
          "answers pb 16 (worker_view (ws False)) m rs" "worker_view w = learns (addr True, m) (worker_view (ws False))"
          "node_ready w" "w_peer_id w = pb" "uncarried ws' = uncarried ws + length rs"
        by (rule turn_flow [OF thread_turn(2) ready _ _ thread_turn(1)]) (use False ids in simp)
      from stage_at_False [OF stage [unfolded t(1)] t(4)] show ?thesis
        using t False thread_turn(1) ids ready by (fastforce simp: shaking_def)
    qed
  qed
qed

lemma shaking_run:
  assumes "(pair_step addr ^^ n) ws ws'" and "shaking addr pa pb va vb k ws"
  shows "\<exists>k'. shaking addr pa pb va vb k' ws' \<and> n + k' + uncarried ws' \<le> k + uncarried ws"
  using assms
proof (induction n arbitrary: ws')
  case (Suc n)
  from Suc.prems(1) obtain ws1 where "(pair_step addr ^^ n) ws ws1" "pair_step addr ws1 ws'" by auto
  with Suc.IH Suc.prems(2) obtain k1 where k1: "shaking addr pa pb va vb k1 ws1" "n + k1 + uncarried ws1 \<le> k + uncarried ws" by blast
  from shaking_step [OF k1(1) \<open>pair_step addr ws1 ws'\<close>] k1(2) show ?case by fastforce
qed auto

subsection \<open>Properties\<close>

text \<open>
  C8. A \<open>Ping\<close> introduces two workers to each other. Two running workers with empty channels, one of
  which is handed a \<open>Ping\<close> with the id and the address of the other: if their messages are carried
  to each other, then in whatever order the threads run and the messages are carried, at most seven
  steps happen and nothing panics. When nothing is left to do, the channels are empty, the one who
  sent the \<open>Ping\<close> knows the other one at its address, and the other one knows the sender at its
  address, or at the one it knew before: a \<open>Ping\<close> does not update the address of a known peer.
\<close>

theorem ping_introduces_both:
  assumes "node_ready wa" and "node_ready wb" and "ch_queue (control wa) = [] \<and> ch_queue (control wb) = []"
    and "ch_queue (outbox wa) = [] \<and> ch_queue (outbox wb) = []"
    and "controller_message (addr False) (Ping (w_peer_id wb)) wa = Inr wa'"
    and "(pair_step addr ^^ n) (\<lambda>e. if e then wa' else wb) ws"
  shows "n \<le> 7 \<and> (\<forall>e. w_status (ws e) = Running) \<and>
    (\<not> (\<exists>ws'. pair_step addr ws ws') \<longrightarrow>
      worker_view (ws True) = (if worker_view wa (w_peer_id wb) = None
        then (worker_view wa)(w_peer_id wb \<mapsto> addr False) else worker_view wa) \<and>
      worker_view (ws False) = (worker_view wb)(w_peer_id wa \<mapsto> addr True) \<and>
      (\<forall>e. ch_queue (control (ws e)) = [] \<and> ch_queue (outbox (ws e)) = []))"
proof -
  let ?ws = "\<lambda>e. if e then wa' else wb"
  have wa': "wa' = wa\<lparr>control := (control wa)\<lparr>ch_queue := [Incoming (addr False) (Ping (w_peer_id wb))]\<rparr>\<rparr>"
    using assms(1,3,5) by (simp add: controller_message_def node_ready_def)
  have "flow addr ?ws False [Ping (w_peer_id wb)]" "flow addr ?ws True []"
    using assms(3,4) by (auto simp: flow_def wa')
  then have "shaking addr (w_peer_id wa) (w_peer_id wb) (worker_view wa) (worker_view wb) 7 ?ws"
    using assms(1,2) asked by (fastforce simp: shaking_def wa' node_ready_def)
  from shaking_run [OF assms(6) this] assms(4) obtain k where
    k: "shaking addr (w_peer_id wa) (w_peer_id wb) (worker_view wa) (worker_view wb) k ws" "n \<le> 7" by (auto simp: wa')
  then obtain fb fa where ready: "\<And>e. node_ready (ws e)" and flows: "flow addr ws False fb" "flow addr ws True fa"
      and stage: "stage addr (w_peer_id wa) (w_peer_id wb) (worker_view wa) (worker_view wb) k fb fa (worker_view (ws True)) (worker_view (ws False))"
    by (auto simp: shaking_def)
  show ?thesis
  proof (intro conjI impI k(2))
    show "\<forall>e. w_status (ws e) = Running" using ready by (simp add: node_ready_def)
  next
    assume "\<not> (\<exists>ws'. pair_step addr ws ws')"
    note stuck = pair_stuck [OF ready flows(1) this] pair_stuck [OF ready flows(2) this]
    note stage = stage [unfolded stuck]
    show "worker_view (ws True) = (if worker_view wa (w_peer_id wb) = None
        then (worker_view wa)(w_peer_id wb \<mapsto> addr False) else worker_view wa)"
      "worker_view (ws False) = (worker_view wb)(w_peer_id wa \<mapsto> addr True)" by (use stage in \<open>auto elim: stage_doneE\<close>)
    show "\<forall>e. ch_queue (control (ws e)) = [] \<and> ch_queue (outbox (ws e)) = []"
      using flows unfolding stuck by (auto simp: flow_def all_bool_eq)
  qed
qed

theorem ping_introduces_both_witness:
  "\<exists>wa wb wa' n ws. worker_start rev zero_peer (V4 1 2) = Inr wa \<and> worker_start rev (unit_peer 0 128) (V4 3 4) = Inr wb \<and>
     controller_message (V4 3 4) (Ping (unit_peer 0 128)) wa = Inr wa' \<and>
     (pair_step (\<lambda>e. if e then V4 1 2 else V4 3 4) ^^ n) (\<lambda>e. if e then wa' else wb) ws \<and>
     worker_view (ws True) = [zero_peer \<mapsto> V4 1 2, unit_peer 0 128 \<mapsto> V4 3 4] \<and>
     worker_view (ws False) = [unit_peer 0 128 \<mapsto> V4 3 4, zero_peer \<mapsto> V4 1 2]"
proof -
  let ?addr = "\<lambda>e. if e then V4 1 2 else V4 3 4"
  obtain wa where wa: "worker_start rev zero_peer (V4 1 2) = Inr wa" "worker_ok wa" "w_status wa = Running" "w_peer_id wa = zero_peer"
      "worker_view wa = [zero_peer \<mapsto> V4 1 2]" "control wa = chan_new" "outbox wa = chan_new"
    using worker_start_spec [OF enumerates_rev] by blast
  obtain wb where wb: "worker_start rev (unit_peer 0 128) (V4 3 4) = Inr wb" "worker_ok wb" "w_status wb = Running"
      "w_peer_id wb = unit_peer 0 128" "worker_view wb = [unit_peer 0 128 \<mapsto> V4 3 4]" "control wb = chan_new" "outbox wb = chan_new"
    using worker_start_spec [OF enumerates_rev] by blast
  have ready: "node_ready wa" "node_ready wb" using wa wb by (simp_all add: node_ready_def chan_new_def)
  have idle: "ch_queue (control wa) = [] \<and> ch_queue (control wb) = []" "ch_queue (outbox wa) = [] \<and> ch_queue (outbox wb) = []"
    using wa wb by (simp_all add: chan_new_def)
  obtain wa' where wa': "controller_message (?addr False) (Ping (w_peer_id wb)) wa = Inr wa'"
    using wa(6) by (simp add: controller_message_def chan_new_def)
  note intro = ping_introduces_both [where addr = ?addr, OF ready idle wa']
  obtain n ws where run: "(pair_step ?addr ^^ n) (\<lambda>e. if e then wa' else wb) ws" "\<not> (\<exists>ws'. pair_step ?addr ws ws')"
    using bounded_run_ends [of "pair_step ?addr" "\<lambda>e. if e then wa' else wb" 7] intro by blast
  have "unit_peer 0 128 \<noteq> zero_peer" by (rule unit_peer_not_zero) simp_all
  with intro [OF run(1)] run wa wb wa' show ?thesis by auto
qed

end
