(* ===== verification/Introductions.thy ===== *)
theory Introductions
  imports Handshake
begin

text \<open>
  Any number of workers whose messages are carried to each other in the order they are sent.
  However many introductions go on at the same time, the traffic they cause is bounded by the
  number of messages at the start, and each of them succeeds.
\<close>

subsection \<open>Many workers and a carrier\<close>

text \<open>
  The workers are a map from their addresses. A step is a turn of a thread, a message carried to
  its destination, or a message to an address where nobody is, which is lost.
\<close>

inductive many_step :: "(socket_addr \<rightharpoonup> worker) \<Rightarrow> (socket_addr \<rightharpoonup> worker) \<Rightarrow> bool" where
  turn: "ws a = Some w \<Longrightarrow> worker_step w = Some w' \<Longrightarrow> many_step ws (ws(a \<mapsto> w'))"
| carried: "ws a = Some w \<Longrightarrow> recv_message w = (Inr (dst, msg), w') \<Longrightarrow> (ws(a \<mapsto> w')) dst = Some v \<Longrightarrow>
    controller_message a msg v = Inr v' \<Longrightarrow> many_step ws (ws(a \<mapsto> w', dst \<mapsto> v'))"
| lost: "ws a = Some w \<Longrightarrow> recv_message w = (Inr (dst, msg), w') \<Longrightarrow> ws dst = None \<Longrightarrow> many_step ws (ws(a \<mapsto> w'))"

text \<open>The messages on their way from one address to another one where there is a worker.\<close>

fun from_src :: "socket_addr \<Rightarrow> worker_message list \<Rightarrow> message list" where
  "from_src a [] = []"
| "from_src a (Incoming src m # cs) = (if src = a then m # from_src a cs else from_src a cs)"
| "from_src a (Quit # cs) = from_src a cs"

fun to_dst :: "socket_addr \<Rightarrow> (socket_addr \<times> message) list \<Rightarrow> message list" where
  "to_dst b [] = []"
| "to_dst b ((dst, m) # out) = (if dst = b then m # to_dst b out else to_dst b out)"

definition on_way :: "(socket_addr \<rightharpoonup> worker) \<Rightarrow> socket_addr \<Rightarrow> socket_addr \<Rightarrow> message list" where
  "on_way ws a b = (case ws b of None \<Rightarrow> [] | Some w \<Rightarrow> from_src a (ch_queue (control w)) @
     (case ws a of None \<Rightarrow> [] | Some v \<Rightarrow> to_dst b (worker_sent v)))"

lemma from_src_append [simp]: "from_src a (cs @ ds) = from_src a cs @ from_src a ds"
  by (induction a cs rule: from_src.induct) simp_all

lemma from_src_mem: "m \<in> set (from_src a cs) \<longleftrightarrow> Incoming a m \<in> set cs"
  by (induction a cs rule: from_src.induct) auto

lemma to_dst_mem: "m \<in> set (to_dst b out) \<longleftrightarrow> (b, m) \<in> set out"
  by (induction b out rule: to_dst.induct) auto

lemma to_dst_append [simp]: "to_dst b (out @ out') = to_dst b out @ to_dst b out'"
  by (induction b out rule: to_dst.induct) simp_all

lemma to_dst_answers [simp]: "to_dst b (map (Pair a) rs) = (if a = b then rs else [])"
  by (cases "a = b"; induction rs) simp_all

text \<open>
  Finitely many workers that run, none of which is told to quit. Their messages may name any
  source: \<open>crowd_in S\<close> says that all addresses and sources are in \<open>S\<close>.
\<close>

definition crowd_ok :: "(socket_addr \<rightharpoonup> worker) \<Rightarrow> bool" where
  "crowd_ok ws \<longleftrightarrow> finite (dom ws) \<and> (\<forall>a w. ws a = Some w \<longrightarrow> node_ready w \<and> Quit \<notin> set (ch_queue (control w)))"

definition crowd_in :: "socket_addr set \<Rightarrow> (socket_addr \<rightharpoonup> worker) \<Rightarrow> bool" where
  "crowd_in S ws \<longleftrightarrow> finite S \<and> dom ws \<subseteq> S \<and> (\<forall>a w. ws a = Some w \<longrightarrow> node_ready w \<and>
     (\<forall>c \<in> set (ch_queue (control w)). \<exists>src m. c = Incoming src m \<and> src \<in> S))"

definition sources :: "worker_message list \<Rightarrow> socket_addr set" where
  "sources cs = set (concat (map (\<lambda>c. case c of Quit \<Rightarrow> [] | Incoming src m \<Rightarrow> [src]) cs))"

lemma finite_sources: "finite (sources cs)"
  unfolding sources_def by (rule finite_set)

lemma crowd_in_sources: "crowd_ok ws \<Longrightarrow> crowd_in (dom ws \<union> (\<Union>w \<in> ran ws. sources (ch_queue (control w)))) ws"
  unfolding crowd_in_def
proof (intro conjI allI impI ballI)
  assume ok: "crowd_ok ws"
  show "finite (dom ws \<union> (\<Union>w \<in> ran ws. sources (ch_queue (control w))))"
    using ok finite_sources by (simp add: crowd_ok_def finite_ran)
  fix a w
  assume w: "ws a = Some w"
  show "node_ready w" using ok w by (auto simp: crowd_ok_def)
  fix c
  assume c: "c \<in> set (ch_queue (control w))"
  then have "c \<noteq> Quit" using ok w by (auto simp: crowd_ok_def)
  then obtain src m where src: "c = Incoming src m" by (cases c) simp_all
  then have "src \<in> sources (ch_queue (control w))" using c by (force simp: sources_def)
  then show "\<exists>src m. c = Incoming src m \<and> src \<in> dom ws \<union> (\<Union>w \<in> ran ws. sources (ch_queue (control w)))"
    using src w by (blast intro: ranI)
qed auto

definition knows :: "(socket_addr \<rightharpoonup> worker) \<Rightarrow> socket_addr \<Rightarrow> peer_id set" where
  "knows ws a = (case ws a of None \<Rightarrow> {} | Some w \<Rightarrow> dom (worker_view w))"

subsection \<open>The effect of a step\<close>

definition unsent :: "(socket_addr \<rightharpoonup> worker) \<Rightarrow> nat" where
  "unsent ws = (\<Sum>a \<in> dom ws. length (worker_sent (the (ws a))))"

text \<open>
  Carrying or losing a message changes no flow: the first message for a destination goes to the end
  of what is queued there. A step that moves a message, and a turn of the worker at \<open>b\<close> that
  handles a message from \<open>a\<close>.
\<close>

definition moves :: "(socket_addr \<rightharpoonup> worker) \<Rightarrow> (socket_addr \<rightharpoonup> worker) \<Rightarrow> bool" where
  "moves ws ws' \<longleftrightarrow> dom ws' = dom ws \<and> (\<forall>x y. on_way ws' x y = on_way ws x y) \<and> (\<forall>x. knows ws' x = knows ws x) \<and>
     Suc (unsent ws') = unsent ws"

definition handles ::
  "socket_addr \<Rightarrow> socket_addr \<Rightarrow> message \<Rightarrow> message list \<Rightarrow> (socket_addr \<rightharpoonup> worker) \<Rightarrow> (socket_addr \<rightharpoonup> worker) \<Rightarrow> bool" where
  "handles a b m rs ws ws' \<longleftrightarrow> dom ws' = dom ws \<and> b \<in> dom ws \<and> on_way ws a b \<noteq> [] \<and>
     (\<forall>x y. (if x = a \<and> y = b then [m] else []) @ on_way ws' x y = on_way ws x y @ (if x = b \<and> y = a \<and> a \<in> dom ws then rs else [])) \<and>
     (\<forall>x. knows ws x \<subseteq> knows ws' x) \<and> (\<forall>p. m = Pong p \<longrightarrow> p \<in> knows ws' b) \<and>
     unsent ws' = unsent ws + length rs"

lemma handlesD:
  assumes "handles a b m rs ws ws'"
  shows "dom ws' = dom ws" and "b \<in> dom ws"
    and "(if x = a \<and> y = b then [m] else []) @ on_way ws' x y = on_way ws x y @ (if x = b \<and> y = a \<and> a \<in> dom ws then rs else [])"
    and "knows ws x \<subseteq> knows ws' x" and "m = Pong p \<Longrightarrow> p \<in> knows ws' b" and "unsent ws' = unsent ws + length rs"
    and "on_way ws a b \<noteq> []"
  using assms unfolding handles_def by blast+

lemma handles_leaves:
  assumes "handles a b m rs ws ws'" and "z \<in> set (on_way ws x y)"
  shows "z \<in> set (on_way ws' x y) \<or> x = a \<and> y = b \<and> z = m"
proof -
  have "z \<in> set ((if x = a \<and> y = b then [m] else []) @ on_way ws' x y)" unfolding handlesD(3) [OF assms(1)] using assms(2) by simp
  then show ?thesis by (auto split: if_splits)
qed

lemma handles_sends:
  assumes "handles a b m rs ws ws'" and "a \<in> dom ws" and "r \<in> set rs"
  shows "r \<in> set (on_way ws' b a)"
proof (cases "a = b")
  case True
  with handlesD(7) [OF assms(1)] obtain n ns where n: "on_way ws b a = n # ns" by (cases "on_way ws b a") auto
  then have "on_way ws' b a = ns @ rs" using handlesD(3) [OF assms(1), of b a] assms(2) True by simp
  then show ?thesis using assms(3) by simp
next
  case False
  then have "on_way ws' b a = on_way ws b a @ rs" using handlesD(3) [OF assms(1), of b a] assms(2) by simp
  then show ?thesis using assms(3) by simp
qed

lemma unsent_update:
  assumes "finite (dom ws)" and "ws a = Some w"
  shows "unsent (ws(a \<mapsto> w')) + length (worker_sent w) = unsent ws + length (worker_sent w')"
proof -
  let ?len = "\<lambda>ws x. length (worker_sent (the (ws x)))"
  have "a \<in> dom ws" using assms(2) by auto
  then have "unsent ws = length (worker_sent w) + sum (?len ws) (dom ws - {a})"
    using sum.remove [OF assms(1), of a "?len ws"] assms(2) by (simp add: unsent_def)
  moreover have "unsent (ws(a \<mapsto> w')) = length (worker_sent w') + sum (?len (ws(a \<mapsto> w'))) (dom ws - {a})"
    using sum.remove [OF assms(1), of a "?len (ws(a \<mapsto> w'))"] \<open>a \<in> dom ws\<close> by (simp add: unsent_def insert_absorb)
  moreover have "sum (?len (ws(a \<mapsto> w'))) (dom ws - {a}) = sum (?len ws) (dom ws - {a})"
    by (rule sum.cong) simp_all
  ultimately show ?thesis by simp
qed

lemma crowd_finite: "crowd_in S ws \<Longrightarrow> finite (dom ws)"
  by (auto simp: crowd_in_def intro: finite_subset)

text \<open>A message leaves the outbox of the worker at \<open>a\<close>, and a message is queued for the worker at \<open>dst\<close>.\<close>

lemma recv_message_pops:
  assumes "recv_message w = (Inr (dst, msg), w')"
  obtains rest where "worker_sent w = (dst, msg) # rest" and "w' = w\<lparr>outbox := (outbox w)\<lparr>ch_queue := rest\<rparr>\<rparr>"
  using assms by (auto simp: recv_message_def chan_try_recv_Inr split: prod.splits)

lemma pop_keeps:
  assumes "crowd_in S ws" and "ws a = Some w" and "recv_message w = (Inr (dst, msg), w')"
  shows "crowd_in S (ws(a \<mapsto> w'))" and "Suc (unsent (ws(a \<mapsto> w'))) = unsent ws"
    and "knows (ws(a \<mapsto> w')) x = knows ws x" and "w_peer_id w' = w_peer_id w"
    and "on_way ws x y = (if x = a \<and> y = dst \<and> y \<in> dom ws
       then from_src a (ch_queue (control (the (ws y)))) @ msg # to_dst y (worker_sent w') else on_way (ws(a \<mapsto> w')) x y)"
proof -
  obtain rest where w: "worker_sent w = (dst, msg) # rest" "w' = w\<lparr>outbox := (outbox w)\<lparr>ch_queue := rest\<rparr>\<rparr>"
    by (rule recv_message_pops [OF assms(3)])
  show "crowd_in S (ws(a \<mapsto> w'))" using assms(1,2) by (fastforce simp: crowd_in_def w node_ready_def)
  show "Suc (unsent (ws(a \<mapsto> w'))) = unsent ws"
    using unsent_update [OF crowd_finite [OF assms(1)] assms(2), of w'] w by simp
  show "knows (ws(a \<mapsto> w')) x = knows ws x" "w_peer_id w' = w_peer_id w" using assms(2) by (simp_all add: knows_def w)
  show "on_way ws x y = (if x = a \<and> y = dst \<and> y \<in> dom ws
       then from_src a (ch_queue (control (the (ws y)))) @ msg # to_dst y (worker_sent w') else on_way (ws(a \<mapsto> w')) x y)"
    using assms(2) w by (auto simp: on_way_def split: option.splits)
qed

lemma push_keeps:
  assumes "crowd_in S ws" and "ws dst = Some v" and "controller_message a msg v = Inr v'" and "a \<in> dom ws"
  shows "crowd_in S (ws(dst \<mapsto> v'))" and "unsent (ws(dst \<mapsto> v')) = unsent ws"
    and "knows (ws(dst \<mapsto> v')) x = knows ws x" and "w_peer_id v' = w_peer_id v"
    and "on_way (ws(dst \<mapsto> v')) x y = (if x = a \<and> y = dst
       then from_src a (ch_queue (control v)) @ msg # to_dst dst (worker_sent (the ((ws(dst \<mapsto> v')) a))) else on_way ws x y)"
proof -
  have v': "v' = v\<lparr>control := (control v)\<lparr>ch_queue := ch_queue (control v) @ [Incoming a msg]\<rparr>\<rparr>"
    using assms(1-3) by (auto simp: controller_message_def crowd_in_def node_ready_def)
  show "crowd_in S (ws(dst \<mapsto> v'))" using assms(1,2,4) by (fastforce simp: crowd_in_def v' node_ready_def)
  show "unsent (ws(dst \<mapsto> v')) = unsent ws"
    using unsent_update [OF crowd_finite [OF assms(1)] assms(2), of v'] by (simp add: v')
  show "knows (ws(dst \<mapsto> v')) x = knows ws x" "w_peer_id v' = w_peer_id v" using assms(2) by (simp_all add: knows_def v')
  show "on_way (ws(dst \<mapsto> v')) x y = (if x = a \<and> y = dst
       then from_src a (ch_queue (control v)) @ msg # to_dst dst (worker_sent (the ((ws(dst \<mapsto> v')) a))) else on_way ws x y)"
    using assms(2,4) by (auto simp: on_way_def v' split: option.splits)
qed

text \<open>The ids of the workers do not change.\<close>

definition ids_at :: "(socket_addr \<rightharpoonup> worker) \<Rightarrow> socket_addr \<rightharpoonup> peer_id" where
  "ids_at ws a = map_option w_peer_id (ws a)"

lemma ids_at_update: "ws a = Some w \<Longrightarrow> w_peer_id w' = w_peer_id w \<Longrightarrow> ids_at (ws(a \<mapsto> w')) = ids_at ws"
  by (auto simp: ids_at_def)

lemma turn_handles:
  assumes "crowd_in S ws" and "ws b = Some w" and "worker_step w = Some w'"
  shows "crowd_in S (ws(b \<mapsto> w'))" and "ids_at (ws(b \<mapsto> w')) = ids_at ws"
    and "\<exists>a m rs. a \<in> S \<and> handles a b m rs ws (ws(b \<mapsto> w')) \<and> answers (w_peer_id w) 16 (worker_view w) m rs"
proof -
  have "node_ready w" "Quit \<notin> set (ch_queue (control w))" using assms(1,2) by (auto simp: crowd_in_def)
  from turn_message [OF assms(3) this] obtain a m rest rs where turn: "ch_queue (control w) = Incoming a m # rest"
      "ch_queue (control w') = rest" "worker_sent w' = worker_sent w @ map (Pair a) rs"
      "answers (w_peer_id w) 16 (worker_view w) m rs" "worker_view w' = learns (a, m) (worker_view w)"
      "node_ready w'" "w_peer_id w' = w_peer_id w" .
  have "Incoming a m \<in> set (ch_queue (control w))" using turn(1) by simp
  with assms(1,2) have a: "a \<in> S" unfolding crowd_in_def by blast
  have dom: "b \<in> dom ws" using assms(2) by auto
  show "crowd_in S (ws(b \<mapsto> w'))" using assms(1,2) turn by (fastforce simp: crowd_in_def)
  show "ids_at (ws(b \<mapsto> w')) = ids_at ws" by (rule ids_at_update) (use assms(2) turn in simp_all)
  have "(if x = a \<and> y = b then [m] else []) @ on_way (ws(b \<mapsto> w')) x y = on_way ws x y @ (if x = b \<and> y = a \<and> a \<in> dom ws then rs else [])" for x y
    using assms(2) turn(1-3)
    by (cases "x = b"; cases "y = b"; cases "x = a"; cases "y = a") (auto simp: on_way_def split: option.split)
  moreover have "knows ws x \<subseteq> knows (ws(b \<mapsto> w')) x" for x
    using assms(2) turn(5) learns_keeps [of "worker_view w" _ "(a, m)"] by (auto simp: knows_def)
  moreover have "unsent (ws(b \<mapsto> w')) = unsent ws + length rs"
    using unsent_update [OF crowd_finite [OF assms(1)] assms(2), of w'] turn(3) by simp
  moreover have "dom (ws(b \<mapsto> w')) = dom ws" using dom by auto
  moreover have "p \<in> knows (ws(b \<mapsto> w')) b" if "m = Pong p" for p using turn(5) that by (simp add: knows_def)
  moreover have "on_way ws a b \<noteq> []" using assms(2) turn(1) by (simp add: on_way_def)
  ultimately have "handles a b m rs ws (ws(b \<mapsto> w'))" unfolding handles_def using dom by blast
  with turn(4) a show "\<exists>a m rs. a \<in> S \<and> handles a b m rs ws (ws(b \<mapsto> w')) \<and> answers (w_peer_id w) 16 (worker_view w) m rs"
    by blast
qed

lemma carried_moves:
  assumes "crowd_in S ws" and "ws a = Some w" and "recv_message w = (Inr (dst, msg), w')"
    and "(ws(a \<mapsto> w')) dst = Some v" and "controller_message a msg v = Inr v'"
  shows "crowd_in S (ws(a \<mapsto> w', dst \<mapsto> v'))" and "ids_at (ws(a \<mapsto> w', dst \<mapsto> v')) = ids_at ws"
    and "moves ws (ws(a \<mapsto> w', dst \<mapsto> v'))"
proof -
  let ?ws = "ws(a \<mapsto> w')"
  note pop = pop_keeps [OF assms(1-3)]
  have dom: "a \<in> dom ?ws" "dst \<in> dom ws" using assms(2,4) by (auto split: if_splits)
  note push = push_keeps [OF pop(1) assms(4,5) dom(1)]
  show "crowd_in S (ws(a \<mapsto> w', dst \<mapsto> v'))" by (rule push(1))
  show "ids_at (ws(a \<mapsto> w', dst \<mapsto> v')) = ids_at ws"
    using ids_at_update [of ?ws dst v v'] ids_at_update [of ws a w w'] assms(2,4) pop(4) push(4) by simp
  have "worker_sent (the ((ws(a \<mapsto> w', dst \<mapsto> v')) a)) = worker_sent w'"
    using assms(4,5) by (cases "a = dst") (auto simp: controller_message_def res_map_Inr_iff)
  moreover have "control w' = control w" by (rule recv_message_pops [OF assms(3)]) simp
  then have "control v = control (the (ws dst))" using assms(2,4) by (cases "dst = a") auto
  ultimately have "on_way (ws(a \<mapsto> w', dst \<mapsto> v')) x y = on_way ws x y" for x y
    using push(5) [of x y] pop(5) [of x y] dom by simp
  moreover have "dom (ws(a \<mapsto> w', dst \<mapsto> v')) = dom ws" using dom(2) assms(2) by auto
  ultimately show "moves ws (ws(a \<mapsto> w', dst \<mapsto> v'))"
    unfolding moves_def using pop(2,3) push(2,3) by metis
qed

lemma lost_moves:
  assumes "crowd_in S ws" and "ws a = Some w" and "recv_message w = (Inr (dst, msg), w')" and "ws dst = None"
  shows "crowd_in S (ws(a \<mapsto> w'))" and "ids_at (ws(a \<mapsto> w')) = ids_at ws" and "moves ws (ws(a \<mapsto> w'))"
proof -
  note pop = pop_keeps [OF assms(1-3)]
  show "crowd_in S (ws(a \<mapsto> w'))" by (rule pop(1))
  show "ids_at (ws(a \<mapsto> w')) = ids_at ws" by (rule ids_at_update) (use assms(2) pop(4) in simp_all)
  have "on_way (ws(a \<mapsto> w')) x y = on_way ws x y" for x y using pop(5) [of x y] assms(4) by (auto simp: dom_def)
  then show "moves ws (ws(a \<mapsto> w'))" unfolding moves_def using pop(2,3) assms(2) by (simp add: domI insert_absorb)
qed

text \<open>Every step is one of the two.\<close>

lemma many_step_cases:
  assumes "crowd_in S ws" and "many_step ws ws'"
  obtains "crowd_in S ws'" and "ids_at ws' = ids_at ws" and "moves ws ws'"
  | a b m rs w where "crowd_in S ws'" and "ids_at ws' = ids_at ws" and "handles a b m rs ws ws'"
      and "ws b = Some w" and "a \<in> S" and "answers (w_peer_id w) 16 (worker_view w) m rs"
  using assms(2)
proof cases
  case (turn b w w')
  from turn_handles [OF assms(1) turn(2,3)] show ?thesis using turn(1,2) that(2) by blast
next
  case (carried a w dst msg w' v v')
  from carried_moves [OF assms(1) carried(2-5)] show ?thesis using carried(1) that(1) by simp
next
  case (lost a w dst msg w')
  from lost_moves [OF assms(1) lost(2-4)] show ?thesis using lost(1) that(1) by simp
qed

subsection \<open>What a message can still cause\<close>

text \<open>
  The turns and carried messages that the messages on their way to a worker that knows \<open>K\<close> can still
  cause. A \<open>Ping\<close> of an unknown peer is answered by a \<open>Pong\<close> and a \<open>Ping\<close>; the latter arrives after
  the former, so that it is the \<open>Ping\<close> of a known peer.
\<close>

fun cost :: "peer_id set \<Rightarrow> message list \<Rightarrow> nat" where
  "cost K [] = 0"
| "cost K (Ping p # ms) = (if p \<in> K then 3 else 7) + cost K ms"
| "cost K (Pong p # ms) = 1 + cost (insert p K) ms"
| "cost K (FindPeer d # ms) = 3 + cost K ms"
| "cost K (_ # ms) = 1 + cost K ms"

lemma cost_mono: "K \<subseteq> K' \<Longrightarrow> cost K' ms \<le> cost K ms"
proof (induction ms arbitrary: K K')
  case (Cons m ms)
  note IH = Cons.IH [OF Cons.prems]
  have "cost (insert p K') ms \<le> cost (insert p K) ms" for p by (rule Cons.IH) (use Cons.prems in blast)
  with IH show ?case using Cons.prems by (cases m) auto
qed simp

lemma cost_append: "cost K (ms @ ns) \<le> cost K ms + cost {} ns"
  by (induction K ms rule: cost.induct) (simp_all add: cost_mono)

lemma cost_Cons: "K \<subseteq> K' \<Longrightarrow> (\<And>p. m = Pong p \<Longrightarrow> p \<in> K') \<Longrightarrow> cost K [m] + cost K' ms \<le> cost K (m # ms)"
  by (cases m) (auto intro: cost_mono)

lemma cost_le: "cost K ms \<le> 7 * length ms"
  by (induction K ms rule: cost.induct) auto

text \<open>A turn costs more than the messages it sends.\<close>

lemma answers_cost: "answers p 16 v m rs \<Longrightarrow> cost {} rs + length rs < cost (dom v) [m]"
  by (cases m) (auto split: option.splits)

definition potential :: "socket_addr set \<Rightarrow> (socket_addr \<rightharpoonup> worker) \<Rightarrow> nat" where
  "potential S ws = (\<Sum>(x, y) \<in> S \<times> S. cost (knows ws y) (on_way ws x y)) + unsent ws"

lemma handles_cost:
  assumes "handles a b m rs ws ws'"
  shows "cost (knows ws' y) (on_way ws' x y) + (if (x, y) = (a, b) then cost (knows ws b) [m] else 0) \<le>
    cost (knows ws y) (on_way ws x y) + (if (x, y) = (b, a) then cost {} rs else 0)"
proof -
  let ?rs = "if x = b \<and> y = a \<and> a \<in> dom ws then rs else []"
  have flow: "(if x = a \<and> y = b then [m] else []) @ on_way ws' x y = on_way ws x y @ ?rs"
    and grows: "knows ws y \<subseteq> knows ws' y" and pong: "\<And>p. m = Pong p \<Longrightarrow> p \<in> knows ws' b"
    by (rule handlesD [OF assms])+
  have "cost (knows ws y) (on_way ws x y @ ?rs) \<le> cost (knows ws y) (on_way ws x y) + (if (x, y) = (b, a) then cost {} rs else 0)"
    by (simp add: cost_append)
  moreover have "cost (knows ws' y) (on_way ws' x y) + (if (x, y) = (a, b) then cost (knows ws b) [m] else 0) \<le>
      cost (knows ws y) ((if x = a \<and> y = b then [m] else []) @ on_way ws' x y)"
    using cost_mono [OF grows, of "on_way ws' x y"] cost_Cons [OF grows, of m "on_way ws' x y"] pong
    by (cases "x = a \<and> y = b") (auto simp: add.commute simp del: cost.simps)
  ultimately show ?thesis unfolding flow by (rule order_trans [rotated])
qed

lemma potential_step:
  assumes "crowd_in S ws" and "many_step ws ws'"
  shows "potential S ws' < potential S ws"
  using assms
proof (cases rule: many_step_cases)
  case 1
  then have "potential S ws' + 1 = potential S ws" by (simp add: potential_def moves_def)
  then show ?thesis by simp
next
  case (2 a b m rs w)
  let ?D = "S \<times> S" and ?f = "\<lambda>ws (x, y). cost (knows ws y) (on_way ws x y)"
  have fin: "finite ?D" using assms(1) by (simp add: crowd_in_def)
  have h: "(a, b) \<in> ?D" "(b, a) \<in> ?D" "unsent ws' = unsent ws + length rs"
    using handlesD(1,2,6) [OF 2(3)] 2(5) assms(1) by (auto simp: crowd_in_def)
  have "(\<Sum>z \<in> ?D. ?f ws' z + (if z = (a, b) then cost (knows ws b) [m] else 0)) \<le>
      (\<Sum>z \<in> ?D. ?f ws z + (if z = (b, a) then cost {} rs else 0))"
  proof (rule sum_mono)
    show "?f ws' z + (if z = (a, b) then cost (knows ws b) [m] else 0) \<le> ?f ws z + (if z = (b, a) then cost {} rs else 0)" for z
      using handles_cost [OF 2(3), of "snd z" "fst z"] by (cases z) simp
  qed
  then have "sum (?f ws') ?D + cost (knows ws b) [m] \<le> sum (?f ws) ?D + cost {} rs"
    using fin h(1,2) by (simp add: sum.distrib sum.delta)
  moreover have "cost {} rs + length rs < cost (knows ws b) [m]" using answers_cost [OF 2(6)] 2(4) by (simp add: knows_def)
  ultimately show ?thesis by (simp add: potential_def h)
qed

text \<open>At the start: at most seven for a message that is queued, and one more for one to be carried.\<close>

definition queued :: "(socket_addr \<rightharpoonup> worker) \<Rightarrow> nat" where
  "queued ws = (\<Sum>a \<in> dom ws. length (ch_queue (control (the (ws a)))))"

lemma sum_from_src: "finite A \<Longrightarrow> (\<Sum>x \<in> A. length (from_src x cs)) \<le> length cs"
proof (induction cs)
  case (Cons c cs)
  have "length (from_src x (c # cs)) = (case c of Incoming s _ \<Rightarrow> if x = s then 1 else 0 | Quit \<Rightarrow> 0) + length (from_src x cs)" for x
    by (cases c) auto
  moreover have "(\<Sum>x \<in> A. case c of Incoming s _ \<Rightarrow> if x = s then 1 else 0 | Quit \<Rightarrow> 0) \<le> (1 :: nat)"
    using Cons.prems by (cases c) (auto simp: sum.delta)
  ultimately show ?case using Cons by (simp add: sum.distrib)
qed simp

lemma sum_to_dst: "finite A \<Longrightarrow> (\<Sum>y \<in> A. length (to_dst y out)) \<le> length out"
proof (induction out)
  case (Cons d out)
  have "length (to_dst y (d # out)) = (if y = fst d then 1 else 0) + length (to_dst y out)" for y by (cases d) auto
  moreover have "(\<Sum>y \<in> A. if y = fst d then 1 else 0) \<le> (1 :: nat)" using Cons.prems by (simp add: sum.delta)
  ultimately show ?case using Cons by (simp add: sum.distrib)
qed simp

text \<open>What is queued at an address and what is in the outbox there, nothing where nobody is.\<close>

definition queue_at :: "(socket_addr \<rightharpoonup> worker) \<Rightarrow> socket_addr \<Rightarrow> worker_message list" where
  "queue_at ws a = (case ws a of None \<Rightarrow> [] | Some w \<Rightarrow> ch_queue (control w))"

definition sent_at :: "(socket_addr \<rightharpoonup> worker) \<Rightarrow> socket_addr \<Rightarrow> (socket_addr \<times> message) list" where
  "sent_at ws a = (case ws a of None \<Rightarrow> [] | Some w \<Rightarrow> worker_sent w)"

lemma sums_at:
  assumes "crowd_in S ws"
  shows "(\<Sum>a \<in> S. length (queue_at ws a)) = queued ws" and "(\<Sum>a \<in> S. length (sent_at ws a)) = unsent ws"
proof -
  have S: "finite S" "dom ws \<subseteq> S" using assms by (simp_all add: crowd_in_def)
  have none: "ws a = None" if "a \<in> S - dom ws" for a using that by auto
  have "(\<Sum>a \<in> S. length (queue_at ws a)) = (\<Sum>a \<in> dom ws. length (queue_at ws a))"
    by (rule sum.mono_neutral_right [OF S]) (simp add: none queue_at_def)
  then show "(\<Sum>a \<in> S. length (queue_at ws a)) = queued ws" by (auto simp: queued_def queue_at_def intro: sum.cong)
  have "(\<Sum>a \<in> S. length (sent_at ws a)) = (\<Sum>a \<in> dom ws. length (sent_at ws a))"
    by (rule sum.mono_neutral_right [OF S]) (simp add: none sent_at_def)
  then show "(\<Sum>a \<in> S. length (sent_at ws a)) = unsent ws" by (auto simp: unsent_def sent_at_def intro: sum.cong)
qed

lemma on_way_length: "length (on_way ws x y) \<le> length (from_src x (queue_at ws y)) + length (to_dst y (sent_at ws x))"
  by (simp add: on_way_def queue_at_def sent_at_def split: option.split)

lemma potential_le:
  assumes "crowd_in S ws"
  shows "potential S ws \<le> 7 * queued ws + 8 * unsent ws"
proof -
  have fin: "finite S" using assms by (simp add: crowd_in_def)
  have "(\<Sum>(x, y) \<in> S \<times> S. cost (knows ws y) (on_way ws x y)) \<le>
      (\<Sum>(x, y) \<in> S \<times> S. 7 * (length (from_src x (queue_at ws y)) + length (to_dst y (sent_at ws x))))"
  proof (rule sum_mono)
    show "(case z of (x, y) \<Rightarrow> cost (knows ws y) (on_way ws x y)) \<le>
        (case z of (x, y) \<Rightarrow> 7 * (length (from_src x (queue_at ws y)) + length (to_dst y (sent_at ws x))))" for z
      using order_trans [OF cost_le mult_le_mono2 [OF on_way_length]] by (cases z) simp
  qed
  also have "\<dots> = 7 * ((\<Sum>y \<in> S. \<Sum>x \<in> S. length (from_src x (queue_at ws y))) + (\<Sum>x \<in> S. \<Sum>y \<in> S. length (to_dst y (sent_at ws x))))"
    unfolding sum.cartesian_product [symmetric] by (subst (2) sum.swap) (simp add: sum.distrib sum_distrib_left)
  also have "\<dots> \<le> 7 * (queued ws + unsent ws)"
    unfolding sums_at [OF assms, symmetric] by (intro mult_le_mono order_refl add_mono sum_mono sum_from_src sum_to_dst fin)
  finally show ?thesis by (simp add: potential_def)
qed

subsection \<open>What a Ping obliges the workers to\<close>

text \<open>
  The workers at \<open>a\<close> and \<open>b\<close> have the ids \<open>pa\<close> and \<open>pb\<close>, and \<open>b\<close> has sent a \<open>Ping\<close> with the id \<open>q\<close> to \<open>a\<close>.
  \<open>b\<close> knows \<open>pa\<close>, and \<open>a\<close> knows \<open>q\<close> or \<open>pb\<close>, or a message that makes it so is on its way.
\<close>

definition introducing :: "socket_addr \<Rightarrow> socket_addr \<Rightarrow> peer_id \<Rightarrow> peer_id \<Rightarrow> peer_id \<Rightarrow> (socket_addr \<rightharpoonup> worker) \<Rightarrow> bool" where
  "introducing a b pa pb q ws \<longleftrightarrow>
     (pa \<in> knows ws b \<or> Pong pa \<in> set (on_way ws a b) \<or> (\<exists>p. Ping p \<in> set (on_way ws b a))) \<and>
     (q \<in> knows ws a \<or> pb \<in> knows ws a \<or> Pong pb \<in> set (on_way ws b a) \<or> Ping q \<in> set (on_way ws b a) \<or>
      (\<exists>p. Ping p \<in> set (on_way ws a b)))"

text \<open>A \<open>Ping\<close> from a worker is answered by a \<open>Pong\<close>, and by a \<open>Ping\<close> if the peer is not known.\<close>

lemma ping_answered:
  assumes "handles a b (Ping q) rs ws ws'" and "a \<in> dom ws" and "ws b = Some w"
    and "answers (w_peer_id w) 16 (worker_view w) (Ping q) rs"
  shows "Pong (w_peer_id w) \<in> set (on_way ws' b a)" and "q \<in> knows ws' b \<or> Ping (w_peer_id w) \<in> set (on_way ws' b a)"
proof -
  show "Pong (w_peer_id w) \<in> set (on_way ws' b a)" by (rule handles_sends [OF assms(1,2)]) (use assms(4) in simp)
  show "q \<in> knows ws' b \<or> Ping (w_peer_id w) \<in> set (on_way ws' b a)"
  proof (cases "worker_view w q")
    case None
    then show ?thesis using handles_sends [OF assms(1,2)] assms(4) by simp
  next
    case (Some x)
    then show ?thesis using handlesD(4) [OF assms(1), of b] assms(3) by (auto simp: knows_def)
  qed
qed

lemma introducing_handles:
  assumes "introducing a b pa pb q ws" and "handles c d m rs ws ws'" and "ws d = Some w" and "answers (w_peer_id w) 16 (worker_view w) m rs"
    and "ids_at ws a = Some pa" and "ids_at ws b = Some pb"
  shows "introducing a b pa pb q ws'"
proof -
  note leaves = handles_leaves [OF assms(2)] and knows = handlesD(4,5) [OF assms(2)]
  have dom: "a \<in> dom ws" "b \<in> dom ws" using assms(5,6) by (auto simp: ids_at_def)
  have ids: "d = a \<Longrightarrow> w_peer_id w = pa" "d = b \<Longrightarrow> w_peer_id w = pb" using assms(3,5,6) by (auto simp: ids_at_def)
  have ping: "Pong (w_peer_id w) \<in> set (on_way ws' d c)" "p \<in> knows ws' d \<or> Ping (w_peer_id w) \<in> set (on_way ws' d c)"
    if "m = Ping p" "c \<in> dom ws" for p
    using ping_answered [of c d p rs ws ws' w] assms(2-4) that by simp_all
  have "pa \<in> knows ws' b \<or> Pong pa \<in> set (on_way ws' a b) \<or> (\<exists>p. Ping p \<in> set (on_way ws' b a))"
    using assms(1) leaves knows ping(1) ids(1) dom unfolding introducing_def by blast
  moreover have "q \<in> knows ws' a \<or> pb \<in> knows ws' a \<or> Pong pb \<in> set (on_way ws' b a) \<or> Ping q \<in> set (on_way ws' b a) \<or>
      (\<exists>p. Ping p \<in> set (on_way ws' a b))"
    using assms(1) leaves knows ping ids dom unfolding introducing_def by blast
  ultimately show ?thesis by (simp add: introducing_def)
qed

lemma introducing_step:
  assumes "introducing a b pa pb q ws" and "crowd_in S ws" and "many_step ws ws'" and "ids_at ws a = Some pa" and "ids_at ws b = Some pb"
  shows "introducing a b pa pb q ws'"
  using assms(2,3)
proof (cases rule: many_step_cases)
  case 1
  then show ?thesis using assms(1) by (simp add: introducing_def moves_def)
next
  case (2 c d m rs w)
  then show ?thesis using introducing_handles [OF assms(1)] assms(4,5) by blast
qed

text \<open>Nothing can happen only if nothing is on its way.\<close>

lemma many_stuck:
  assumes "crowd_in S ws" and "\<not> (\<exists>ws'. many_step ws ws')" and "ws a = Some w"
  shows "ch_queue (control w) = []" and "worker_sent w = []"
proof -
  have ready: "node_ready v" if "ws x = Some v" for x v using assms(1) that by (auto simp: crowd_in_def)
  show "ch_queue (control w) = []"
  proof (rule ccontr)
    assume "ch_queue (control w) \<noteq> []"
    then obtain c cs where q: "ch_queue (control w) = c # cs" by (cases "ch_queue (control w)") auto
    then have "\<exists>src m. c = Incoming src m" using assms(1,3) by (fastforce simp: crowd_in_def)
    then obtain src m where "ch_queue (control w) = Incoming src m # cs" using q by auto
    then have "\<exists>w'. worker_step w = Some w'" by (rule node_turns [OF ready [OF assms(3)]])
    then show False using assms(2,3) turn by blast
  qed
  show "worker_sent w = []"
  proof (rule ccontr)
    assume "worker_sent w \<noteq> []"
    then obtain dst msg rest where q: "worker_sent w = (dst, msg) # rest" by (cases "worker_sent w") auto
    let ?w = "w\<lparr>outbox := (outbox w)\<lparr>ch_queue := rest\<rparr>\<rparr>"
    have r: "recv_message w = (Inr (dst, msg), ?w)" using q by (simp add: recv_message_def chan_try_recv_def)
    then obtain v where v: "(ws(a \<mapsto> ?w)) dst = Some v" using assms(2,3) lost [of ws a w dst msg ?w] by (cases "dst = a"; cases "ws dst") auto
    then have "node_ready v" using ready assms(3) by (auto simp: node_ready_def split: if_splits)
    then have "\<exists>v'. controller_message a msg v = Inr v'" by (simp add: controller_message_def node_ready_def)
    then show False using assms(2) carried [OF assms(3) r v] by blast
  qed
qed

lemma many_run:
  assumes "(many_step ^^ n) ws ws'" and "crowd_in S ws"
  shows "crowd_in S ws'" and "ids_at ws' = ids_at ws" and "n + potential S ws' \<le> potential S ws"
    and "introducing a b pa pb q ws \<Longrightarrow> ids_at ws a = Some pa \<Longrightarrow> ids_at ws b = Some pb \<Longrightarrow> introducing a b pa pb q ws'"
proof -
  have "crowd_in S ws' \<and> ids_at ws' = ids_at ws \<and> n + potential S ws' \<le> potential S ws \<and>
      (introducing a b pa pb q ws \<and> ids_at ws a = Some pa \<and> ids_at ws b = Some pb \<longrightarrow> introducing a b pa pb q ws')"
    using assms(1)
  proof (induction n arbitrary: ws')
    case (Suc n)
    from Suc.prems obtain ws1 where run: "(many_step ^^ n) ws ws1" "many_step ws1 ws'" by auto
    note IH = Suc.IH [OF run(1)]
    have "crowd_in S ws' \<and> ids_at ws' = ids_at ws1" using IH run(2) by (blast elim: many_step_cases)
    moreover have "potential S ws' < potential S ws1" using potential_step IH run(2) by blast
    ultimately show ?case using IH introducing_step [OF _ _ run(2)] by auto
  qed (use assms(2) in simp)
  then show "crowd_in S ws'" "ids_at ws' = ids_at ws" "n + potential S ws' \<le> potential S ws"
    "introducing a b pa pb q ws \<Longrightarrow> ids_at ws a = Some pa \<Longrightarrow> ids_at ws b = Some pb \<Longrightarrow> introducing a b pa pb q ws'" by blast+
qed

subsection \<open>Properties\<close>

text \<open>
  C9. Any number of introductions at the same time, with bounded traffic. Start finitely many running
  workers, with any messages of the protocol queued, whatever source they name, and any messages in
  their outboxes; none is told to quit. If each message is carried to the worker at its destination
  in the order it was sent, or lost if nobody is there, then in whatever order the threads run and
  the messages are carried, at most seven steps happen for each message queued and eight for each
  message in an outbox at the start, and no thread ends. When nothing is left to do, the channels
  are empty, and for each \<open>Ping\<close> that was queued at or under way to a worker from the address of a
  worker, the worker at the source knows the id of the one that was pinged, and the latter knows
  the id the \<open>Ping\<close> carried or the id of the worker at the source: the two are the same if the \<open>Ping\<close>
  carries the id of its sender, and so both know each other. A \<open>Ping\<close> that carries an id the receiver
  knows already, such as its own, does not teach it who sent it.
\<close>

theorem pings_introduce_all:
  assumes "crowd_ok ws" and "(many_step ^^ n) ws ws'"
  shows "n \<le> 7 * queued ws + 8 * unsent ws \<and> (\<forall>a w'. ws' a = Some w' \<longrightarrow> w_status w' = Running) \<and>
    (\<not> (\<exists>ws''. many_step ws' ws'') \<longrightarrow>
      (\<forall>a w'. ws' a = Some w' \<longrightarrow> ch_queue (control w') = [] \<and> ch_queue (outbox w') = []) \<and>
      (\<forall>a b wa wb q. ws a = Some wa \<and> ws b = Some wb \<and>
          (Incoming b (Ping q) \<in> set (ch_queue (control wa)) \<or> (a, Ping q) \<in> set (ch_queue (outbox wb))) \<longrightarrow>
        w_peer_id wa \<in> knows ws' b \<and> (q \<in> knows ws' a \<or> w_peer_id wb \<in> knows ws' a)))"
proof (intro conjI impI allI)
  define S where "S = dom ws \<union> (\<Union>w \<in> ran ws. sources (ch_queue (control w)))"
  have ok: "crowd_in S ws" unfolding S_def by (rule crowd_in_sources [OF assms(1)])
  note run = many_run [OF assms(2) ok]
  show "n \<le> 7 * queued ws + 8 * unsent ws" using run(3) potential_le [OF ok] by linarith
  show "w_status w' = Running" if "ws' a = Some w'" for a w' using run(1) that by (auto simp: crowd_in_def node_ready_def)
  assume stuck: "\<not> (\<exists>ws''. many_step ws' ws'')"
  note empty = many_stuck [OF run(1) stuck]
  show "ch_queue (control w') = []" "ch_queue (outbox w') = []" if "ws' a = Some w'" for a w'
    using empty [OF that] by simp_all
  show "w_peer_id wa \<in> knows ws' b" "q \<in> knows ws' a \<or> w_peer_id wb \<in> knows ws' a"
    if ping: "ws a = Some wa \<and> ws b = Some wb \<and>
      (Incoming b (Ping q) \<in> set (ch_queue (control wa)) \<or> (a, Ping q) \<in> set (ch_queue (outbox wb)))" for a b wa wb q
  proof -
    have "Ping q \<in> set (on_way ws b a)" using ping by (auto simp: on_way_def from_src_mem to_dst_mem)
    then have "introducing a b (w_peer_id wa) (w_peer_id wb) q ws" by (auto simp: introducing_def)
    then have "introducing a b (w_peer_id wa) (w_peer_id wb) q ws'" using ping by (intro run(4)) (simp_all add: ids_at_def)
    moreover have "on_way ws' x y = []" for x y using empty by (auto simp: on_way_def split: option.split)
    ultimately show "w_peer_id wa \<in> knows ws' b" "q \<in> knows ws' a \<or> w_peer_id wb \<in> knows ws' a" by (simp_all add: introducing_def)
  qed
qed

theorem pings_introduce_all_witness:
  "\<exists>wa wb n ws'. worker_start rev zero_peer (V4 1 2) = Inr wa \<and> worker_start rev (unit_peer 0 128) (V4 3 4) = Inr wb \<and>
     (many_step ^^ n)
       [V4 1 2 \<mapsto> wa\<lparr>control := (control wa)\<lparr>ch_queue := [Incoming (V4 3 4) (Ping (unit_peer 0 128)), Incoming (V4 5 6) (Ping (unit_peer 0 64))]\<rparr>\<rparr>,
        V4 3 4 \<mapsto> wb\<lparr>control := (control wb)\<lparr>ch_queue := [Incoming (V4 1 2) (Ping zero_peer)]\<rparr>\<rparr>] ws' \<and>
     n \<le> 21 \<and> unit_peer 0 128 \<in> knows ws' (V4 1 2) \<and> zero_peer \<in> knows ws' (V4 3 4)"
proof -
  obtain wa where wa: "worker_start rev zero_peer (V4 1 2) = Inr wa" "worker_ok wa" "w_status wa = Running" "w_peer_id wa = zero_peer"
      "control wa = chan_new" "outbox wa = chan_new"
    using worker_start_spec [OF enumerates_rev] by blast
  obtain wb where wb: "worker_start rev (unit_peer 0 128) (V4 3 4) = Inr wb" "worker_ok wb" "w_status wb = Running"
      "w_peer_id wb = unit_peer 0 128" "control wb = chan_new" "outbox wb = chan_new"
    using worker_start_spec [OF enumerates_rev] by blast
  let ?wa = "wa\<lparr>control := (control wa)\<lparr>ch_queue := [Incoming (V4 3 4) (Ping (unit_peer 0 128)), Incoming (V4 5 6) (Ping (unit_peer 0 64))]\<rparr>\<rparr>"
  let ?wb = "wb\<lparr>control := (control wb)\<lparr>ch_queue := [Incoming (V4 1 2) (Ping zero_peer)]\<rparr>\<rparr>"
  let ?ws = "[V4 1 2 \<mapsto> ?wa, V4 3 4 \<mapsto> ?wb]"
  have ok: "crowd_ok ?ws" using wa wb by (auto simp: crowd_ok_def node_ready_def chan_new_def split: if_splits)
  have count: "queued ?ws = 3" "unsent ?ws = 0" using wa wb by (simp_all add: queued_def unsent_def chan_new_def)
  note intro = pings_introduce_all [OF ok]
  obtain n ws' where run: "(many_step ^^ n) ?ws ws'" "\<not> (\<exists>ws''. many_step ws' ws'')"
    using bounded_run_ends [of many_step ?ws 21] intro count by fastforce
  from intro [OF run(1)] run(2) have "n \<le> 21" and known: "\<And>a b wa wb. ?ws a = Some wa \<Longrightarrow> ?ws b = Some wb \<Longrightarrow>
      Incoming b (Ping (w_peer_id wb)) \<in> set (ch_queue (control wa)) \<Longrightarrow> w_peer_id wb \<in> knows ws' a"
    unfolding count by (simp, blast)
  moreover have "unit_peer 0 128 \<in> knows ws' (V4 1 2)" using known [of "V4 1 2" ?wa "V4 3 4" ?wb] wb(4) by simp
  moreover have "zero_peer \<in> knows ws' (V4 3 4)" using known [of "V4 3 4" ?wb "V4 1 2" ?wa] wa(4) by simp
  ultimately show ?thesis using run(1) wa(1) wb(1) by blast
qed

end
