(* ===== verification/Carriers.thy ===== *)
theory Carriers
  imports Handshake
begin

text \<open>
  Any number of workers, and a network that may delay, reorder, repeat and lose their messages, and
  into which anybody may inject any message in the name of any address. Workers join at any time.
  What the workers know of each other is true, except for what an injected \<open>Pong\<close> told them.
\<close>

subsection \<open>The network\<close>

text \<open>
  \<open>soup\<close> holds every message that was ever sent, with its source and its destination; \<open>injected\<close>
  those among them that no worker sent. They may be requests made by whoever runs a worker, or
  forged.
\<close>

record fabric =
  peers_at :: "socket_addr \<rightharpoonup> worker"
  soup :: "(socket_addr \<times> socket_addr \<times> message) set"
  injected :: "(socket_addr \<times> socket_addr \<times> message) set"

definition fabric_init :: "fabric \<Rightarrow> bool" where
  "fabric_init f \<longleftrightarrow> peers_at f = Map.empty \<and> soup f = {} \<and> injected f = {}"

inductive fabric_step :: "fabric \<Rightarrow> fabric \<Rightarrow> bool" where
  joins: "peers_at f a = None \<Longrightarrow> enumerates order \<Longrightarrow> worker_start order p a = Inr w \<Longrightarrow>
    fabric_step f (f\<lparr>peers_at := (peers_at f)(a \<mapsto> w)\<rparr>)"
| takes_turn: "peers_at f a = Some w \<Longrightarrow> worker_step w = Some w' \<Longrightarrow> fabric_step f (f\<lparr>peers_at := (peers_at f)(a \<mapsto> w')\<rparr>)"
| sends: "peers_at f a = Some w \<Longrightarrow> recv_message w = (Inr (dst, msg), w') \<Longrightarrow>
    fabric_step f (f\<lparr>peers_at := (peers_at f)(a \<mapsto> w'), soup := insert (a, dst, msg) (soup f)\<rparr>)"
| injects: "fabric_step f (f\<lparr>soup := insert (src, dst, msg) (soup f), injected := insert (src, dst, msg) (injected f)\<rparr>)"
| arrives: "(src, dst, msg) \<in> soup f \<Longrightarrow> peers_at f dst = Some w \<Longrightarrow> controller_message src msg w = Inr w' \<Longrightarrow>
    fabric_step f (f\<lparr>peers_at := (peers_at f)(dst \<mapsto> w')\<rparr>)"

text \<open>The id of the worker at an address.\<close>

definition residents :: "fabric \<Rightarrow> socket_addr \<rightharpoonup> peer_id" where
  "residents f a = map_option w_peer_id (peers_at f a)"

text \<open>
  With the residents \<open>h\<close> and the injected messages \<open>F\<close>: the worker at \<open>a\<close> has a reason to have the
  address \<open>x\<close> for the id \<open>p\<close>, and the worker at \<open>src\<close> has one to send a message.
\<close>

definition learnt ::
  "(socket_addr \<rightharpoonup> peer_id) \<Rightarrow> (socket_addr \<times> socket_addr \<times> message) set \<Rightarrow> socket_addr \<Rightarrow> peer_id \<Rightarrow> socket_addr \<Rightarrow> bool" where
  "learnt h F a p x \<longleftrightarrow> h x = Some p \<or> (x, a, Pong p) \<in> F"

fun backed :: "(socket_addr \<rightharpoonup> peer_id) \<Rightarrow> (socket_addr \<times> socket_addr \<times> message) set \<Rightarrow> socket_addr \<Rightarrow> message \<Rightarrow> bool" where
  "backed h F src (Ping p) \<longleftrightarrow> h src = Some p"
| "backed h F src (Pong p) \<longleftrightarrow> h src = Some p"
| "backed h F src (FindPeerResponsePeerFound p x) \<longleftrightarrow> learnt h F src p x"
| "backed h F src (FindPeerResponsePeerNotFound p nb) \<longleftrightarrow> (\<forall>(q, x) \<in> set nb. learnt h F src q x)"
| "backed h F src (FindPeer p) \<longleftrightarrow> False"

subsection \<open>What stays true\<close>

lemma map_le_Some: "h \<subseteq>\<^sub>m h' \<Longrightarrow> h x = Some y \<Longrightarrow> h' x = Some y"
  by (metis map_le_def domI)

lemma learnt_mono: "learnt h F a p x \<Longrightarrow> h \<subseteq>\<^sub>m h' \<Longrightarrow> F \<subseteq> F' \<Longrightarrow> learnt h' F' a p x"
  by (auto simp: learnt_def intro: map_le_Some)

lemma backed_mono: "backed h F src msg \<Longrightarrow> h \<subseteq>\<^sub>m h' \<Longrightarrow> F \<subseteq> F' \<Longrightarrow> backed h' F' src msg"
  by (cases msg) (auto intro: map_le_Some learnt_mono)

text \<open>A worker in the network: what it knows, what it has sent and what is queued for it.\<close>

definition node_true :: "(socket_addr \<rightharpoonup> peer_id) \<Rightarrow> (socket_addr \<times> socket_addr \<times> message) set \<Rightarrow> socket_addr \<Rightarrow> worker \<Rightarrow> bool" where
  "node_true h F a w \<longleftrightarrow> node_ready w \<and> h a = Some (w_peer_id w) \<and>
     (\<forall>p x. worker_view w p = Some x \<longrightarrow> learnt h F a p x) \<and>
     (\<forall>(dst, msg) \<in> set (worker_sent w). backed h F a msg) \<and>
     (\<forall>c \<in> set (ch_queue (control w)). \<exists>src msg. c = Incoming src msg \<and> ((src, a, msg) \<in> F \<or> backed h F src msg))"

definition fabric_true :: "fabric \<Rightarrow> bool" where
  "fabric_true f \<longleftrightarrow> (\<forall>a w. peers_at f a = Some w \<longrightarrow> node_true (residents f) (injected f) a w) \<and>
     (\<forall>(src, dst, msg) \<in> soup f. (src, dst, msg) \<in> injected f \<or> backed (residents f) (injected f) src msg)"

lemma node_true_mono:
  assumes "node_true h F a w" and "h \<subseteq>\<^sub>m h'" and "F \<subseteq> F'"
  shows "node_true h' F' a w"
proof -
  have "\<forall>c \<in> set (ch_queue (control w)). \<exists>src msg. c = Incoming src msg \<and> ((src, a, msg) \<in> F' \<or> backed h' F' src msg)"
    using assms(1,3) backed_mono [OF _ assms(2,3)] unfolding node_true_def by (metis subsetD)
  moreover have "h' a = Some (w_peer_id w)" using assms(1) map_le_Some [OF assms(2)] by (auto simp: node_true_def)
  ultimately show ?thesis
    using assms(1) backed_mono [OF _ assms(2,3)] learnt_mono [OF _ assms(2,3)] by (auto simp: node_true_def)
qed

text \<open>What a worker answers is backed by what it knows, and what it learns by the message.\<close>

lemma answers_backed:
  assumes "answers p 16 v m rs" and "\<And>q x. v q = Some x \<Longrightarrow> learnt h F a q x" and "h a = Some p" and "r \<in> set rs"
  shows "backed h F a r"
proof (cases m)
  case (FindPeer d)
  then show ?thesis using assms by (cases "v d") (fastforce)+
qed (use assms in \<open>auto split: if_splits\<close>)

lemma learns_learnt:
  assumes "learns (src, m) v p = Some x" and "\<And>q x. v q = Some x \<Longrightarrow> learnt h F a q x"
    and "(src, a, m) \<in> F \<or> backed h F src m"
  shows "learnt h F a p x"
  using learns_origin [OF assms(1)] assms(2,3) by (auto simp: learnt_def)

lemma node_true_turn:
  assumes "node_true h F a w" and "worker_step w = Some w'"
  shows "node_true h F a w'" and "w_peer_id w' = w_peer_id w"
proof -
  have "node_ready w" "Quit \<notin> set (ch_queue (control w))" using assms(1) by (auto simp: node_true_def)
  from turn_message [OF assms(2) this] obtain src m rest rs where turn: "ch_queue (control w) = Incoming src m # rest"
      "ch_queue (control w') = rest" "worker_sent w' = worker_sent w @ map (Pair src) rs"
      "answers (w_peer_id w) 16 (worker_view w) m rs" "worker_view w' = learns (src, m) (worker_view w)"
      "node_ready w'" "w_peer_id w' = w_peer_id w" .
  show "w_peer_id w' = w_peer_id w" by (fact turn(7))
  have known: "\<And>q x. worker_view w q = Some x \<Longrightarrow> learnt h F a q x" and id: "h a = Some (w_peer_id w)"
    and why: "(src, a, m) \<in> F \<or> backed h F src m"
    using assms(1) turn(1) by (auto simp: node_true_def)
  have "backed h F a r" if "r \<in> set rs" for r by (rule answers_backed [OF turn(4) known id that])
  moreover have "learnt h F a p x" if "worker_view w' p = Some x" for p x
    using learns_learnt [OF _ known why] that unfolding turn(5) by blast
  ultimately show "node_true h F a w'" using assms(1) turn by (auto simp: node_true_def)
qed

lemma node_true_sends:
  assumes "node_true h F a w" and "recv_message w = (Inr (dst, msg), w')"
  shows "node_true h F a w'" and "w_peer_id w' = w_peer_id w" and "backed h F a msg"
proof -
  from assms(2) obtain rest where "worker_sent w = (dst, msg) # rest" "w' = w\<lparr>outbox := (outbox w)\<lparr>ch_queue := rest\<rparr>\<rparr>"
    by (auto simp: recv_message_def chan_try_recv_Inr split: prod.splits)
  then show "node_true h F a w'" "w_peer_id w' = w_peer_id w" "backed h F a msg"
    using assms(1) by (auto simp: node_true_def node_ready_def)
qed

lemma node_true_arrives:
  assumes "node_true h F a w" and "controller_message src msg w = Inr w'" and "(src, a, msg) \<in> F \<or> backed h F src msg"
  shows "node_true h F a w'" and "w_peer_id w' = w_peer_id w"
proof -
  have w': "w' = w\<lparr>control := (control w)\<lparr>ch_queue := ch_queue (control w) @ [Incoming src msg]\<rparr>\<rparr>"
    using assms(1,2) by (simp add: controller_message_def node_true_def node_ready_def)
  show "w_peer_id w' = w_peer_id w" by (simp add: w')
  show "node_true h F a w'" using assms(1,3) by (auto simp: node_true_def node_ready_def w')
qed

lemma residents_update [simp]:
  "residents (f\<lparr>soup := s\<rparr>) = residents f" "residents (f\<lparr>soup := s, injected := i\<rparr>) = residents f"
  "peers_at f a = Some w \<Longrightarrow> w_peer_id w' = w_peer_id w \<Longrightarrow> residents (f\<lparr>peers_at := (peers_at f)(a \<mapsto> w')\<rparr>) = residents f"
  "peers_at f a = Some w \<Longrightarrow> w_peer_id w' = w_peer_id w \<Longrightarrow> residents (f\<lparr>peers_at := (peers_at f)(a \<mapsto> w'), soup := s\<rparr>) = residents f"
  by (auto simp: residents_def)

lemma residents_join: "peers_at f a = None \<Longrightarrow> residents f \<subseteq>\<^sub>m residents (f\<lparr>peers_at := (peers_at f)(a \<mapsto> w)\<rparr>)"
  by (auto simp: residents_def map_le_def)

lemma fabric_true_step:
  assumes "fabric_true f" and "fabric_step f f'"
  shows "fabric_true f'"
  using assms(2)
proof cases
  case (joins a order p w)
  let ?h = "residents f'"
  have le: "residents f \<subseteq>\<^sub>m ?h" using residents_join [OF joins(2)] joins(1) by simp
  from worker_start_spec [OF joins(3), of p a] joins(4) have
    w: "worker_ok w" "w_status w = Running" "w_peer_id w = p" "worker_view w = [p \<mapsto> a]" "control w = chan_new" "outbox w = chan_new" by auto
  have "node_true ?h (injected f) a w"
    using w joins(1) by (auto simp: node_true_def node_ready_def learnt_def chan_new_def residents_def)
  then show ?thesis
    using assms(1) node_true_mono [OF _ le order_refl] backed_mono [OF _ le order_refl] joins(1)
    unfolding fabric_true_def by (fastforce split: if_splits)
next
  case (takes_turn a w w')
  then have "node_true (residents f) (injected f) a w" using assms(1) by (simp add: fabric_true_def)
  from node_true_turn [OF this takes_turn(3)] show ?thesis
    using assms(1) takes_turn(1,2) by (auto simp: fabric_true_def)
next
  case (sends a w dst msg w')
  then have "node_true (residents f) (injected f) a w" using assms(1) by (simp add: fabric_true_def)
  from node_true_sends [OF this sends(3)] show ?thesis
    using assms(1) sends(1,2) by (auto simp: fabric_true_def)
next
  case (injects src dst msg)
  have sub: "injected f \<subseteq> injected f'" using injects by auto
  then show ?thesis
    using assms(1) injects node_true_mono [OF _ map_le_refl sub] backed_mono [OF _ map_le_refl sub]
    unfolding fabric_true_def by fastforce
next
  case (arrives src dst msg w w')
  then have "node_true (residents f) (injected f) dst w"
    "(src, dst, msg) \<in> injected f \<or> backed (residents f) (injected f) src msg" using assms(1) by (auto simp: fabric_true_def)
  from node_true_arrives [OF this(1) arrives(4) this(2)] show ?thesis
    using assms(1) arrives(1,3) by (auto simp: fabric_true_def)
qed

interpretation fabric: inductive_invariant fabric_init fabric_step fabric_true
  by unfold_locales (simp add: fabric_init_def fabric_true_def, rule fabric_true_step)

subsection \<open>A run with a forged message\<close>

lemma controller_message_ready:
  "node_ready w \<Longrightarrow> controller_message src msg w = Inr (w\<lparr>control := (control w)\<lparr>ch_queue := ch_queue (control w) @ [Incoming src msg]\<rparr>\<rparr>)"
  by (simp add: controller_message_def node_ready_def)

text \<open>A worker at \<open>a\<close> alone in the network; somebody pings it from \<open>x\<close> and forges a \<open>Pong\<close> from there.\<close>

lemma forged_run:
  assumes "p \<noteq> q" and "x \<noteq> a"
  shows "\<exists>f w. reach fabric_init fabric_step f \<and> peers_at f = [a \<mapsto> w] \<and> w_peer_id w = p \<and> worker_view w q = Some x \<and>
    (a, x, Pong p) \<in> soup f \<and> injected f = {(x, a, Ping q), (x, a, Pong q)}"
proof -
  obtain w0 where w0: "worker_start rev p a = Inr w0" "worker_view w0 = [p \<mapsto> a]" "w_peer_id w0 = p" "worker_ok w0" "w_status w0 = Running"
      "control w0 = chan_new" "outbox w0 = chan_new"
    using worker_start_spec [OF enumerates_rev] by blast
  let ?I = "{(x, a, Ping q), (x, a, Pong q)}"
  define w1 where "w1 = w0\<lparr>control := (control w0)\<lparr>ch_queue := [Incoming x (Ping q)]\<rparr>\<rparr>"
  define w2 where "w2 = w0\<lparr>control := (control w0)\<lparr>ch_queue := [Incoming x (Ping q), Incoming x (Pong q)]\<rparr>\<rparr>"
  have ready: "node_ready w0" "node_ready w1" "node_ready w2" using w0 by (simp_all add: node_ready_def chan_new_def w1_def w2_def)
  have msgs: "controller_message x (Ping q) w0 = Inr w1" "controller_message x (Pong q) w1 = Inr w2"
    using controller_message_ready [OF ready(1)] controller_message_ready [OF ready(2)] w0(6) by (simp_all add: w1_def w2_def chan_new_def)
  obtain w3 where turn3: "worker_step w2 = Some w3" using node_turns [OF ready(3)] by (force simp: w2_def)
  have w3: "ch_queue (control w3) = [Incoming x (Pong q)]" "worker_sent w3 = [(x, Pong p), (x, Ping p)]" "node_ready w3" "w_peer_id w3 = p"
    by (rule turn_message [OF turn3 ready(3)]; use assms(1) w0 in \<open>simp add: w2_def chan_new_def\<close>)+
  obtain w4 where turn4: "worker_step w3 = Some w4" using node_turns [OF w3(3,1)] by blast
  have w4: "worker_sent w4 = [(x, Pong p), (x, Ping p)]" "worker_view w4 q = Some x" "w_peer_id w4 = p"
    by (rule turn_message [OF turn4 w3(3)]; use w3 in simp)+
  obtain w5 where w5: "recv_message w4 = (Inr (x, Pong p), w5)" "worker_view w5 q = Some x" "w_peer_id w5 = p"
    using w4 by (simp add: recv_message_def chan_try_recv_def)
  let ?f = "\<lambda>w S I. \<lparr>peers_at = [a \<mapsto> w], soup = S, injected = I\<rparr>"
  have "reach fabric_init fabric_step \<lparr>peers_at = Map.empty, soup = {}, injected = {}\<rparr>"
    by (rule reach_init) (simp add: fabric_init_def)
  from reach_step [OF this joins [of _ a rev p w0]] have "reach fabric_init fabric_step (?f w0 {} {})"
    using w0(1) enumerates_rev by simp
  from reach_step [OF this injects [of _ x a "Pong q"]] have "reach fabric_init fabric_step (?f w0 {(x, a, Pong q)} {(x, a, Pong q)})"
    by simp
  from reach_step [OF this injects [of _ x a "Ping q"]] have "reach fabric_init fabric_step (?f w0 ?I ?I)" by simp
  from reach_step [OF this arrives [of x a "Ping q" _ w0 w1]] have "reach fabric_init fabric_step (?f w1 ?I ?I)" using msgs by simp
  from reach_step [OF this arrives [of x a "Pong q" _ w1 w2]] have "reach fabric_init fabric_step (?f w2 ?I ?I)" using msgs by simp
  from reach_step [OF this takes_turn [of _ a w2 w3]] have "reach fabric_init fabric_step (?f w3 ?I ?I)" using turn3 by simp
  from reach_step [OF this takes_turn [of _ a w3 w4]] have "reach fabric_init fabric_step (?f w4 ?I ?I)" using turn4 by simp
  from reach_step [OF this sends [of _ a w4 x "Pong p" w5]] have "reach fabric_init fabric_step (?f w5 (insert (a, x, Pong p) ?I) ?I)"
    using w5 by simp
  then show ?thesis using w5 by (intro exI [of _ "?f w5 (insert (a, x, Pong p) ?I) ?I"] exI [of _ w5]) simp
qed

subsection \<open>Properties\<close>

text \<open>
  C10. What a worker knows wrongly was forged, over any network: however many workers join, in
  whatever order their threads run, whatever the network delays, reorders, repeats or loses, and
  whatever messages are injected in the name of any address, every worker keeps running, and an
  address it has for an id is the address of a worker with that id, unless a \<open>Pong\<close> with that id was
  injected to it in the name of that address. Every message it has sent carries its own id, or in
  a reply to \<open>FindPeer\<close> only addresses it has for such a reason.
\<close>

theorem fabric_knowledge_genuine:
  assumes "reach fabric_init fabric_step f" and "peers_at f a = Some w"
  shows "w_status w = Running \<and>
    (\<forall>p x. worker_view w p = Some x \<longrightarrow> (\<exists>w'. peers_at f x = Some w' \<and> w_peer_id w' = p) \<or> (x, a, Pong p) \<in> injected f) \<and>
    (\<forall>dst msg. (a, dst, msg) \<in> soup f - injected f \<longrightarrow>
      backed (\<lambda>x. map_option w_peer_id (peers_at f x)) (injected f) a msg)"
proof -
  have true: "fabric_true f" by (rule fabric.inv_reachable [OF assms(1)])
  have res: "(\<lambda>x. map_option w_peer_id (peers_at f x)) = residents f" by (simp add: residents_def [abs_def])
  from true assms(2) have "node_true (residents f) (injected f) a w" by (simp add: fabric_true_def)
  then have "w_status w = Running" "\<And>p x. worker_view w p = Some x \<Longrightarrow> learnt (residents f) (injected f) a p x"
    by (simp_all add: node_true_def node_ready_def)
  moreover have "backed (residents f) (injected f) a msg" if "(a, dst, msg) \<in> soup f - injected f" for dst msg
    using true that by (auto simp: fabric_true_def)
  ultimately show ?thesis unfolding res by (auto simp: learnt_def residents_def)
qed

theorem fabric_knowledge_genuine_witness:
  "\<exists>f w. reach fabric_init fabric_step f \<and> peers_at f (V4 1 2) = Some w \<and> w_status w = Running \<and>
     worker_view w (unit_peer 0 128) = Some (V4 3 4) \<and> peers_at f (V4 3 4) = None \<and>
     (V4 3 4, V4 1 2, Pong (unit_peer 0 128)) \<in> injected f \<and>
     (V4 1 2, V4 3 4, Pong zero_peer) \<in> soup f \<and> map_option w_peer_id (peers_at f (V4 1 2)) = Some zero_peer"
proof -
  have "unit_peer 0 128 \<noteq> zero_peer" by (rule unit_peer_not_zero) simp_all
  then obtain f w where f: "reach fabric_init fabric_step f" "peers_at f = [V4 1 2 \<mapsto> w]" "worker_view w (unit_peer 0 128) = Some (V4 3 4)"
      "(V4 1 2, V4 3 4, Pong zero_peer) \<in> soup f"
      "injected f = {(V4 3 4, V4 1 2, Ping (unit_peer 0 128)), (V4 3 4, V4 1 2, Pong (unit_peer 0 128))}"
    using forged_run [of zero_peer "unit_peer 0 128" "V4 3 4" "V4 1 2"] by auto
  have "(V4 1 2, V4 3 4, Pong zero_peer) \<in> soup f - injected f" using f(4,5) by simp
  then have "map_option w_peer_id (peers_at f (V4 1 2)) = Some zero_peer" "w_status w = Running"
      "(V4 3 4, V4 1 2, Pong (unit_peer 0 128)) \<in> injected f"
    using fabric_knowledge_genuine [OF f(1), of "V4 1 2" w] f(2,3) by fastforce+
  then show ?thesis using f(1-4) by (intro exI [of _ f] exI [of _ w]) simp
qed

end
