(* ===== verification/Old_Peer.thy ===== *)
theory Old_Peer
  imports Peer_Setup
begin

text \<open>
  The model of \<open>src/src/peer.rs\<close>, the first version of the peer: a routing table that is one sorted
  bucket, the handling of messages on the shared state, and the exchange of messages on a stream.
  The module is no longer compiled. The streams and the serialisation are arguments; what the peer
  does with connections is in \<open>Old_Peer_Net\<close>.
\<close>

subsection \<open>The data\<close>

record contact_info =
  ci_peer_id :: peer_id
  ci_address :: socket_addr

definition ci_cmp :: "contact_info \<Rightarrow> contact_info \<Rightarrow> ordering" where
  "ci_cmp a b = peer_id_cmp (ci_peer_id a) (ci_peer_id b)"

definition ci_partial_cmp :: "contact_info \<Rightarrow> contact_info \<Rightarrow> ordering option" where
  "ci_partial_cmp a b = Some (ci_cmp a b)"

datatype old_message =
    Old_Ping peer_id
  | Old_Pong peer_id
  | Old_FindPeer peer_id
  | Old_PeerFound contact_info
  | Old_PeerNotFound peer_id "contact_info list"

record old_bucket =
  ob_known_peers :: "contact_info list"
  address_range :: "u32 \<times> u32"

text \<open>The capacity \<open>Bucket::new\<close> reserves does not limit the vector.\<close>

definition old_bucket_new :: "nat \<Rightarrow> u32 \<Rightarrow> u32 \<Rightarrow> old_bucket outcome" where
  "old_bucket_new bucket_sz min_address max_address =
     (if min_address < max_address then Inr \<lparr>ob_known_peers = [], address_range = (min_address, max_address)\<rparr>
      else Inl (Assertion ''min_address < max_address''))"

record old_peer_map =
  om_buckets :: "old_bucket list"
  om_bucket_size :: nat

definition old_map_new :: "old_peer_map outcome" where
  "old_map_new =
     (let bucket_sz = 8 in
      res_map (\<lambda>initial_bucket. \<lparr>om_buckets = [initial_bucket], om_bucket_size = bucket_sz\<rparr>)
        (old_bucket_new bucket_sz 0 (word_of_nat max_power)))"

text \<open>\<open>Iterator::position\<close>.\<close>

fun position :: "('a \<Rightarrow> bool) \<Rightarrow> 'a list \<Rightarrow> nat option" where
  "position P [] = None"
| "position P (x # xs) = (if P x then Some 0 else map_option Suc (position P xs))"

definition old_insert :: "contact_info \<Rightarrow> old_peer_map \<Rightarrow> old_peer_map outcome" where
  "old_insert new_peer m =
     res_bind (vec_get (om_buckets m) 0) (\<lambda>b.
     let peers = ob_known_peers b;
         peers' = (case position (\<lambda>ci. ci_peer_id ci = ci_peer_id new_peer) peers of
             Some i \<Rightarrow> peers[i := (peers ! i)\<lparr>ci_peer_id := ci_peer_id new_peer\<rparr>]
           | None \<Rightarrow> sort_key ci_peer_id (peers @ [new_peer]))
     in res_map (\<lambda>bs. m\<lparr>om_buckets := bs\<rparr>) (vec_set (om_buckets m) 0 (b\<lparr>ob_known_peers := peers'\<rparr>)))"

definition old_lookup :: "old_peer_map \<Rightarrow> peer_id \<Rightarrow> contact_info list + contact_info" where
  "old_lookup m p = Inl []"

record peer_shared_state =
  ps_id :: peer_id
  ps_peermap :: old_peer_map

text \<open>
  \<open>Peer\<close>, without its runtime, whose tasks are in \<open>Old_Peer_Net\<close>; \<open>runtime\<close> is the result of
  \<open>Runtime::new\<close>.
\<close>

record 'url old_peer =
  op_options :: "'url peer_opt"
  op_shared :: peer_shared_state

definition old_peer_new :: "(u8 list \<Rightarrow> u8 list) \<Rightarrow> 'x + unit \<Rightarrow> 'url peer_opt \<Rightarrow> 'url old_peer outcome" where
  "old_peer_new blake2s runtime options =
     res_bind (hash_new blake2s (replicate 64 0)) (\<lambda>h.
     res_bind old_map_new (\<lambda>m.
     let shared_state = \<lparr>ps_id = PeerId h, ps_peermap = m\<rparr> in
     res_map (\<lambda>_. \<lparr>op_options = options, op_shared = shared_state\<rparr>) (expect ''Could not create runtime'' runtime)))"

subsection \<open>Messages\<close>

text \<open>\<open>send_to_peer\<close> has an empty body.\<close>

definition send_to_peer :: "peer_id \<Rightarrow> old_message \<Rightarrow> peer_shared_state \<Rightarrow> peer_shared_state" where
  "send_to_peer p msg st = st"

fun handle_message_from :: "socket_addr \<Rightarrow> old_message \<Rightarrow> peer_shared_state \<Rightarrow> peer_shared_state outcome" where
  "handle_message_from addr (Old_Ping p) st = Inr (send_to_peer p (Old_Pong (ps_id st)) st)"
| "handle_message_from addr (Old_Pong p) st =
     res_map (\<lambda>m. st\<lparr>ps_peermap := m\<rparr>) (old_insert \<lparr>ci_peer_id = p, ci_address = addr\<rparr> (ps_peermap st))"
| "handle_message_from addr (Old_FindPeer p) st =
     (let resp = (case old_lookup (ps_peermap st) p of
          Inr contact \<Rightarrow> Old_PeerFound contact
        | Inl neighbors \<Rightarrow> Old_PeerNotFound p neighbors)
      in Inr (send_to_peer p resp st))"
| "handle_message_from addr (Old_PeerFound contact) st =
     Inr (send_to_peer (ci_peer_id contact) (Old_Ping (ps_id st)) st)"
| "handle_message_from addr (Old_PeerNotFound p neighbors) st =
     Inr (fold (\<lambda>neighbor. send_to_peer (ci_peer_id neighbor) (Old_FindPeer p)) neighbors st)"

text \<open>\<open>rmp_serde\<close> as an argument.\<close>

record 'x codec =
  to_vec :: "old_message \<Rightarrow> 'x + u8 list"
  from_slice :: "u8 list \<Rightarrow> 'x + old_message"

definition send_message :: "'x codec \<Rightarrow> ('s, 'e) stream_io \<Rightarrow> old_message \<Rightarrow> 's \<Rightarrow> (unit + 's) outcome" where
  "send_message c io msg s =
     res_bind (expect ''Could not serialize message?!'' (to_vec c msg)) (\<lambda>serialized.
     res_bind (expect ''Could not deserialize message?!'' (from_slice c serialized)) (\<lambda>de.
     if msg \<noteq> de then Inl (Assertion ''message == de'')
     else Inr (map_err (\<lambda>_. ()) (res_bind (io_write_all io serialized s) (io_finish io)))))"

definition receive_message :: "'x codec \<Rightarrow> ('s, 'e) stream_io \<Rightarrow> 's \<Rightarrow> (unit + 's) outcome" where
  "receive_message c io s =
     (case io_read_to_end io (1024 * 64) s of
        Inl _ \<Rightarrow> Inr (Inl ())
      | Inr (req, s) \<Rightarrow>
          res_map (\<lambda>next. res_bind next (\<lambda>s. map_err (\<lambda>_. ()) (io_finish io s)))
            (case from_slice c req of
               Inr (Old_Ping p) \<Rightarrow>
                 res_map (\<lambda>to_send. map_err (\<lambda>_. ()) (io_write_all io to_send s))
                   (expect ''Could not serialize message; should never happen!'' (to_vec c (Old_Pong p)))
             | Inr _ \<Rightarrow> Inr (Inr s)
             | Inl _ \<Rightarrow> Inr (Inr s)))"

subsection \<open>The table\<close>

text \<open>One bucket, sorted by id, with no id twice; what it knows.\<close>

definition old_wf :: "old_peer_map \<Rightarrow> bool" where
  "old_wf m \<longleftrightarrow> (\<exists>b. om_buckets m = [b] \<and> sorted (map ci_peer_id (ob_known_peers b)) \<and>
     distinct (map ci_peer_id (ob_known_peers b)))"

definition old_pairs :: "old_bucket \<Rightarrow> (peer_id \<times> socket_addr) list" where
  "old_pairs b = map (\<lambda>ci. (ci_peer_id ci, ci_address ci)) (ob_known_peers b)"

definition old_view :: "old_peer_map \<Rightarrow> peer_id \<rightharpoonup> socket_addr" where
  "old_view m = map_of (old_pairs (hd (om_buckets m)))"

lemma position_None: "position P xs = None \<longleftrightarrow> (\<forall>x \<in> set xs. \<not> P x)"
  by (induction xs) auto

lemma position_Some: "position P xs = Some i \<Longrightarrow> i < length xs \<and> P (xs ! i)"
  by (induction xs arbitrary: i) (auto split: if_splits)

lemma map_of_snoc_new: "k \<notin> fst ` set al \<Longrightarrow> map_of (al @ [(k, v)]) = (map_of al)(k \<mapsto> v)"
  by (induction al) (auto simp: fun_upd_twist)

lemma old_map_new_ok: "\<exists>m. old_map_new = Inr m \<and> old_wf m \<and> old_view m = Map.empty"
  by (simp add: old_map_new_def old_bucket_new_def old_wf_def old_view_def old_pairs_def)

lemma old_insert_spec:
  assumes "old_wf m"
  shows "\<exists>m'. old_insert c m = Inr m' \<and> old_wf m' \<and>
    (if old_view m (ci_peer_id c) = None then old_view m' = (old_view m)(ci_peer_id c \<mapsto> ci_address c) else m' = m)"
proof -
  from assms obtain b where b: "om_buckets m = [b]" "sorted (map ci_peer_id (ob_known_peers b))"
      "distinct (map ci_peer_id (ob_known_peers b))" by (auto simp: old_wf_def)
  let ?ps = "ob_known_peers b" and ?id = "\<lambda>ci. ci_peer_id ci = ci_peer_id c"
  have known: "old_view m (ci_peer_id c) = None \<longleftrightarrow> ci_peer_id c \<notin> ci_peer_id ` set ?ps"
    by (simp add: old_view_def old_pairs_def b(1) map_of_eq_None_iff image_image)
  show ?thesis
  proof (cases "position ?id ?ps")
    case None
    let ?qs = "sort_key ci_peer_id (?ps @ [c])" and ?pair = "\<lambda>ci. (ci_peer_id ci, ci_address ci)"
    let ?m = "m\<lparr>om_buckets := [b\<lparr>ob_known_peers := ?qs\<rparr>]\<rparr>"
    have new: "ci_peer_id c \<notin> ci_peer_id ` set ?ps" using None by (auto simp: position_None)
    have dist: "distinct (map ci_peer_id (?ps @ [c]))" using new b(3) by simp
    moreover have "mset (map ci_peer_id ?qs) = mset (map ci_peer_id (?ps @ [c]))" by simp
    ultimately have dist': "distinct (map ci_peer_id ?qs)" by (metis mset_eq_imp_distinct_iff)
    have keys: "map fst (map ?pair xs) = map ci_peer_id xs" for xs by simp
    have "map_of (map ?pair ?qs) = map_of (map ?pair (?ps @ [c]))"
      by (rule map_of_inject_set [THEN iffD2]) (use dist dist' in \<open>simp_all add: keys comp_def\<close>)
    also have "\<dots> = (map_of (map ?pair ?ps))(ci_peer_id c \<mapsto> ci_address c)"
      using map_of_snoc_new [of "ci_peer_id c" "map ?pair ?ps"] new by (simp add: image_image)
    finally have "old_view ?m = (old_view m)(ci_peer_id c \<mapsto> ci_address c)"
      by (simp add: old_view_def old_pairs_def b(1))
    moreover have "old_insert c m = Inr ?m" using None by (simp add: old_insert_def b(1) Let_def)
    moreover have "old_wf ?m" using dist' by (simp add: old_wf_def)
    ultimately show ?thesis using known new by auto
  next
    case (Some i)
    then have i: "i < length ?ps" "ci_peer_id (?ps ! i) = ci_peer_id c" using position_Some by force+
    then have same: "?ps[i := (?ps ! i)\<lparr>ci_peer_id := ci_peer_id c\<rparr>] = ?ps"
      by (metis (no_types, lifting) contact_info.surjective contact_info.update_convs(1) list_update_id)
    have "old_insert c m = Inr m"
      using Some b(1) by (cases m) (simp add: old_insert_def Let_def same)
    moreover have "ci_peer_id c \<in> ci_peer_id ` set ?ps" using i by (metis image_eqI nth_mem)
    ultimately show ?thesis using known assms by auto
  qed
qed

lemma send_to_peers [simp]: "fold (\<lambda>neighbor. send_to_peer (f neighbor) msg) ns st = st"
  by (induction ns) (simp_all add: send_to_peer_def)

subsection \<open>Properties\<close>

text \<open>
  C37. The sorted table: handling a message never panics on a well-formed table and keeps it sorted
  by id without duplicates. Only a \<open>Pong\<close> from an unknown peer changes the table, by exactly that
  peer; a \<open>Pong\<close> from a known peer at another address leaves the old address in place.
\<close>

theorem old_handle_message_spec:
  assumes "old_wf (ps_peermap st)"
  shows "\<exists>st'. handle_message_from addr msg st = Inr st' \<and> old_wf (ps_peermap st') \<and> ps_id st' = ps_id st \<and>
    (case msg of
       Old_Pong p \<Rightarrow>
         (if old_view (ps_peermap st) p = None then old_view (ps_peermap st') = (old_view (ps_peermap st))(p \<mapsto> addr)
          else st' = st)
     | _ \<Rightarrow> st' = st)"
proof (cases msg)
  case (Old_Pong p)
  show ?thesis using old_insert_spec [OF assms, of "\<lparr>ci_peer_id = p, ci_address = addr\<rparr>"] by (auto simp: Old_Pong)
qed (use assms in \<open>simp_all add: send_to_peer_def Let_def\<close>)

theorem old_handle_message_spec_witness:
  "\<exists>m st1 st2. old_map_new = Inr m \<and>
     handle_message_from (V4 1 2) (Old_Pong (unit_peer 0 128)) \<lparr>ps_id = zero_peer, ps_peermap = m\<rparr> = Inr st1 \<and>
     handle_message_from (V4 3 4) (Old_Pong (unit_peer 0 128)) st1 = Inr st2 \<and>
     old_view (ps_peermap st2) = [unit_peer 0 128 \<mapsto> V4 1 2]"
proof -
  let ?p = "unit_peer 0 128"
  obtain m where m: "old_map_new = Inr m" "old_wf m" "old_view m = Map.empty" using old_map_new_ok by blast
  from old_handle_message_spec [of "\<lparr>ps_id = zero_peer, ps_peermap = m\<rparr>" "V4 1 2" "Old_Pong ?p"] m obtain st1 where
    st1: "handle_message_from (V4 1 2) (Old_Pong ?p) \<lparr>ps_id = zero_peer, ps_peermap = m\<rparr> = Inr st1"
      "old_wf (ps_peermap st1)" "old_view (ps_peermap st1) = [?p \<mapsto> V4 1 2]" by auto
  from old_handle_message_spec [OF st1(2), of "V4 3 4" "Old_Pong ?p"] st1(3) show ?thesis using m(1) st1 by auto
qed

text \<open>
  A \<open>Ping\<close> received on a stream, at most 64 KiB as serialised: the peer writes the serialised
  \<open>Pong\<close> that carries the id of the \<open>Ping\<close> itself, whatever the peer's own id is, and finishes the
  stream.
\<close>

theorem receive_message_echoes_id:
  assumes "stream_laws io v" and "\<not> finished v s" and "length (incoming v s) \<le> 65536"
    and "from_slice c (incoming v s) = Inr (Old_Ping p)" and "to_vec c (Old_Pong p) = Inr bs"
  shows "\<exists>s'. receive_message c io s = Inr (Inr s') \<and> finished v s' \<and> written v s' = written v s @ bs"
proof -
  from stream_read [OF assms(1,3)] obtain s1 where
    s1: "io_read_to_end io 65536 s = Inr (incoming v s, s1)" "written v s1 = written v s" "finished v s1 = finished v s" by auto
  from stream_write [OF assms(1), of s1 bs] assms(2) s1(3) obtain s2 where
    s2: "io_write_all io bs s1 = Inr s2" "written v s2 = written v s1 @ bs" by auto
  from stream_finish [OF assms(1), of s2] obtain s3 where "io_finish io s2 = Inr s3" "written v s3 = written v s2" "finished v s3" by auto
  then show ?thesis using s1 s2 assms(4,5) by (simp add: receive_message_def)
qed

text \<open>A serialisation of two messages, for the witness.\<close>

definition sample_codec :: "peer_id \<Rightarrow> unit codec" where
  "sample_codec p = \<lparr>to_vec = (\<lambda>m. if m = Old_Ping p then Inr [1] else if m = Old_Pong p then Inr [2] else Inl ()),
     from_slice = (\<lambda>bs. if bs = [1] then Inr (Old_Ping p) else if bs = [2] then Inr (Old_Pong p) else Inl ())\<rparr>"

theorem receive_message_echoes_id_witness:
  "\<exists>s'. receive_message (sample_codec zero_peer) pipe_io \<lparr>p_in = [1], p_out = [], p_fin = False\<rparr> = Inr (Inr s') \<and>
     p_fin s' \<and> p_out s' = [2]"
  using receive_message_echoes_id [OF pipe_laws, of "\<lparr>p_in = [1], p_out = [], p_fin = False\<rparr>" "sample_codec zero_peer" zero_peer "[2]"]
  by (auto simp: pipe_view_def sample_codec_def)

end
