(* ===== verification/Old_Peer_Net.thy ===== *)
theory Old_Peer_Net
  imports Old_Peer
begin

text \<open>
  The network side of \<open>src/src/peer.rs\<close>: the exchange with another peer over a connection, the
  loop that accepts connections, and the start of the peer. The QUIC library, the file system and
  the resolution of addresses are arguments.
\<close>

subsection \<open>Talking to a peer\<close>

text \<open>
  The state of \<open>talk_to_peer\<close>: the connection while its ping is not sent, the streams to come while
  the loop over them runs, the streams a ping was sent on and those a message was received on.
\<close>

record ('s, 'c, 'x) talk =
  tk_out :: "'c option"
  tk_in :: "('x + 's new_stream) list option"
  tk_sent :: "'s list"
  tk_received :: "'s list"

text \<open>
  The two futures that are joined: \<open>outgoing_stream\<close> opens a stream and sends a ping on it,
  \<open>incoming_streams\<close> receives a message on one stream after the other.
\<close>

definition outgoing_stream ::
  "'y codec \<Rightarrow> ('s, 'e) stream_io \<Rightarrow> ('s, 'c, 'x) connection_io \<Rightarrow> peer_shared_state \<Rightarrow> ('s, 'c, 'x) talk \<Rightarrow>
   (unit + ('s, 'c, 'x) talk) outcome" where
  "outgoing_stream c io cio state tk =
     (case tk_out tk of
        None \<Rightarrow> Inr (Inr tk)
      | Some connection \<Rightarrow>
          res_bind (expect ''Could not unwrap stream?'' (open_bi cio connection)) (\<lambda>s.
          res_map (res_map (\<lambda>s. tk\<lparr>tk_out := None, tk_sent := tk_sent tk @ [s]\<rparr>))
            (send_message c io (Old_Ping (ps_id state)) s)))"

definition incoming_streams ::
  "'y codec \<Rightarrow> ('s, 'e) stream_io \<Rightarrow> ('s, 'c, 'x) talk \<Rightarrow> (unit + ('s, 'c, 'x) talk) outcome" where
  "incoming_streams c io tk =
     (case tk_in tk of
        None \<Rightarrow> Inr (Inr tk)
      | Some [] \<Rightarrow> Inr (Inr (tk\<lparr>tk_in := None\<rparr>))
      | Some (Inl e # _) \<Rightarrow> Inr (Inl ())
      | Some (Inr (Bi bi_stream) # rest) \<Rightarrow>
          res_map (res_map (\<lambda>s. tk\<lparr>tk_in := Some rest, tk_received := tk_received tk @ [s]\<rparr>))
            (receive_message c io bi_stream)
      | Some (Inr (Uni _) # _) \<Rightarrow> Inl (Assertion ''not yet implemented''))"

text \<open>How much is left to do.\<close>

definition talk_left :: "('s, 'c, 'x) talk \<Rightarrow> nat" where
  "talk_left tk = (if tk_out tk = None then 0 else 1) + (case tk_in tk of None \<Rightarrow> 0 | Some items \<Rightarrow> Suc (length items))"

lemma outgoing_left:
  "outgoing_stream c io cio state tk = Inr (Inr tk') \<Longrightarrow> tk_out tk = Some y \<Longrightarrow> talk_left tk' < talk_left tk"
  by (auto simp: outgoing_stream_def talk_left_def res_bind_Inr_iff res_map_Inr_iff Inr_res_map_iff)

lemma incoming_left:
  "incoming_streams c io tk = Inr (Inr tk') \<Longrightarrow> tk_in tk = Some y \<Longrightarrow> talk_left tk' < talk_left tk"
  by (auto simp: incoming_streams_def talk_left_def res_map_Inr_iff Inr_res_map_iff
      split: list.split_asm sum.split_asm new_stream.split_asm)

text \<open>
  \<open>join\<close> advances either future until both are done; an error of one ends both. \<open>pick\<close> is the choice
  the runtime makes in each state.
\<close>

function join_loop ::
  "'y codec \<Rightarrow> ('s, 'e) stream_io \<Rightarrow> ('s, 'c, 'x) connection_io \<Rightarrow> (('s, 'c, 'x) talk \<Rightarrow> bool) \<Rightarrow> peer_shared_state \<Rightarrow>
   ('s, 'c, 'x) talk \<Rightarrow> (unit + ('s, 'c, 'x) talk) outcome" where
  "join_loop c io cio pick state tk =
     (if tk_out tk = None \<and> tk_in tk = None then Inr (Inr tk)
      else if tk_in tk = None \<or> tk_out tk \<noteq> None \<and> pick tk
      then try_bind (outgoing_stream c io cio state tk) (join_loop c io cio pick state)
      else try_bind (incoming_streams c io tk) (join_loop c io cio pick state))"
  by pat_completeness auto
termination
  by (relation "measure (\<lambda>(c, io, cio, pick, state, tk). talk_left tk)") (auto dest: outgoing_left incoming_left)

declare join_loop.simps [simp del]

definition talk_to_peer ::
  "'y codec \<Rightarrow> ('s, 'e) stream_io \<Rightarrow> ('s, 'c, 'x) connection_io \<Rightarrow> (('s, 'c, 'x) talk \<Rightarrow> bool) \<Rightarrow>
   ('s, 'c, 'x) new_connection \<Rightarrow> peer_shared_state \<Rightarrow> (unit + ('s, 'c, 'x) talk) outcome" where
  "talk_to_peer c io cio pick conn state =
     join_loop c io cio pick state
       \<lparr>tk_out = Some (nc_connection conn), tk_in = Some (nc_incoming conn), tk_sent = [], tk_received = []\<rparr>"

subsection \<open>Starting the peer\<close>

text \<open>
  The loop over accepted connections: \<open>for_each\<close> waits for one exchange to end before it takes the
  next connection, and ends with the first error. The result also has what was exchanged so far.
\<close>

fun old_accept ::
  "'y codec \<Rightarrow> ('s, 'e) stream_io \<Rightarrow> ('s, 'c, 'x) connection_io \<Rightarrow> (('s, 'c, 'x) talk \<Rightarrow> bool) \<Rightarrow> peer_shared_state \<Rightarrow>
   ('s, 'c, 'x) new_connection list \<Rightarrow> (('s, 'c, 'x) talk list \<times> bool) outcome" where
  "old_accept c io cio pick state [] = Inr ([], True)"
| "old_accept c io cio pick state (conn # rest) =
     res_bind (talk_to_peer c io cio pick conn state) (\<lambda>r.
       case r of
         Inl _ \<Rightarrow> Inr ([], False)
       | Inr tk \<Rightarrow> res_map (\<lambda>(tks, ok). (tk # tks, ok)) (old_accept c io cio pick state rest))"

text \<open>Resolving the bootstrap peer: \<open>with_default_port\<close> of the crate \<open>url\<close>, and \<open>to_socket_addrs\<close>.\<close>

record ('url, 'h, 'x) resolver =
  with_default_port :: "'url \<Rightarrow> 'x + 'h"
  to_socket_addrs :: "'h \<Rightarrow> 'x + socket_addr list"

definition resolve :: "('url, 'h, 'x) resolver \<Rightarrow> 'url \<Rightarrow> 'x failure + socket_addr" where
  "resolve res url =
     res_bind (map_err Cause (with_default_port res url)) (\<lambda>h.
     res_bind (map_err Cause (to_socket_addrs res h)) (\<lambda>addrs.
     case addrs of
       [] \<Rightarrow> Inl (ErrMsg ''Couldn't resolve bootstrap peer input to an address'')
     | a # _ \<Rightarrow> Inr a))"

text \<open>
  \<open>start\<close> up to the point where the driver runs: the connection attempt to the bootstrap peer, if
  there is one, and the connections that will be accepted.
\<close>

definition old_start ::
  "('file, 'key, 'cert, 'x) tls_io \<Rightarrow> ('key, 'cert, 's, 'c, 'x) endpoint_io \<Rightarrow> ('url, 'h, 'x) resolver \<Rightarrow> 'url peer_opt \<Rightarrow>
   ('x failure + ('x + ('s, 'c, 'x) new_connection) option \<times> ('s, 'c, 'x) new_connection list) outcome" where
  "old_start tls ep res opts =
     try_bind (Inr (load_tls_keys tls (key opts) (cert opts))) (\<lambda>(keys, cert_chain).
     res_bind (vec_get keys 0) (\<lambda>key0.
     try_bind (lib (set_certificate ep cert_chain key0)) (\<lambda>_.
     try_bind (lib (bind_endpoint ep (peer_builder opts cert_chain key0) (listen opts))) (\<lambda>conns.
     case bootstrap_peer opts of
       None \<Rightarrow> Inr (Inr (None, conns))
     | Some url \<Rightarrow>
         try_bind (Inr (resolve res url)) (\<lambda>addr.
         try_bind (lib (connect_with ep addr ''localhost'')) (\<lambda>attempt.
         Inr (Inr (Some attempt, conns))))))))"

text \<open>
  The tasks \<open>start\<close> spawns: the exchange with the bootstrap peer once it is connected, and the accept
  loop. Their results are only logged, but a panic of a task ends the runtime. They share nothing
  that changes, so they are run one after the other.
\<close>

definition old_tasks ::
  "'y codec \<Rightarrow> ('s, 'e) stream_io \<Rightarrow> ('s, 'c, 'x) connection_io \<Rightarrow> (('s, 'c, 'x) talk \<Rightarrow> bool) \<Rightarrow> peer_shared_state \<Rightarrow>
   ('x + ('s, 'c, 'x) new_connection) option \<times> ('s, 'c, 'x) new_connection list \<Rightarrow> unit outcome" where
  "old_tasks c io cio pick state = (\<lambda>(attempt, conns).
     res_bind (case attempt of
         Some (Inr conn) \<Rightarrow> res_map (\<lambda>_. ()) (talk_to_peer c io cio pick conn state)
       | _ \<Rightarrow> Inr ()) (\<lambda>_.
     res_map (\<lambda>_. ()) (old_accept c io cio pick state conns)))"

text \<open>The code outside the repository that the peer runs on; \<open>runtime_new\<close> and \<open>runtime_run\<close> are results.\<close>

record ('y, 's, 'e, 'c, 'x, 'file, 'key, 'cert, 'url, 'h) old_world =
  ow_codec :: "'y codec"
  ow_io :: "('s, 'e) stream_io"
  ow_cio :: "('s, 'c, 'x) connection_io"
  ow_pick :: "('s, 'c, 'x) talk \<Rightarrow> bool"
  ow_tls :: "('file, 'key, 'cert, 'x) tls_io"
  ow_ep :: "('key, 'cert, 's, 'c, 'x) endpoint_io"
  ow_resolver :: "('url, 'h, 'x) resolver"
  ow_blake2s :: "u8 list \<Rightarrow> u8 list"
  runtime_new :: "'x + unit"
  runtime_run :: "'x + unit"

text \<open>\<open>start\<close> spawns the tasks and blocks on the driver, which runs them until the socket closes.\<close>

definition old_peer_start ::
  "('y, 's, 'e, 'c, 'x, 'file, 'key, 'cert, 'url, 'h) old_world \<Rightarrow> 'url old_peer \<Rightarrow> ('x failure + unit) outcome" where
  "old_peer_start ow p =
     try_bind (old_start (ow_tls ow) (ow_ep ow) (ow_resolver ow) (op_options p)) (\<lambda>conns.
     res_bind (old_tasks (ow_codec ow) (ow_io ow) (ow_cio ow) (ow_pick ow) (op_shared p) conns) (\<lambda>_.
     lib (driver_result (ow_ep ow))))"

text \<open>\<open>run\<close>: after \<open>start\<close> the runtime runs what is left.\<close>

definition old_run ::
  "('y, 's, 'e, 'c, 'x, 'file, 'key, 'cert, 'url, 'h) old_world \<Rightarrow> 'url old_peer \<Rightarrow> ('x failure + unit) outcome" where
  "old_run ow p =
     try_bind (old_peer_start ow p) (\<lambda>_.
     lib (runtime_run ow))"

subsection \<open>Exchanges\<close>

text \<open>The serialisation can write pings and pongs and reads back what it wrote.\<close>

definition codec_ok :: "'y codec \<Rightarrow> bool" where
  "codec_ok c \<longleftrightarrow> (\<forall>m bs. to_vec c m = Inr bs \<longrightarrow> from_slice c bs = Inr m) \<and>
     (\<forall>p. \<exists>bs. to_vec c (Old_Ping p) = Inr bs) \<and> (\<forall>p. \<exists>bs. to_vec c (Old_Pong p) = Inr bs)"

text \<open>What the peer writes on a stream it received these bytes on.\<close>

definition reply_bytes :: "'y codec \<Rightarrow> u8 list \<Rightarrow> u8 list" where
  "reply_bytes c bs =
     (case from_slice c bs of
        Inr (Old_Ping p) \<Rightarrow> (case to_vec c (Old_Pong p) of Inr bs' \<Rightarrow> bs' | Inl _ \<Rightarrow> [])
      | _ \<Rightarrow> [])"

definition unused_stream :: "'s stream_view \<Rightarrow> 's \<Rightarrow> bool" where
  "unused_stream v s \<longleftrightarrow> \<not> finished v s \<and> written v s = []"

lemma send_message_spec:
  assumes "stream_laws io v" and "codec_ok c" and "unused_stream v s"
  shows "\<exists>s'. send_message c io (Old_Ping p) s = Inr (Inr s') \<and> finished v s' \<and> from_slice c (written v s') = Inr (Old_Ping p)"
proof -
  obtain bs where bs: "to_vec c (Old_Ping p) = Inr bs" "from_slice c bs = Inr (Old_Ping p)" using assms(2) unfolding codec_ok_def by blast
  from stream_write [OF assms(1), of s bs] assms(3) obtain s1 where
    s1: "io_write_all io bs s = Inr s1" "written v s1 = bs" by (auto simp: unused_stream_def)
  from stream_finish [OF assms(1), of s1] obtain s' where "io_finish io s1 = Inr s'" "written v s' = written v s1" "finished v s'" by blast
  then show ?thesis using bs s1 by (simp add: send_message_def)
qed

lemma receive_message_spec:
  assumes "stream_laws io v" and "codec_ok c" and "unused_stream v s" and "length (incoming v s) \<le> 65536"
  shows "\<exists>s'. receive_message c io s = Inr (Inr s') \<and> finished v s' \<and> written v s' = reply_bytes c (incoming v s)"
proof -
  from stream_read [OF assms(1,4)] obtain s1 where
    s1: "io_read_to_end io 65536 s = Inr (incoming v s, s1)" "written v s1 = []" "\<not> finished v s1"
    using assms(3) by (auto simp: unused_stream_def)
  have fin: "\<exists>s3. io_finish io s2 = Inr s3 \<and> written v s3 = written v s2 \<and> finished v s3" for s2
    using stream_finish [OF assms(1)] by metis
  show ?thesis
  proof (cases "\<exists>p. from_slice c (incoming v s) = Inr (Old_Ping p)")
    case True
    then obtain p bs where p: "from_slice c (incoming v s) = Inr (Old_Ping p)" "to_vec c (Old_Pong p) = Inr bs"
      using assms(2) unfolding codec_ok_def by blast
    from stream_write [OF assms(1) s1(3), of bs] s1(2) obtain s2 where "io_write_all io bs s1 = Inr s2" "written v s2 = bs" by auto
    then show ?thesis using s1(1) p fin [of s2] by (auto simp: receive_message_def reply_bytes_def)
  next
    case False
    then show ?thesis using s1 fin [of s1]
      by (auto simp: receive_message_def reply_bytes_def split: sum.splits old_message.splits)
  qed
qed

text \<open>The streams of a working connection, and what is left of an exchange on one.\<close>

definition readable :: "'s stream_view \<Rightarrow> 's \<Rightarrow> bool" where
  "readable v s \<longleftrightarrow> unused_stream v s \<and> length (incoming v s) \<le> 65536"

abbreviation bi_streams :: "'s list \<Rightarrow> ('x + 's new_stream) list" where
  "bi_streams ss \<equiv> map (Inr \<circ> Bi) ss"

definition can_greet :: "'s stream_view \<Rightarrow> ('s, 'c, 'x) connection_io \<Rightarrow> 'c \<Rightarrow> bool" where
  "can_greet v cio conn \<longleftrightarrow> (\<exists>s. open_bi cio conn = Inr s \<and> unused_stream v s)"

lemma outgoing_stream_spec:
  assumes "stream_laws io v" and "codec_ok c" and "tk_out tk = Some conn" and "can_greet v cio conn"
  shows "\<exists>s. outgoing_stream c io cio state tk = Inr (Inr (tk\<lparr>tk_out := None, tk_sent := tk_sent tk @ [s]\<rparr>)) \<and>
    finished v s \<and> from_slice c (written v s) = Inr (Old_Ping (ps_id state))"
proof -
  from assms(4) obtain s0 where "open_bi cio conn = Inr s0" "unused_stream v s0" by (auto simp: can_greet_def)
  then show ?thesis
    using send_message_spec [OF assms(1,2), of s0 "ps_id state"] assms(3) by (auto simp: outgoing_stream_def)
qed

text \<open>
  What an exchange adds to its state when nothing fails: the ping of the peer if it was not sent
  before, and the answers on the streams \<open>ss\<close>; all these streams are finished.
\<close>

definition exchanged ::
  "'s stream_view \<Rightarrow> 'y codec \<Rightarrow> peer_id \<Rightarrow> 's list \<Rightarrow> ('s, 'c, 'x) talk \<Rightarrow> ('s, 'c, 'x) talk \<Rightarrow> bool" where
  "exchanged v c self_id ss tk tk' \<longleftrightarrow> (\<exists>sent rcvd. tk_sent tk' = tk_sent tk @ sent \<and> tk_received tk' = tk_received tk @ rcvd \<and>
     map (from_slice c \<circ> written v) sent = (if tk_out tk = None then [] else [Inr (Old_Ping self_id)]) \<and>
     map (written v) rcvd = map (\<lambda>s. reply_bytes c (incoming v s)) ss \<and> list_all (finished v) (sent @ rcvd))"

lemma exchanged_sent:
  assumes "exchanged v c self_id ss (tk\<lparr>tk_out := None, tk_sent := tk_sent tk @ [s]\<rparr>) tk'" and "tk_out tk = Some conn"
    and "finished v s" and "from_slice c (written v s) = Inr (Old_Ping self_id)"
  shows "exchanged v c self_id ss tk tk'"
  using assms unfolding exchanged_def by auto

lemma exchanged_received:
  assumes "exchanged v c self_id ss (tk\<lparr>tk_in := rest, tk_received := tk_received tk @ [s']\<rparr>) tk'"
    and "finished v s'" and "written v s' = reply_bytes c (incoming v s)"
  shows "exchanged v c self_id (s # ss) tk tk'"
proof -
  from assms(1) obtain sent rcvd where "tk_sent tk' = tk_sent tk @ sent" "tk_received tk' = tk_received tk @ s' # rcvd"
      "map (from_slice c \<circ> written v) sent = (if tk_out tk = None then [] else [Inr (Old_Ping self_id)])"
      "map (written v) rcvd = map (\<lambda>s. reply_bytes c (incoming v s)) ss" "list_all (finished v) (sent @ rcvd)"
    by (auto simp: exchanged_def)
  note ex = this assms(2,3)
  show ?thesis
    unfolding exchanged_def by (rule exI [of _ sent], rule exI [of _ "s' # rcvd"]) (use ex in simp)
qed

lemma join_loop_out:
  "tk_out tk \<noteq> None \<Longrightarrow> tk_in tk = None \<or> pick tk \<Longrightarrow>
     join_loop c io cio pick state tk = try_bind (outgoing_stream c io cio state tk) (join_loop c io cio pick state)"
  by (subst join_loop.simps) auto

lemma join_loop_in:
  "tk_in tk \<noteq> None \<Longrightarrow> tk_out tk = None \<or> \<not> pick tk \<Longrightarrow>
     join_loop c io cio pick state tk = try_bind (incoming_streams c io tk) (join_loop c io cio pick state)"
  by (subst join_loop.simps) auto

lemma join_loop_done: "tk_out tk = None \<Longrightarrow> tk_in tk = None \<Longrightarrow> join_loop c io cio pick state tk = Inr (Inr tk)"
  by (simp add: join_loop.simps)

lemma join_loop_no_streams:
  assumes "stream_laws io v" and "codec_ok c" and "\<And>conn. tk_out tk = Some conn \<Longrightarrow> can_greet v cio conn" and "tk_in tk = None"
  shows "\<exists>tk'. join_loop c io cio pick state tk = Inr (Inr tk') \<and> exchanged v c (ps_id state) [] tk tk'"
proof (cases "tk_out tk")
  case None
  then show ?thesis using assms(4) by (simp add: join_loop_done exchanged_def)
next
  case (Some conn)
  from outgoing_stream_spec [OF assms(1,2) Some assms(3) [OF Some], of state] obtain s where
    s: "outgoing_stream c io cio state tk = Inr (Inr (tk\<lparr>tk_out := None, tk_sent := tk_sent tk @ [s]\<rparr>))" "finished v s"
      "from_slice c (written v s) = Inr (Old_Ping (ps_id state))" by blast
  then show ?thesis
    using Some assms(4) by (simp add: join_loop_out join_loop_done) (rule exchanged_sent; simp add: exchanged_def)
qed

lemma join_loop_ends:
  assumes "stream_laws io v" and "codec_ok c" and "\<And>conn. tk_out tk = Some conn \<Longrightarrow> can_greet v cio conn"
    and "tk_in tk = Some (bi_streams ss)" and "\<And>s. s \<in> set ss \<Longrightarrow> readable v s"
  shows "\<exists>tk'. join_loop c io cio pick state tk = Inr (Inr tk') \<and> exchanged v c (ps_id state) ss tk tk'"
  using assms(3-5)
proof (induction "talk_left tk" arbitrary: tk ss rule: less_induct)
  case less
  show ?case
  proof (cases "tk_out tk \<noteq> None \<and> pick tk")
    case True
    then obtain conn where conn: "tk_out tk = Some conn" by blast
    from outgoing_stream_spec [OF assms(1,2) conn less.prems(1) [OF conn], of state] obtain s where
      s: "outgoing_stream c io cio state tk = Inr (Inr (tk\<lparr>tk_out := None, tk_sent := tk_sent tk @ [s]\<rparr>))" "finished v s"
        "from_slice c (written v s) = Inr (Old_Ping (ps_id state))" by blast
    from less.hyps [OF outgoing_left [OF s(1) conn], of ss] less.prems show ?thesis
      using True s exchanged_sent [OF _ conn s(2,3), of ss] by (auto simp: join_loop_out)
  next
    case False
    then have loop: "join_loop c io cio pick state tk = try_bind (incoming_streams c io tk) (join_loop c io cio pick state)"
      by (intro join_loop_in) (use less.prems(2) in auto)
    show ?thesis
    proof (cases ss)
      case Nil
      from join_loop_no_streams [OF assms(1,2), of "tk\<lparr>tk_in := None\<rparr>" cio pick state] less.prems show ?thesis
        by (auto simp: loop incoming_streams_def Nil exchanged_def)
    next
      case (Cons s ss')
      from receive_message_spec [OF assms(1,2), of s] less.prems(3) [of s] obtain s' where
        s': "receive_message c io s = Inr (Inr s')" "finished v s'" "written v s' = reply_bytes c (incoming v s)"
        by (auto simp: Cons readable_def)
      have inc: "incoming_streams c io tk = Inr (Inr (tk\<lparr>tk_in := Some (bi_streams ss'), tk_received := tk_received tk @ [s']\<rparr>))"
        using less.prems(2) s'(1) by (simp add: incoming_streams_def Cons)
      from less.hyps [OF incoming_left [OF inc less.prems(2)], of ss'] less.prems show ?thesis
        using inc exchanged_received [OF _ s'(2,3)] by (auto simp: loop Cons)
    qed
  qed
qed

text \<open>An error among the streams ends the exchange with an error, whatever is polled first.\<close>

lemma join_loop_fails:
  assumes "stream_laws io v" and "codec_ok c" and "\<And>conn. tk_out tk = Some conn \<Longrightarrow> can_greet v cio conn"
    and "tk_in tk = Some (bi_streams ss @ Inl e # rest)" and "\<And>s. s \<in> set ss \<Longrightarrow> readable v s"
  shows "join_loop c io cio pick state tk = Inr (Inl ())"
  using assms(3-5)
proof (induction "talk_left tk" arbitrary: tk ss rule: less_induct)
  case less
  show ?case
  proof (cases "tk_out tk \<noteq> None \<and> pick tk")
    case True
    then obtain conn where conn: "tk_out tk = Some conn" by blast
    from outgoing_stream_spec [OF assms(1,2) conn less.prems(1) [OF conn], of state] obtain s where
      s: "outgoing_stream c io cio state tk = Inr (Inr (tk\<lparr>tk_out := None, tk_sent := tk_sent tk @ [s]\<rparr>))" by blast
    from less.hyps [OF outgoing_left [OF s conn], of ss] less.prems show ?thesis
      using True s by (auto simp: join_loop_out)
  next
    case False
    then have loop: "join_loop c io cio pick state tk = try_bind (incoming_streams c io tk) (join_loop c io cio pick state)"
      by (intro join_loop_in) (use less.prems(2) in auto)
    show ?thesis
    proof (cases ss)
      case Nil
      then show ?thesis using less.prems(2) by (simp add: loop incoming_streams_def)
    next
      case (Cons s ss')
      from receive_message_spec [OF assms(1,2), of s] less.prems(3) [of s] obtain s' where
        s': "receive_message c io s = Inr (Inr s')" by (auto simp: Cons readable_def)
      have inc: "incoming_streams c io tk =
          Inr (Inr (tk\<lparr>tk_in := Some (bi_streams ss' @ Inl e # rest), tk_received := tk_received tk @ [s']\<rparr>))"
        using less.prems(2) s'(1) by (simp add: incoming_streams_def Cons)
      from less.hyps [OF incoming_left [OF inc less.prems(2)], of ss'] less.prems show ?thesis
        using inc by (auto simp: loop Cons)
    qed
  qed
qed

subsection \<open>A concrete connection\<close>

text \<open>A serialisation of pings and pongs by a tag and the bytes of the id.\<close>

definition tag_codec :: "unit codec" where
  "tag_codec = \<lparr>
     to_vec = (\<lambda>m. case m of Old_Ping p \<Rightarrow> Inr (1 # peer_id_bytes p) | Old_Pong p \<Rightarrow> Inr (2 # peer_id_bytes p) | _ \<Rightarrow> Inl ()),
     from_slice = (\<lambda>bs. case bs of
         [] \<Rightarrow> Inl ()
       | t # bytes \<Rightarrow> if length bytes \<noteq> 32 then Inl () else if t = 1 then Inr (Old_Ping (peer_id_raw bytes))
                  else if t = 2 then Inr (Old_Pong (peer_id_raw bytes)) else Inl ())\<rparr>"

lemma raw_bytes [simp]: "peer_id_raw (peer_id_bytes p) = p" "length (peer_id_bytes p) = 32"
  by (simp_all add: peer_id_raw_def peer_id_bytes_def)

lemma tag_codec_ok: "codec_ok tag_codec"
  by (auto simp: codec_ok_def tag_codec_def split: old_message.splits)

definition lone_cio :: "(pipe, unit, unit) connection_io" where
  "lone_cio = \<lparr>open_uni = (\<lambda>_. Inl ()), open_bi = (\<lambda>_. Inr \<lparr>p_in = [], p_out = [], p_fin = False\<rparr>), remote_address = (\<lambda>_. V4 1 4433)\<rparr>"

lemma lone_can_greet: "can_greet pipe_view lone_cio ()"
  by (simp add: can_greet_def lone_cio_def unused_stream_def pipe_view_def)

definition ping_pipe :: pipe where
  "ping_pipe = \<lparr>p_in = 1 # peer_id_bytes zero_peer, p_out = [], p_fin = False\<rparr>"

lemma ping_pipe_ok: "readable pipe_view ping_pipe" "reply_bytes tag_codec (p_in ping_pipe) = 2 # peer_id_bytes zero_peer"
  by (simp_all add: readable_def unused_stream_def ping_pipe_def pipe_view_def reply_bytes_def tag_codec_def)

text \<open>The whole exchange, from its start.\<close>

lemma talk_to_peer_ends:
  assumes "stream_laws io v" and "codec_ok c" and "can_greet v cio (nc_connection conn)"
    and "nc_incoming conn = bi_streams ss" and "\<forall>s \<in> set ss. readable v s"
  shows "\<exists>tk. talk_to_peer c io cio pick conn state = Inr (Inr tk) \<and>
    map (from_slice c \<circ> written v) (tk_sent tk) = [Inr (Old_Ping (ps_id state))] \<and>
    map (written v) (tk_received tk) = map (\<lambda>s. reply_bytes c (incoming v s)) ss \<and>
    list_all (finished v) (tk_sent tk @ tk_received tk)"
proof -
  let ?tk = "\<lparr>tk_out = Some (nc_connection conn), tk_in = Some (nc_incoming conn), tk_sent = [], tk_received = []\<rparr>"
  from join_loop_ends [OF assms(1,2), of ?tk cio ss pick state] assms(3-5) show ?thesis
    by (auto simp: talk_to_peer_def exchanged_def)
qed

subsection \<open>Properties\<close>

text \<open>
  C35. An exchange of the old peer over a working connection ends without a panic, whichever of its
  two futures the runtime advances: exactly one message is sent, a \<open>Ping\<close> with the peer's own
  id, every stream the other side opens is answered in order, with a \<open>Pong\<close> if it held a
  \<open>Ping\<close> and with nothing otherwise, and all of the streams are finished.
\<close>

theorem talk_to_peer_exchange:
  assumes "stream_laws io v" and "codec_ok c" and "can_greet v cio (nc_connection conn)"
    and "nc_incoming conn = bi_streams ss" and "\<forall>s \<in> set ss. readable v s"
  shows "\<exists>tk. talk_to_peer c io cio pick conn state = Inr (Inr tk) \<and>
    map (from_slice c \<circ> written v) (tk_sent tk) = [Inr (Old_Ping (ps_id state))] \<and>
    map (written v) (tk_received tk) = map (\<lambda>s. reply_bytes c (incoming v s)) ss \<and>
    list_all (finished v) (tk_sent tk @ tk_received tk)"
  by (rule talk_to_peer_ends [OF assms])

theorem talk_to_peer_exchange_witness:
  "\<exists>tk. talk_to_peer tag_codec pipe_io lone_cio (\<lambda>_. False) \<lparr>nc_connection = (), nc_incoming = [Inr (Bi ping_pipe)]\<rparr>
       \<lparr>ps_id = unit_peer 0 128, ps_peermap = \<lparr>om_buckets = [], om_bucket_size = 8\<rparr>\<rparr> = Inr (Inr tk) \<and>
     map p_out (tk_received tk) = [2 # peer_id_bytes zero_peer]"
  using talk_to_peer_exchange [OF pipe_laws tag_codec_ok, of lone_cio "\<lparr>nc_connection = (), nc_incoming = [Inr (Bi ping_pipe)]\<rparr>"
      "[ping_pipe]" "\<lambda>_. False" "\<lparr>ps_id = unit_peer 0 128, ps_peermap = \<lparr>om_buckets = [], om_bucket_size = 8\<rparr>\<rparr>"]
    lone_can_greet ping_pipe_ok by (auto simp: pipe_view_def)

text \<open>
  C36. The old peer stops accepting with the first connection whose streams end in an error, which is
  how a closed connection ends: the connections after it are never talked to.
\<close>

theorem old_accept_stops:
  assumes "stream_laws io v" and "codec_ok c" and "can_greet v cio (nc_connection conn)"
    and "nc_incoming conn = bi_streams ss @ Inl e # later" and "\<forall>s \<in> set ss. readable v s"
    and "old_accept c io cio pick state before = Inr (tks, True)"
  shows "old_accept c io cio pick state (before @ conn # rest) = Inr (tks, False)"
proof -
  let ?tk = "\<lparr>tk_out = Some (nc_connection conn), tk_in = Some (nc_incoming conn), tk_sent = [], tk_received = []\<rparr>"
  have "talk_to_peer c io cio pick conn state = Inr (Inl ())"
    unfolding talk_to_peer_def by (rule join_loop_fails [OF assms(1,2)]) (use assms(3-5) in auto)
  with assms(6) show ?thesis
  proof (induction before arbitrary: tks)
    case (Cons conn' before)
    from Cons.prems(1) obtain r where r: "talk_to_peer c io cio pick conn' state = Inr r" by (auto simp: res_bind_Inr_iff)
    with Cons.prems(1) have "\<not> isl r" by (cases r) simp_all
    then obtain tk where tk: "r = Inr tk" by (metis sum.collapse(2))
    with r Cons.prems(1) obtain tks' where "old_accept c io cio pick state before = Inr (tks', True)" "tks = tk # tks'"
      by (auto simp: res_map_Inr_iff)
    with Cons.IH [OF this(1) Cons.prems(2)] show ?case by (simp add: r tk)
  qed simp
qed

theorem old_accept_stops_witness:
  "old_accept tag_codec pipe_io lone_cio (\<lambda>_. True) \<lparr>ps_id = zero_peer, ps_peermap = \<lparr>om_buckets = [], om_bucket_size = 8\<rparr>\<rparr>
     [\<lparr>nc_connection = (), nc_incoming = [Inr (Bi ping_pipe), Inl ()]\<rparr>,
      \<lparr>nc_connection = (), nc_incoming = [Inr (Bi ping_pipe)]\<rparr>] = Inr ([], False)"
proof -
  let ?st = "\<lparr>ps_id = zero_peer, ps_peermap = \<lparr>om_buckets = [], om_bucket_size = 8\<rparr>\<rparr>"
  have "old_accept tag_codec pipe_io lone_cio (\<lambda>_. True) ?st
      ([] @ \<lparr>nc_connection = (), nc_incoming = [Inr (Bi ping_pipe), Inl ()]\<rparr> #
       [\<lparr>nc_connection = (), nc_incoming = [Inr (Bi ping_pipe)]\<rparr>]) = Inr ([], False)"
    by (rule old_accept_stops [OF pipe_laws tag_codec_ok, where ss = "[ping_pipe]"])
      (simp_all add: lone_can_greet ping_pipe_ok)
  then show ?thesis by (simp only: append_Nil)
qed

text \<open>
  Starting the old peer: it panics exactly when both PEM files can be read and the key file
  holds no RSA key, and it gets to running the driver exactly when there is a key, the
  certificate is accepted, the address can be bound, and the bootstrap peer, if there is one, has an
  address to which a connection can be begun. In every other case it returns an error.
\<close>

theorem old_start_iff:
  "(old_start tls ep res opts = Inl p \<longleftrightarrow>
      p = IndexOutOfBounds 0 0 \<and> (\<exists>cs. tls_files tls (key opts) (cert opts) [] cs)) \<and>
   ((\<exists>r. old_start tls ep res opts = Inr (Inr r)) \<longleftrightarrow>
      (\<exists>k ks cs conns. tls_files tls (key opts) (cert opts) (k # ks) cs \<and> set_certificate ep cs k = Inr () \<and>
         bind_endpoint ep (peer_builder opts cs k) (listen opts) = Inr conns \<and>
         (case bootstrap_peer opts of None \<Rightarrow> True
          | Some url \<Rightarrow> \<exists>h a as attempt. with_default_port res url = Inr h \<and> to_socket_addrs res h = Inr (a # as) \<and>
              connect_with ep a ''localhost'' = Inr attempt)))"
proof
  show "old_start tls ep res opts = Inl p \<longleftrightarrow>
      p = IndexOutOfBounds 0 0 \<and> (\<exists>cs. tls_files tls (key opts) (cert opts) [] cs)"
    by (cases "bootstrap_peer opts")
      (auto simp: old_start_def try_bind_Inl_iff res_bind_Inl_iff vec_get_0_Inl load_tls_keys_iff)
  have "resolve res url = Inr a \<longleftrightarrow>
      (\<exists>h as. with_default_port res url = Inr h \<and> to_socket_addrs res h = Inr (a # as))" for url a
    by (auto simp: resolve_def res_bind_Inr_iff split: list.split_asm)
  then show "(\<exists>r. old_start tls ep res opts = Inr (Inr r)) \<longleftrightarrow>
      (\<exists>k ks cs conns. tls_files tls (key opts) (cert opts) (k # ks) cs \<and> set_certificate ep cs k = Inr () \<and>
         bind_endpoint ep (peer_builder opts cs k) (listen opts) = Inr conns \<and>
         (case bootstrap_peer opts of None \<Rightarrow> True
          | Some url \<Rightarrow> \<exists>h a as attempt. with_default_port res url = Inr h \<and> to_socket_addrs res h = Inr (a # as) \<and>
              connect_with ep a ''localhost'' = Inr attempt))"
    by (cases "bootstrap_peer opts")
      (auto simp: old_start_def try_bind_Inr_iff res_bind_Inr_iff vec_get_0_Inr load_tls_keys_iff; blast)+
qed

end
