(* ===== verification/Old_Tests.thy ===== *)
theory Old_Tests
  imports Old_Peer_Net
begin

text \<open>
  The model of \<open>src/src/tests.rs\<close>: the test of the old peer, which starts a server in a thread of its
  own and a client that connects to it. Name resolution and the parser of URLs are arguments.
\<close>

record 'url test_env =
  addrs_of :: "string \<Rightarrow> unit + socket_addr list"
  url_parse :: "string \<Rightarrow> unit + 'url"

text \<open>\<open>s.to_socket_addrs().unwrap().next().unwrap()\<close>.\<close>

definition first_addr :: "'url test_env \<Rightarrow> string \<Rightarrow> socket_addr outcome" where
  "first_addr env s =
     res_bind (unwrap (addrs_of env s)) (\<lambda>addrs.
     option_unwrap (case addrs of [] \<Rightarrow> None | a # _ \<Rightarrow> Some a))"

text \<open>The server's thread; nobody joins it, so its panic is not seen by the test.\<close>

definition server_thread ::
  "'url test_env \<Rightarrow> ('y, 's, 'e, 'c, 'x, 'file, 'key, 'cert, 'url, 'h) old_world \<Rightarrow> ('x failure + unit) outcome" where
  "server_thread env ow =
     res_bind (first_addr env ''[::]:5544'') (\<lambda>addr.
     res_bind (old_peer_new (ow_blake2s ow) (runtime_new ow) \<lparr>bootstrap_peer = None, listen = addr, ca = None,
         key = ''certs/server.rsa'', cert = ''certs/server.chain'', logproto = False\<rparr>) (\<lambda>peer.
     res_bind (old_run ow peer) (\<lambda>r.
     res_map (\<lambda>_. Inr ()) (expect ''Could not run peer?'' r))))"

definition test_client_connection ::
  "'url test_env \<Rightarrow> ('y, 's, 'e, 'c, 'x, 'file, 'key, 'cert, 'url, 'h) old_world \<Rightarrow> unit outcome" where
  "test_client_connection env ow =
     res_bind (unwrap (url_parse env ''quic://[::1]:5544/'')) (\<lambda>url.
     res_bind (first_addr env ''[::]:5545'') (\<lambda>addr.
     res_bind (old_peer_new (ow_blake2s ow) (runtime_new ow) \<lparr>bootstrap_peer = Some url, listen = addr, ca = Some ''certs/ca.der'',
         key = ''certs/server.rsa'', cert = ''certs/server.chain'', logproto = False\<rparr>) (\<lambda>peer.
     res_bind (old_peer_start ow peer) (\<lambda>res.
     res_bind (unwrap (runtime_run ow)) (\<lambda>_.
     assert_that (\<exists>u. res = Inr u))))))"

subsection \<open>Without a server\<close>

text \<open>The same world in which no handshake succeeds, as when no server is running.\<close>

definition no_server :: "'x \<Rightarrow> ('y, 's, 'e, 'c, 'x, 'file, 'key, 'cert, 'url, 'h) old_world \<Rightarrow> ('y, 's, 'e, 'c, 'x, 'file, 'key, 'cert, 'url, 'h) old_world" where
  "no_server e ow = ow\<lparr>ow_ep := (ow_ep ow)\<lparr>connect_with := (\<lambda>a host. res_map (\<lambda>_. Inl e) (connect_with (ow_ep ow) a host))\<rparr>\<rparr>"

lemma old_start_no_server:
  assumes "old_start tls ep res opts = Inr (Inr (attempt, conns))"
  shows "\<exists>attempt'. old_start tls (ep\<lparr>connect_with := (\<lambda>a host. res_map (\<lambda>_. Inl e) (connect_with ep a host))\<rparr>) res opts =
      Inr (Inr (attempt', conns)) \<and> (\<forall>conn. attempt' \<noteq> Some (Inr conn))"
  using assms
  by (cases "bootstrap_peer opts")
    (auto simp: old_start_def try_bind_Inr_iff res_bind_Inr_iff split: prod.splits)

lemma old_peer_start_no_server:
  assumes "old_peer_start ow p = Inr (Inr ())"
  shows "old_peer_start (no_server e ow) p = Inr (Inr ())"
proof -
  from assms obtain attempt conns where start: "old_start (ow_tls ow) (ow_ep ow) (ow_resolver ow) (op_options p) = Inr (Inr (attempt, conns))"
      and tasks: "old_tasks (ow_codec ow) (ow_io ow) (ow_cio ow) (ow_pick ow) (op_shared p) (attempt, conns) = Inr ()"
      and driver: "driver_result (ow_ep ow) = Inr ()"
    by (auto simp: old_peer_start_def try_bind_Inr_iff res_bind_Inr_iff)
  obtain attempt' where "old_start (ow_tls ow) (ow_ep (no_server e ow)) (ow_resolver ow) (op_options p) = Inr (Inr (attempt', conns))"
      "\<forall>conn. attempt' \<noteq> Some (Inr conn)"
    using old_start_no_server [OF start, of e] by (auto simp: no_server_def)
  moreover from this(2) tasks
  have "old_tasks (ow_codec ow) (ow_io ow) (ow_cio ow) (ow_pick ow) (op_shared p) (attempt', conns) = Inr ()"
    by (auto simp: old_tasks_def res_bind_Inr_iff res_map_Inr_iff split: option.split sum.split)
  ultimately show ?thesis using driver by (simp add: old_peer_start_def no_server_def)
qed

text \<open>A world in which the client reaches its server.\<close>

definition sample_world :: "(unit, pipe, unit, unit, unit, string, unit, unit, unit, unit) old_world" where
  "sample_world = \<lparr>ow_codec = tag_codec, ow_io = pipe_io, ow_cio = lone_cio, ow_pick = (\<lambda>_. True), ow_tls = sample_tls 1,
     ow_ep = \<lparr>set_certificate = (\<lambda>_ _. Inr ()), bind_endpoint = (\<lambda>_ _. Inr []),
       connect_with = (\<lambda>_ _. Inr (Inr \<lparr>nc_connection = (), nc_incoming = []\<rparr>)), driver_result = Inr ()\<rparr>,
     ow_resolver = \<lparr>with_default_port = Inr, to_socket_addrs = (\<lambda>_. Inr [V6 1 5544 0 0])\<rparr>,
     ow_blake2s = (\<lambda>_. replicate 32 0), runtime_new = Inr (), runtime_run = Inr ()\<rparr>"

definition sample_env :: "unit test_env" where
  "sample_env = \<lparr>addrs_of = (\<lambda>_. Inr [V6 0 5545 0 0]), url_parse = (\<lambda>_. Inr ())\<rparr>"

lemma sample_talk: "\<exists>tk. talk_to_peer tag_codec pipe_io lone_cio pick \<lparr>nc_connection = (), nc_incoming = []\<rparr> state = Inr (Inr tk)"
  using talk_to_peer_ends [OF pipe_laws tag_codec_ok, of lone_cio "\<lparr>nc_connection = (), nc_incoming = []\<rparr>" "[]" pick state]
    lone_can_greet by auto

lemma sample_test_passes: "test_client_connection sample_env sample_world = Inr ()"
proof -
  obtain state where state: "old_peer_new (\<lambda>_. replicate 32 0) (Inr () :: unit + unit) opts = Inr \<lparr>op_options = opts, op_shared = state\<rparr>"
      for opts :: "unit peer_opt"
    by (simp add: old_peer_new_def hash_new_eq old_map_new_def old_bucket_new_def max_power_def BLAKE2_HASH_SIZE_def Let_def)
  obtain tk where "talk_to_peer tag_codec pipe_io lone_cio (\<lambda>_. True) \<lparr>nc_connection = (), nc_incoming = []\<rparr> state = Inr (Inr tk)"
    using sample_talk by blast
  then show ?thesis
    by (simp add: test_client_connection_def sample_env_def sample_world_def first_addr_def unwrap_def option_unwrap_def state
        old_peer_start_def old_start_def load_tls_keys_def sample_tls_def resolve_def old_tasks_def vec_get_def assert_that_def Let_def)
qed

subsection \<open>Properties\<close>

text \<open>
  The test of the client's connection cannot notice that no server is running: whenever it
  passes, it also passes if every handshake fails, because the outcome of the connection attempt is
  only logged.
\<close>

theorem client_test_ignores_server:
  assumes "test_client_connection env ow = Inr ()"
  shows "test_client_connection env (no_server e ow) = Inr ()"
proof -
  have same: "ow_blake2s (no_server e ow) = ow_blake2s ow" "runtime_new (no_server e ow) = runtime_new ow"
      "runtime_run (no_server e ow) = runtime_run ow" by (simp_all add: no_server_def)
  from assms show ?thesis
    by (auto simp: test_client_connection_def same res_bind_Inr_iff assert_that_def intro!: old_peer_start_no_server split: if_splits)
qed

theorem client_test_ignores_server_witness:
  "test_client_connection sample_env (no_server () sample_world) = Inr ()"
  by (rule client_test_ignores_server [OF sample_test_passes])

end
