(* ===== verification/Std_Ascii.thy ===== *)
theory Std_Ascii
  imports Std_Utf8
begin

text \<open>
  What the program uses of the standard library to print bytes: \<open>std::ascii::escape_default\<close> and
  \<open>std::str::from_utf8\<close>, on the bytes of the string it returns. \<open>unescape\<close> reads such a text back.
\<close>

definition hex_digit :: "nat \<Rightarrow> u8" where
  "hex_digit n = word_of_nat (if n < 10 then 48 + n else 87 + n)"

text \<open>
  Tab, carriage return, newline, the two quotes and the backslash get a backslash, the other
  printable characters stand for themselves, everything else is written in hexadecimal.
\<close>

definition escape_default :: "u8 \<Rightarrow> u8 list" where
  "escape_default b =
     (if b = 0x09 then [0x5C, 0x74]
      else if b = 0x0D then [0x5C, 0x72]
      else if b = 0x0A then [0x5C, 0x6E]
      else if b = 0x27 \<or> b = 0x22 \<or> b = 0x5C then [0x5C, b]
      else if 0x20 \<le> b \<and> b \<le> 0x7E then [b]
      else [0x5C, 0x78, hex_digit (unat b div 16), hex_digit (unat b mod 16)])"

definition from_utf8 :: "u8 list \<Rightarrow> unit + u8 list" where
  "from_utf8 bs = (if utf8_valid bs then Inr bs else Inl ())"

subsection \<open>Reading an escaped text\<close>

definition hex_value :: "u8 \<Rightarrow> nat" where
  "hex_value c = (if unat c < 58 then unat c - 48 else unat c - 87)"

function unescape :: "u8 list \<Rightarrow> u8 list option" where
  "unescape bs =
     (case bs of
        [] \<Rightarrow> Some []
      | b # rest \<Rightarrow>
          if b \<noteq> 0x5C then map_option (Cons b) (unescape rest)
          else (case rest of
              [] \<Rightarrow> None
            | c # rest' \<Rightarrow>
                if c = 0x74 then map_option (Cons 0x09) (unescape rest')
                else if c = 0x72 then map_option (Cons 0x0D) (unescape rest')
                else if c = 0x6E then map_option (Cons 0x0A) (unescape rest')
                else if c = 0x78 then
                  (case rest' of
                     h # l # rest'' \<Rightarrow> map_option (Cons (word_of_nat (16 * hex_value h + hex_value l))) (unescape rest'')
                   | _ \<Rightarrow> None)
                else map_option (Cons c) (unescape rest')))"
  by pat_completeness auto
termination
  by (relation "measure length") auto

declare unescape.simps [simp del]

lemma unescape_Nil [simp]: "unescape [] = Some []"
  by (simp add: unescape.simps)

lemma hex_digit_cases:
  assumes "n < 16"
  shows "hex_value (hex_digit n) = n" and "hex_digit n < 0x80"
proof -
  have "unat (hex_digit n) = (if n < 10 then 48 + n else 87 + n)"
    using assms by (simp add: hex_digit_def unat_of_nat)
  then show "hex_value (hex_digit n) = n" "hex_digit n < 0x80"
    using assms by (simp_all add: hex_value_def word_less_nat_alt)
qed

lemma hex_halves: "unat (b :: u8) div 16 < 16" "unat b mod 16 < 16"
proof -
  have "unat b < 256" using unsigned_less [of b] by simp
  then show "unat b div 16 < 16" "unat b mod 16 < 16" by auto
qed

lemma word_of_hex: "16 * word_of_nat (unat b div 16) + word_of_nat (unat b mod 16) = (b :: u8)"
proof -
  have "word_of_nat (16 * (unat b div 16) + unat b mod 16) = b" by (simp only: mult_div_mod_eq) simp
  then show ?thesis by (simp only: of_nat_add of_nat_mult of_nat_numeral)
qed

lemma unescape_escape: "unescape (escape_default b @ rest) = map_option (Cons b) (unescape rest)"
proof -
  note hex = hex_halves [THEN hex_digit_cases(1)] word_of_hex [of b]
  show ?thesis by (subst unescape.simps) (simp add: escape_default_def hex)
qed

lemma escape_ascii: "c \<in> set (escape_default b) \<Longrightarrow> c < 0x80"
proof -
  note hex = hex_halves [THEN hex_digit_cases(2)]
  assume "c \<in> set (escape_default b)"
  then show "c < 0x80" using hex by (auto simp: escape_default_def split: if_splits) (simp add: word_less_nat_alt word_le_nat_alt)
qed

lemma from_utf8_escape: "from_utf8 (escape_default b) = Inr (escape_default b)"
  by (simp add: from_utf8_def ascii_valid escape_ascii)

lemma unescape_concat: "unescape (concat (map escape_default bs)) = Some bs"
  by (induction bs) (simp_all add: unescape_escape)

end
