(* ===== verification/Second_Peer.thy ===== *)
theory Second_Peer
  imports Peer_Setup Std_Ascii Std_Mpsc
begin

text \<open>
  The model of \<open>src/src/peer2.rs\<close>, the second version of the peer: it accepts connections and
  hands every request it reads to a worker thread. The module is no longer compiled, and the
  worker of its time took messages of raw bytes; its side of the channel is the removal of a
  message. The tasks of the single-threaded runtime interleave in the step relation \<open>p2_step\<close>.
\<close>

subsection \<open>Escaped bytes\<close>

definition escaped :: "u8 list \<Rightarrow> u8 list outcome" where
  "escaped bytes =
     res_fold (\<lambda>b s. let part = escape_default b in
       res_map (\<lambda>str. s @ str) (expect ''called unwrap on an error value'' (from_utf8 part))) bytes []"

subsection \<open>The state\<close>

datatype raw_message = Raw "u8 list"

text \<open>
  The tasks spawned on the runtime: accepting connections, connecting to the bootstrap peer,
  taking the streams of a connection, reading a request from a stream, and sending the greeting
  on a new stream of a connection.
\<close>

datatype ('s, 'c, 'x) task =
    Accept "('s, 'c, 'x) new_connection list"
  | Bootstrap "'x + ('s, 'c, 'x) new_connection"
  | Streams socket_addr "('x + 's new_stream) list"
  | Request socket_addr 's
  | Greeting 'c

text \<open>
  \<open>p2_control\<close> is the control channel of the worker, \<open>p2_taken\<close> what the worker has taken from it;
  \<open>p2_closed\<close> are the streams whose request was complete, and \<open>p2_greeted\<close> those a greeting was written
  to. A panic of a task ends the runtime.
\<close>

record ('s, 'c, 'x) peer2 =
  p2_options :: "socket_addr peer_opt"
  p2_connections :: "(socket_addr, 'c) hash_map"
  p2_control :: "(socket_addr \<times> raw_message) chan"
  p2_taken :: "(socket_addr \<times> raw_message) list"
  p2_closed :: "'s list"
  p2_greeted :: "'s list"
  p2_tasks :: "('s, 'c, 'x) task list"
  p2_panic :: "panic option"

text \<open>\<open>Peer::new\<close>: \<open>runtime\<close> is the result of \<open>Runtime::new\<close>, \<open>order\<close> the iteration order of the map.\<close>

definition peer2_new :: "socket_addr peer_opt \<Rightarrow> 'x + unit \<Rightarrow> (socket_addr list \<Rightarrow> socket_addr list) \<Rightarrow> 'x failure + ('s, 'c, 'x) peer2" where
  "peer2_new options runtime order =
     res_map (\<lambda>_. \<lparr>p2_options = options, p2_connections = hm_new order, p2_control = chan_new, p2_taken = [],
         p2_closed = [], p2_greeted = [], p2_tasks = [], p2_panic = None\<rparr>)
       (map_err Cause runtime)"

definition spawn :: "('s, 'c, 'x) task \<Rightarrow> ('s, 'c, 'x) peer2 \<Rightarrow> ('s, 'c, 'x) peer2" where
  "spawn t st = st\<lparr>p2_tasks := p2_tasks st @ [t]\<rparr>"

subsection \<open>The tasks\<close>

text \<open>\<open>read_message\<close> spawns a task for a bidirectional stream; \<open>request_task\<close> is that task.\<close>

fun read_message :: "socket_addr \<Rightarrow> 's new_stream \<Rightarrow> ('s, 'c, 'x) peer2 \<Rightarrow> ('s, 'c, 'x) peer2 outcome" where
  "read_message addr (Bi stream) st = Inr (spawn (Request addr stream) st)"
| "read_message addr (Uni _) st = Inl (Assertion ''internal error: entered unreachable code'')"

definition request_task :: "('s, 'e) stream_io \<Rightarrow> socket_addr \<Rightarrow> 's \<Rightarrow> ('s, 'c, 'x) peer2 \<Rightarrow> ('s, 'c, 'x) peer2 outcome" where
  "request_task io addr stream st =
     (case io_read_to_end io (64 * 1024) stream of
        Inl _ \<Rightarrow> Inr st
      | Inr (req, stream) \<Rightarrow>
          res_bind (escaped req) (\<lambda>_.
          res_bind (expect ''TODO FDSAFDSAFA'' (chan_send (addr, Raw req) (p2_control st))) (\<lambda>ch.
          let st = st\<lparr>p2_control := ch\<rparr> in
          Inr (case io_finish io stream of
               Inl _ \<Rightarrow> st
             | Inr stream \<Rightarrow> st\<lparr>p2_closed := p2_closed st @ [stream]\<rparr>))))"

text \<open>The task \<open>handle_connection\<close> spawns to send a message to the other side; \<open>b"Foo!"\<close>.\<close>

definition foo_message :: "u8 list" where
  "foo_message = [0x46, 0x6F, 0x6F, 0x21]"

definition greeting_task ::
  "('s, 'e) stream_io \<Rightarrow> ('s, 'c, 'x) connection_io \<Rightarrow> 'c \<Rightarrow> ('s, 'c, 'x) peer2 \<Rightarrow> ('s, 'c, 'x) peer2 outcome" where
  "greeting_task io cio c2 st =
     res_bind (expect ''Could not unwrap stream?'' (open_bi cio c2)) (\<lambda>s.
     Inr (case io_write_all io foo_message s of
          Inl _ \<Rightarrow> st
        | Inr s \<Rightarrow> st\<lparr>p2_greeted := p2_greeted st @ [s]\<rparr>))"

definition handle_connection2 ::
  "('s, 'c, 'x) connection_io \<Rightarrow> ('x + 's new_stream) list \<Rightarrow> 'c \<Rightarrow> ('s, 'c, 'x) peer2 \<Rightarrow> ('s, 'c, 'x) peer2" where
  "handle_connection2 cio streams connection st =
     (let c2 = connection; addr = remote_address cio connection;
          st = st\<lparr>p2_connections := snd (hm_insert (remote_address cio connection) connection (p2_connections st))\<rparr>;
          st = spawn (Streams addr streams) st
      in spawn (Greeting c2) st)"

definition handle_incoming_connection ::
  "('s, 'c, 'x) connection_io \<Rightarrow> ('s, 'c, 'x) new_connection \<Rightarrow> ('s, 'c, 'x) peer2 \<Rightarrow> ('s, 'c, 'x) peer2" where
  "handle_incoming_connection cio conn st = handle_connection2 cio (nc_incoming conn) (nc_connection conn) st"

definition handle_outgoing_connection ::
  "('s, 'c, 'x) connection_io \<Rightarrow> ('s, 'c, 'x) new_connection \<Rightarrow> ('s, 'c, 'x) peer2 \<Rightarrow> ('s, 'c, 'x) peer2" where
  "handle_outgoing_connection cio conn st = handle_connection2 cio (nc_incoming conn) (nc_connection conn) st"

subsection \<open>The runtime\<close>

text \<open>
  A task runs until it waits for the next connection, stream or the end of its input: a task that
  is not finished is spawned again for the rest. An error ends the loop over a connection's streams.
\<close>

fun run_task ::
  "('s, 'e) stream_io \<Rightarrow> ('s, 'c, 'x) connection_io \<Rightarrow> ('s, 'c, 'x) task \<Rightarrow> ('s, 'c, 'x) peer2 \<Rightarrow> ('s, 'c, 'x) peer2 outcome" where
  "run_task io cio (Accept []) st = Inr st"
| "run_task io cio (Accept (conn # rest)) st = Inr (handle_incoming_connection cio conn (spawn (Accept rest) st))"
| "run_task io cio (Bootstrap (Inl e)) st = Inr st"
| "run_task io cio (Bootstrap (Inr conn)) st = Inr (handle_outgoing_connection cio conn st)"
| "run_task io cio (Streams addr []) st = Inr st"
| "run_task io cio (Streams addr (Inl e # rest)) st = Inr st"
| "run_task io cio (Streams addr (Inr stream # rest)) st = read_message addr stream (spawn (Streams addr rest) st)"
| "run_task io cio (Request addr stream) st = request_task io addr stream st"
| "run_task io cio (Greeting c) st = greeting_task io cio c st"

definition without_task :: "nat \<Rightarrow> ('s, 'c, 'x) peer2 \<Rightarrow> ('s, 'c, 'x) peer2" where
  "without_task i st = st\<lparr>p2_tasks := take i (p2_tasks st) @ drop (Suc i) (p2_tasks st)\<rparr>"

inductive p2_step ::
  "('s, 'e) stream_io \<Rightarrow> ('s, 'c, 'x) connection_io \<Rightarrow> ('s, 'c, 'x) peer2 \<Rightarrow> ('s, 'c, 'x) peer2 \<Rightarrow> bool"
  for io :: "('s, 'e) stream_io" and cio :: "('s, 'c, 'x) connection_io" where
  task_runs: "p2_panic st = None \<Longrightarrow> i < length (p2_tasks st) \<Longrightarrow>
    run_task io cio (p2_tasks st ! i) (without_task i st) = Inr st' \<Longrightarrow> p2_step io cio st st'"
| task_panics: "p2_panic st = None \<Longrightarrow> i < length (p2_tasks st) \<Longrightarrow>
    run_task io cio (p2_tasks st ! i) (without_task i st) = Inl p \<Longrightarrow> p2_step io cio st (st\<lparr>p2_panic := Some p\<rparr>)"
| worker_takes: "chan_take (p2_control st) = Some (msg, ch) \<Longrightarrow>
    p2_step io cio st (st\<lparr>p2_control := ch, p2_taken := p2_taken st @ [msg]\<rparr>)"

text \<open>
  \<open>run\<close> up to the point where the driver runs: the certificate, the endpoint, the task that accepts
  connections and the task that connects to the bootstrap peer.
\<close>

definition p2_run_start ::
  "('file, 'key, 'cert, 'x) tls_io \<Rightarrow> ('key, 'cert, 's, 'c, 'x) endpoint_io \<Rightarrow>
   ('s, 'c, 'x) peer2 \<Rightarrow> ('x failure + ('s, 'c, 'x) peer2) outcome" where
  "p2_run_start tls ep st =
     (let opts = p2_options st in
     try_bind (Inr (load_tls_keys tls (key opts) (cert opts))) (\<lambda>(keys, cert_chain).
     res_bind (vec_get keys 0) (\<lambda>key0.
     try_bind (lib (set_certificate ep cert_chain key0)) (\<lambda>_.
     try_bind (lib (bind_endpoint ep (peer_builder opts cert_chain key0) (listen opts))) (\<lambda>conns.
     let st = spawn (Accept conns) st in
     case bootstrap_peer opts of
       None \<Rightarrow> Inr (Inr st)
     | Some bootstrap_addr \<Rightarrow>
         try_bind (lib (connect_with ep bootstrap_addr ''some_peer'')) (\<lambda>attempt.
         Inr (Inr (spawn (Bootstrap attempt) st))))))))"

text \<open>\<open>run\<close> from the point where the driver ends; \<open>quit_result\<close> is what \<open>WorkerHandle::quit\<close> returns.\<close>

definition p2_run_end :: "('key, 'cert, 's, 'c, 'x) endpoint_io \<Rightarrow> ('x + unit) outcome \<Rightarrow> ('x failure + unit) outcome" where
  "p2_run_end ep quit_result =
     try_bind (lib (driver_result ep)) (\<lambda>_.
     try_bind (res_map (map_err Cause) quit_result) (\<lambda>_. Inr (Inr ())))"

subsection \<open>What the tasks owe\<close>

text \<open>The message a request is delivered as, for one that is not too long.\<close>

fun request_on :: "'s stream_view \<Rightarrow> socket_addr \<Rightarrow> 's new_stream \<Rightarrow> (socket_addr \<times> raw_message) multiset" where
  "request_on v addr (Bi s) = (if length (incoming v s) \<le> 65536 then {#(addr, Raw (incoming v s))#} else {#})"
| "request_on v addr (Uni s) = {#}"

definition requests_on :: "'s stream_view \<Rightarrow> socket_addr \<Rightarrow> ('x + 's new_stream) list \<Rightarrow> (socket_addr \<times> raw_message) multiset" where
  "requests_on v addr items = sum_list (map (request_on v addr) (opened items))"

definition conn_requests ::
  "'s stream_view \<Rightarrow> ('s, 'c, 'x) connection_io \<Rightarrow> ('s, 'c, 'x) new_connection \<Rightarrow> (socket_addr \<times> raw_message) multiset" where
  "conn_requests v cio conn = requests_on v (remote_address cio (nc_connection conn)) (nc_incoming conn)"

fun owed :: "'s stream_view \<Rightarrow> ('s, 'c, 'x) connection_io \<Rightarrow> ('s, 'c, 'x) task \<Rightarrow> (socket_addr \<times> raw_message) multiset" where
  "owed v cio (Accept conns) = sum_list (map (conn_requests v cio) conns)"
| "owed v cio (Bootstrap (Inl e)) = {#}"
| "owed v cio (Bootstrap (Inr conn)) = conn_requests v cio conn"
| "owed v cio (Streams addr items) = requests_on v addr items"
| "owed v cio (Request addr s) = request_on v addr (Bi s)"
| "owed v cio (Greeting c) = {#}"

definition account :: "'s stream_view \<Rightarrow> ('s, 'c, 'x) connection_io \<Rightarrow> ('s, 'c, 'x) peer2 \<Rightarrow> (socket_addr \<times> raw_message) multiset" where
  "account v cio st = mset (p2_taken st) + mset (ch_queue (p2_control st)) + sum_list (map (owed v cio) (p2_tasks st))"

text \<open>How many greetings the tasks still send.\<close>

fun greetings :: "('s, 'c, 'x) task \<Rightarrow> nat" where
  "greetings (Accept conns) = length conns"
| "greetings (Bootstrap attempt) = (case attempt of Inl _ \<Rightarrow> 0 | Inr _ \<Rightarrow> 1)"
| "greetings (Greeting c) = 1"
| "greetings _ = 0"

text \<open>
  Connections on which nothing panics: the other side opens bidirectional streams only, and a
  stream can be opened. A task panics in the end exactly if it is not \<open>task_ok\<close>.
\<close>

definition only_bi :: "('x + 's new_stream) list \<Rightarrow> bool" where
  "only_bi items \<longleftrightarrow> (\<forall>s \<in> set (opened items). \<exists>b. s = Bi b)"

definition can_open :: "('s, 'c, 'x) connection_io \<Rightarrow> 'c \<Rightarrow> bool" where
  "can_open cio c \<longleftrightarrow> (\<exists>s. open_bi cio c = Inr s)"

definition conn_ok :: "('s, 'c, 'x) connection_io \<Rightarrow> ('s, 'c, 'x) new_connection \<Rightarrow> bool" where
  "conn_ok cio conn \<longleftrightarrow> only_bi (nc_incoming conn) \<and> can_open cio (nc_connection conn)"

fun task_ok :: "('s, 'c, 'x) connection_io \<Rightarrow> ('s, 'c, 'x) task \<Rightarrow> bool" where
  "task_ok cio (Accept conns) \<longleftrightarrow> (\<forall>conn \<in> set conns. conn_ok cio conn)"
| "task_ok cio (Bootstrap (Inl e)) \<longleftrightarrow> True"
| "task_ok cio (Bootstrap (Inr conn)) \<longleftrightarrow> conn_ok cio conn"
| "task_ok cio (Streams addr items) \<longleftrightarrow> only_bi items"
| "task_ok cio (Request addr s) \<longleftrightarrow> True"
| "task_ok cio (Greeting c) \<longleftrightarrow> can_open cio c"

text \<open>The panics of the tasks: \<open>unreachable!()\<close> and the \<open>expect\<close> on a stream that was not opened.\<close>

definition task_panic :: "panic \<Rightarrow> bool" where
  "task_panic p \<longleftrightarrow> p = Assertion ''internal error: entered unreachable code'' \<or> p = Expectation ''Could not unwrap stream?''"

text \<open>What the library promises of a stream it has just opened: it is not finished.\<close>

definition opens_fresh :: "'s stream_view \<Rightarrow> ('s, 'c, 'x) connection_io \<Rightarrow> bool" where
  "opens_fresh v cio \<longleftrightarrow> (\<forall>c s. open_bi cio c = Inr s \<longrightarrow> \<not> finished v s)"

lemma opened_simps [simp]:
  "requests_on v addr [] = {#}" "requests_on v addr (Inl e # items) = {#}"
  "requests_on v addr (Inr s # items) = request_on v addr s + requests_on v addr items"
  "only_bi []" "only_bi (Inl e # items)" "only_bi (Inr s # items) \<longleftrightarrow> (\<exists>b. s = Bi b) \<and> only_bi items"
  by (simp_all add: requests_on_def only_bi_def)

lemma escaped_eq: "escaped bs = Inr (concat (map escape_default bs))"
proof -
  have "res_fold (\<lambda>b s. let part = escape_default b in
      res_map (\<lambda>str. s @ str) (expect m (from_utf8 part))) bs acc = Inr (acc @ concat (map escape_default bs))" for m acc
    by (induction bs arbitrary: acc) (simp_all add: from_utf8_escape)
  then show ?thesis by (simp add: escaped_def)
qed

text \<open>One turn of a task: the new tasks, and what is kept between it and the state.\<close>

definition turn_ok ::
  "'s stream_view \<Rightarrow> ('s, 'c, 'x) connection_io \<Rightarrow> ('s, 'c, 'x) task \<Rightarrow> ('s, 'c, 'x) peer2 \<Rightarrow> ('s, 'c, 'x) peer2 \<Rightarrow> bool" where
  "turn_ok v cio t st st' \<longleftrightarrow> (\<exists>ts. p2_tasks st' = p2_tasks st @ ts \<and> (list_all (task_ok cio) ts \<longleftrightarrow> task_ok cio t) \<and>
     p2_panic st' = p2_panic st \<and> p2_taken st' = p2_taken st \<and> ch_receiver (p2_control st') \<and>
     mset (ch_queue (p2_control st')) + sum_list (map (owed v cio) ts) = mset (ch_queue (p2_control st)) + owed v cio t \<and>
     length (p2_closed st') + length (ch_queue (p2_control st)) = length (p2_closed st) + length (ch_queue (p2_control st')) \<and>
     length (p2_greeted st') + sum_list (map greetings ts) = length (p2_greeted st) + greetings t)"

lemma turn_okI:
  assumes "p2_tasks st' = p2_tasks st @ ts" "list_all (task_ok cio) ts \<longleftrightarrow> task_ok cio t"
    "p2_panic st' = p2_panic st" "p2_taken st' = p2_taken st" "ch_receiver (p2_control st')"
    "mset (ch_queue (p2_control st')) + sum_list (map (owed v cio) ts) = mset (ch_queue (p2_control st)) + owed v cio t"
    "length (p2_closed st') + length (ch_queue (p2_control st)) = length (p2_closed st) + length (ch_queue (p2_control st'))"
    "length (p2_greeted st') + sum_list (map greetings ts) = length (p2_greeted st) + greetings t"
  shows "turn_ok v cio t st st'"
  using assms unfolding turn_ok_def by blast

lemma request_task_spec:
  assumes laws: "stream_laws io v" and recv: "ch_receiver (p2_control st)"
  shows "\<exists>st'. request_task io addr s st = Inr st' \<and> turn_ok v cio (Request addr s) st st'"
proof (cases "length (incoming v s) \<le> 65536")
  case True
  from stream_read [OF laws, of s 65536] True obtain s1 where s1: "io_read_to_end io 65536 s = Inr (incoming v s, s1)" by auto
  obtain s2 where "io_finish io s1 = Inr s2" using stream_finish [OF laws] by blast
  then show ?thesis
    using True s1 recv by (simp add: request_task_def escaped_eq Let_def) (rule turn_okI [of _ _ "[]"]; simp)
next
  case False
  then obtain e where "io_read_to_end io 65536 s = Inl e" using stream_read_limit [OF laws, of 65536 s] by auto
  then show ?thesis using False recv by (simp add: request_task_def) (rule turn_okI [of _ _ "[]"]; simp)
qed

lemma greeting_task_spec:
  assumes laws: "stream_laws io v" "opens_fresh v cio" and recv: "ch_receiver (p2_control st)"
  shows "case greeting_task io cio c st of Inl p \<Rightarrow> task_panic p \<and> \<not> can_open cio c | Inr st' \<Rightarrow> turn_ok v cio (Greeting c) st st'"
proof (cases "open_bi cio c")
  case (Inl e)
  then show ?thesis by (simp add: greeting_task_def task_panic_def can_open_def)
next
  case (Inr s)
  then have "\<not> finished v s" using laws(2) by (simp add: opens_fresh_def)
  then obtain s1 where "io_write_all io foo_message s = Inr s1" using stream_write [OF laws(1)] by metis
  then show ?thesis
    using Inr recv by (simp add: greeting_task_def) (rule turn_okI [of _ _ "[]"]; simp add: can_open_def)
qed

lemma handle_connection2_spec:
  assumes "ch_receiver (p2_control st)"
  shows "p2_tasks (handle_connection2 cio (nc_incoming conn) (nc_connection conn) st) =
      p2_tasks st @ [Streams (remote_address cio (nc_connection conn)) (nc_incoming conn), Greeting (nc_connection conn)]"
    and "turn_ok v cio (Bootstrap (Inr conn)) st (handle_connection2 cio (nc_incoming conn) (nc_connection conn) st)"
proof -
  show ts: "p2_tasks (handle_connection2 cio (nc_incoming conn) (nc_connection conn) st) =
      p2_tasks st @ [Streams (remote_address cio (nc_connection conn)) (nc_incoming conn), Greeting (nc_connection conn)]"
    by (simp add: handle_connection2_def Let_def spawn_def)
  show "turn_ok v cio (Bootstrap (Inr conn)) st (handle_connection2 cio (nc_incoming conn) (nc_connection conn) st)"
    by (rule turn_okI [OF ts])
      (use assms in \<open>auto simp: handle_connection2_def Let_def spawn_def conn_ok_def conn_requests_def\<close>)
qed

lemma spawned_turn:
  assumes "turn_ok v cio u (spawn t st) st'" and "owed v cio t + owed v cio u = owed v cio w"
    and "greetings t + greetings u = greetings w" and "task_ok cio t \<and> task_ok cio u \<longleftrightarrow> task_ok cio w"
  shows "turn_ok v cio w st st'"
proof -
  from assms(1) obtain ts where ts: "p2_tasks st' = (p2_tasks st @ [t]) @ ts" "list_all (task_ok cio) ts \<longleftrightarrow> task_ok cio u"
    "p2_panic st' = p2_panic st" "p2_taken st' = p2_taken st" "ch_receiver (p2_control st')"
    "mset (ch_queue (p2_control st')) + sum_list (map (owed v cio) ts) = mset (ch_queue (p2_control st)) + owed v cio u"
    "length (p2_closed st') + length (ch_queue (p2_control st)) = length (p2_closed st) + length (ch_queue (p2_control st'))"
    "length (p2_greeted st') + sum_list (map greetings ts) = length (p2_greeted st) + greetings u"
    by (auto simp: turn_ok_def spawn_def)
  show ?thesis
  proof (rule turn_okI [of _ _ "t # ts"])
    show "mset (ch_queue (p2_control st')) + sum_list (map (owed v cio) (t # ts)) = mset (ch_queue (p2_control st)) + owed v cio w"
    proof -
      have "mset (ch_queue (p2_control st')) + sum_list (map (owed v cio) (t # ts)) =
          owed v cio t + (mset (ch_queue (p2_control st')) + sum_list (map (owed v cio) ts))" by (simp add: ac_simps)
      then show ?thesis by (simp only: ts(6) flip: assms(2)) (simp add: ac_simps)
    qed
  qed (use ts assms(3,4) in auto)
qed

text \<open>A turn of any task: it panics only if the task is not well, and is accounted for otherwise.\<close>

lemma run_task_spec:
  assumes "stream_laws io v" and "opens_fresh v cio" and "ch_receiver (p2_control st)"
  shows "case run_task io cio t st of Inl p \<Rightarrow> task_panic p \<and> \<not> task_ok cio t | Inr st' \<Rightarrow> turn_ok v cio t st st'"
  using assms
proof (induction io cio t st rule: run_task.induct)
  case (2 io cio conn rest st)
  have "turn_ok v cio (Bootstrap (Inr conn)) (spawn (Accept rest) st) (handle_incoming_connection cio conn (spawn (Accept rest) st))"
    unfolding handle_incoming_connection_def by (rule handle_connection2_spec) (use 2 in \<open>auto simp: spawn_def\<close>)
  from spawned_turn [OF this, of "Accept (conn # rest)"] show ?case by (auto simp: add.commute)
next
  case (7 io cio addr stream rest st)
  show ?case
  proof (cases stream)
    case (Bi b)
    have "turn_ok v cio (Request addr b) (spawn (Streams addr rest) st) (spawn (Request addr b) (spawn (Streams addr rest) st))"
      by (rule turn_okI [of _ _ "[Request addr b]"]) (use 7 in \<open>auto simp: spawn_def\<close>)
    from spawned_turn [OF this, of "Streams addr (Inr stream # rest)"] show ?thesis
      by (simp add: Bi add.commute)
  qed (simp add: task_panic_def)
next
  case (8 io cio addr stream st)
  from request_task_spec [OF 8(1,3)] obtain st' where "request_task io addr stream st = Inr st'"
    "turn_ok v cio (Request addr stream) st st'" by blast
  then show ?case by simp
next
  case (9 io cio c st)
  from greeting_task_spec [OF 9, of c] show ?case by (simp split: sum.splits)
qed (auto simp: handle_outgoing_connection_def intro: handle_connection2_spec turn_okI [of _ _ "[]"])

subsection \<open>Runs\<close>

text \<open>Whether all tasks are well does not change until one panics; then one of them was not.\<close>

definition p2_inv :: "('s, 'c, 'x) connection_io \<Rightarrow> bool \<Rightarrow> ('s, 'c, 'x) peer2 \<Rightarrow> bool" where
  "p2_inv cio ok st \<longleftrightarrow> ch_receiver (p2_control st) \<and>
     (case p2_panic st of None \<Rightarrow> list_all (task_ok cio) (p2_tasks st) \<longleftrightarrow> ok | Some p \<Rightarrow> task_panic p \<and> \<not> ok)"

text \<open>
  What a run conserves: the requests delivered or owed, the difference of closed streams and
  requests delivered, and the greetings sent or owed.
\<close>

definition ledger ::
  "'s stream_view \<Rightarrow> ('s, 'c, 'x) connection_io \<Rightarrow> ('s, 'c, 'x) peer2 \<Rightarrow> (socket_addr \<times> raw_message) multiset \<times> int \<times> nat" where
  "ledger v cio st = (account v cio st,
     int (length (p2_closed st)) - int (length (p2_taken st) + length (ch_queue (p2_control st))),
     length (p2_greeted st) + sum_list (map greetings (p2_tasks st)))"

lemma without_task_fields [simp]:
  "p2_control (without_task i st) = p2_control st" "p2_taken (without_task i st) = p2_taken st"
  "p2_closed (without_task i st) = p2_closed st" "p2_greeted (without_task i st) = p2_greeted st"
  "p2_panic (without_task i st) = p2_panic st" "p2_connections (without_task i st) = p2_connections st"
  by (simp_all add: without_task_def)

lemma without_task_sum:
  fixes f :: "('s, 'c, 'x) task \<Rightarrow> 'm :: comm_monoid_add"
  assumes "i < length (p2_tasks st)"
  shows "sum_list (map f (p2_tasks st)) = f (p2_tasks st ! i) + sum_list (map f (p2_tasks (without_task i st)))"
proof -
  have "sum_list (map f (p2_tasks st)) = sum_list (map f (take i (p2_tasks st) @ p2_tasks st ! i # drop (Suc i) (p2_tasks st)))"
    using id_take_nth_drop [OF assms] by simp
  then show ?thesis by (simp add: without_task_def ac_simps)
qed

lemma without_task_all:
  assumes "i < length (p2_tasks st)"
  shows "list_all P (p2_tasks st) \<longleftrightarrow> P (p2_tasks st ! i) \<and> list_all P (p2_tasks (without_task i st))"
proof -
  have "list_all P (p2_tasks st) \<longleftrightarrow> list_all P (take i (p2_tasks st) @ p2_tasks st ! i # drop (Suc i) (p2_tasks st))"
    using id_take_nth_drop [OF assms] by simp
  then show ?thesis by (auto simp: without_task_def)
qed

lemma turn_ledger:
  assumes "turn_ok v cio (p2_tasks st ! i) (without_task i st) st'" and "i < length (p2_tasks st)"
  shows "ledger v cio st' = ledger v cio st"
proof -
  from assms(1) obtain ts where ts: "p2_tasks st' = p2_tasks (without_task i st) @ ts" "p2_taken st' = p2_taken st"
    "mset (ch_queue (p2_control st')) + sum_list (map (owed v cio) ts) = mset (ch_queue (p2_control st)) + owed v cio (p2_tasks st ! i)"
    "length (p2_closed st') + length (ch_queue (p2_control st)) = length (p2_closed st) + length (ch_queue (p2_control st'))"
    "length (p2_greeted st') + sum_list (map greetings ts) = length (p2_greeted st) + greetings (p2_tasks st ! i)"
    by (auto simp: turn_ok_def)
  let ?rest = "p2_tasks (without_task i st)"
  have "account v cio st' = mset (p2_taken st) + (mset (ch_queue (p2_control st')) + sum_list (map (owed v cio) ts)) +
      sum_list (map (owed v cio) ?rest)"
    by (simp add: account_def ts(1,2) ac_simps)
  also have "\<dots> = account v cio st"
    by (simp add: ts(3) account_def without_task_sum [OF assms(2), of "owed v cio"] ac_simps)
  finally show ?thesis
    using ts(4,5) by (simp add: ledger_def ts(1,2) without_task_sum [OF assms(2), of greetings])
qed

lemma p2_step_inv:
  assumes "stream_laws io v" and "opens_fresh v cio" and "p2_inv cio ok st" and "p2_step io cio st st'"
  shows "p2_inv cio ok st' \<and> ledger v cio st' = ledger v cio st"
  using assms(4)
proof (cases rule: p2_step.cases)
  case (task_runs i)
  have "ch_receiver (p2_control (without_task i st))" using assms(3) by (simp add: p2_inv_def)
  from run_task_spec [OF assms(1,2) this, of "p2_tasks st ! i"] task_runs(3)
  have turn: "turn_ok v cio (p2_tasks st ! i) (without_task i st) st'" by simp
  then have "p2_inv cio ok st'"
    using assms(3) task_runs(1) without_task_all [OF task_runs(2), of "task_ok cio"] by (auto simp: turn_ok_def p2_inv_def)
  then show ?thesis using turn_ledger [OF turn task_runs(2)] by simp
next
  case (task_panics i p)
  have "ch_receiver (p2_control (without_task i st))" using assms(3) by (simp add: p2_inv_def)
  from run_task_spec [OF assms(1,2) this, of "p2_tasks st ! i"] task_panics(4)
  have "task_panic p" "\<not> task_ok cio (p2_tasks st ! i)" by simp_all
  then show ?thesis
    using assms(3) task_panics(1,2) without_task_all [OF task_panics(3), of "task_ok cio"]
    by (auto simp: p2_inv_def ledger_def account_def)
next
  case (worker_takes msg ch)
  then obtain xs where "ch_queue (p2_control st) = msg # xs" "ch = (p2_control st)\<lparr>ch_queue := xs\<rparr>"
    by (auto simp: chan_take_def chan_try_recv_Inr split: prod.splits sum.splits)
  then show ?thesis using assms(3) worker_takes(1) by (cases "p2_panic st") (simp_all add: p2_inv_def ledger_def account_def)
qed

interpretation p2: inductive_invariant
  "\<lambda>st. stream_laws io v \<and> opens_fresh v cio \<and> p2_inv cio ok st \<and> ledger v cio st = l" "p2_step io cio"
  "\<lambda>st. stream_laws io v \<and> opens_fresh v cio \<and> p2_inv cio ok st \<and> ledger v cio st = l" for io v cio ok l
  by unfold_locales (simp, metis p2_step_inv)

text \<open>A state with nothing to do: the worker has taken everything, and no task is left unless one has panicked.\<close>

lemma p2_stuck:
  assumes "\<And>st'. \<not> p2_step io cio st st'"
  shows "p2_panic st = None \<Longrightarrow> p2_tasks st = []" and "ch_queue (p2_control st) = []"
proof -
  show "p2_tasks st = []" if "p2_panic st = None"
  proof (rule ccontr)
    assume "p2_tasks st \<noteq> []"
    then show False
      using p2_step.task_runs [OF that, of 0 io cio] p2_step.task_panics [OF that, of 0 io cio] assms
      by (cases "run_task io cio (p2_tasks st ! 0) (without_task 0 st)") auto
  qed
  show "ch_queue (p2_control st) = []"
  proof (rule ccontr)
    assume "ch_queue (p2_control st) \<noteq> []"
    then obtain msg ch where "chan_take (p2_control st) = Some (msg, ch)"
      using mpsc.recv_empty [of "p2_control st"] by (metis not_Some_eq surj_pair)
    then show False using p2_step.worker_takes assms by blast
  qed
qed

subsection \<open>Termination\<close>

text \<open>An upper bound on the steps a task gives rise to, the removal of its messages included.\<close>

definition conn_weight :: "('s, 'c, 'x) new_connection \<Rightarrow> nat" where
  "conn_weight conn = 3 + 3 * length (nc_incoming conn)"

fun task_weight :: "('s, 'c, 'x) task \<Rightarrow> nat" where
  "task_weight (Accept conns) = 1 + sum_list (map conn_weight conns)"
| "task_weight (Bootstrap (Inl e)) = 1"
| "task_weight (Bootstrap (Inr conn)) = conn_weight conn"
| "task_weight (Streams addr items) = 1 + 3 * length items"
| "task_weight (Request addr s) = 2"
| "task_weight (Greeting c) = 1"

definition p2_weight :: "('s, 'c, 'x) peer2 \<Rightarrow> nat" where
  "p2_weight st = sum_list (map task_weight (p2_tasks st)) + length (ch_queue (p2_control st)) +
     (if p2_panic st = None then 1 else 0)"

lemma run_task_weight:
  "run_task io cio t st = Inr st' \<Longrightarrow> p2_weight st' < p2_weight st + task_weight t"
proof (induction io cio t st rule: run_task.induct)
  case (7 io cio addr stream rest st)
  then show ?case by (cases stream) (auto simp: p2_weight_def spawn_def)
next
  case (8 io cio addr stream st)
  then show ?case
    by (auto simp: request_task_def p2_weight_def escaped_eq res_bind_Inr_iff Let_def expect_def chan_send_def
        split: sum.splits if_splits)
next
  case (9 io cio c st)
  then show ?case by (auto simp: greeting_task_def p2_weight_def expect_def split: sum.splits)
qed (auto simp: p2_weight_def handle_incoming_connection_def handle_outgoing_connection_def handle_connection2_def
    spawn_def Let_def conn_weight_def)

lemma p2_step_weight: "p2_step io cio st st' \<Longrightarrow> p2_weight st' < p2_weight st"
proof (induction rule: p2_step.induct)
  case (task_runs st i st')
  then show ?case
    using run_task_weight [OF task_runs(3)] without_task_sum [OF task_runs(2), of task_weight] by (simp add: p2_weight_def)
next
  case (worker_takes st msg ch)
  then show ?case by (auto simp: p2_weight_def chan_take_def chan_try_recv_Inr split: prod.splits sum.splits)
qed (simp add: p2_weight_def)

lemma p2_run_weight: "(p2_step io cio ^^ n) st st' \<Longrightarrow> n + p2_weight st' \<le> p2_weight st"
proof (induction n arbitrary: st')
  case (Suc n)
  then obtain st1 where "(p2_step io cio ^^ n) st st1" "p2_step io cio st1 st'" by auto
  then show ?case using Suc.IH p2_step_weight by fastforce
qed simp

subsection \<open>The connection table\<close>

fun task_addrs :: "('s, 'c, 'x) connection_io \<Rightarrow> ('s, 'c, 'x) task \<Rightarrow> socket_addr set" where
  "task_addrs cio (Accept conns) = (remote_address cio \<circ> nc_connection) ` set conns"
| "task_addrs cio (Bootstrap (Inr conn)) = {remote_address cio (nc_connection conn)}"
| "task_addrs cio _ = {}"

text \<open>
  Every entry stands under the address of its connection, and the addresses in the table and those
  of the connections still to come are together always the same.
\<close>

definition table_ok :: "('s, 'c, 'x) connection_io \<Rightarrow> socket_addr set \<Rightarrow> ('s, 'c, 'x) peer2 \<Rightarrow> bool" where
  "table_ok cio A st \<longleftrightarrow> (\<forall>a c. hm_get (p2_connections st) a = Some c \<longrightarrow> remote_address cio c = a) \<and>
     dom (hm_get (p2_connections st)) \<union> \<Union> (task_addrs cio ` set (p2_tasks st)) = A"

lemma run_task_table:
  "run_task io cio t st = Inr st' \<Longrightarrow> table_ok cio A (spawn t st) \<Longrightarrow> table_ok cio A st'"
proof (induction io cio t st rule: run_task.induct)
  case (7 io cio addr stream rest st)
  then show ?case by (cases stream) (auto simp: table_ok_def spawn_def)
next
  case (8 io cio addr stream st)
  then show ?case
    by (auto simp: request_task_def table_ok_def spawn_def escaped_eq expect_def Let_def split: sum.split_asm)
next
  case (9 io cio c st)
  then show ?case by (auto simp: greeting_task_def table_ok_def spawn_def expect_def split: sum.split_asm)
qed (auto simp: table_ok_def handle_incoming_connection_def handle_outgoing_connection_def handle_connection2_def
    spawn_def Let_def split: if_splits)

lemma p2_step_table: "p2_step io cio st st' \<Longrightarrow> table_ok cio A st \<Longrightarrow> table_ok cio A st'"
proof (induction rule: p2_step.induct)
  case (task_runs st i st')
  have "set (p2_tasks st) = insert (p2_tasks st ! i) (set (p2_tasks (without_task i st)))"
    using arg_cong [OF id_take_nth_drop [OF task_runs(2)], of set] by (simp add: without_task_def)
  then have "table_ok cio A (spawn (p2_tasks st ! i) (without_task i st))"
    using task_runs(4) by (simp add: table_ok_def spawn_def)
  then show ?case using run_task_table [OF task_runs(3)] by simp
qed (simp_all add: table_ok_def)

interpretation p2_table: inductive_invariant "table_ok cio A" "p2_step io cio" "table_ok cio A" for io cio A
  by unfold_locales (simp, metis p2_step_table)

subsection \<open>Starting the peer\<close>

text \<open>The connections that are established: those accepted, and the one to the bootstrap peer.\<close>

definition p2_established ::
  "('file, 'key, 'cert, 'x) tls_io \<Rightarrow> ('key, 'cert, 's, 'c, 'x) endpoint_io \<Rightarrow> socket_addr peer_opt \<Rightarrow> ('s, 'c, 'x) new_connection list" where
  "p2_established tls ep opts =
     (case load_tls_keys tls (key opts) (cert opts) of
        Inr (k # ks, cs) \<Rightarrow> (case bind_endpoint ep (peer_builder opts cs k) (listen opts) of Inl _ \<Rightarrow> [] | Inr conns \<Rightarrow> conns)
      | _ \<Rightarrow> []) @
     (case bootstrap_peer opts of
        None \<Rightarrow> []
      | Some a \<Rightarrow> (case connect_with ep a ''some_peer'' of Inr (Inr conn) \<Rightarrow> [conn] | _ \<Rightarrow> []))"

lemma p2_run_start_ok:
  assumes "p2_run_start tls ep st0 = Inr (Inr st)"
  obtains k ks cs conns where "load_tls_keys tls (key (p2_options st0)) (cert (p2_options st0)) = Inr (k # ks, cs)"
    and "bind_endpoint ep (peer_builder (p2_options st0) cs k) (listen (p2_options st0)) = Inr conns"
    and "bootstrap_peer (p2_options st0) = None" and "st = spawn (Accept conns) st0"
  | k ks cs conns a attempt where "load_tls_keys tls (key (p2_options st0)) (cert (p2_options st0)) = Inr (k # ks, cs)"
    and "bind_endpoint ep (peer_builder (p2_options st0) cs k) (listen (p2_options st0)) = Inr conns"
    and "bootstrap_peer (p2_options st0) = Some a" and "connect_with ep a ''some_peer'' = Inr attempt"
    and "st = spawn (Bootstrap attempt) (spawn (Accept conns) st0)"
  using assms
  by (cases "bootstrap_peer (p2_options st0)")
    (auto simp: p2_run_start_def try_bind_Inr_iff res_bind_Inr_iff vec_get_0_Inr Let_def)

lemma p2_started:
  assumes "peer2_new opts runtime order = Inr st0" and "p2_run_start tls ep st0 = Inr (Inr st)"
  shows "p2_inv cio (list_all (conn_ok cio) (p2_established tls ep opts)) st"
    and "ledger v cio st = (sum_list (map (conn_requests v cio) (p2_established tls ep opts)), 0, length (p2_established tls ep opts))"
    and "p2_weight st \<le> 3 + sum_list (map conn_weight (p2_established tls ep opts))"
    and "table_ok cio ((remote_address cio \<circ> nc_connection) ` set (p2_established tls ep opts)) st"
proof -
  have st0: "st0 = \<lparr>p2_options = opts, p2_connections = hm_new order, p2_control = chan_new, p2_taken = [], p2_closed = [],
      p2_greeted = [], p2_tasks = [], p2_panic = None\<rparr>"
    using assms(1) by (auto simp: peer2_new_def res_map_Inr_iff)
  note defs = p2_inv_def list_all_iff ledger_def account_def p2_weight_def p2_established_def table_ok_def st0 spawn_def chan_new_def
  have task: "task_ok cio (Bootstrap attempt) \<longleftrightarrow> (\<forall>conn. attempt = Inr conn \<longrightarrow> conn_ok cio conn)" for attempt
    by (cases attempt) auto
  show "p2_inv cio (list_all (conn_ok cio) (p2_established tls ep opts)) st"
    by (rule p2_run_start_ok [OF assms(2)]) (auto simp: defs task split: sum.splits)
  show "ledger v cio st = (sum_list (map (conn_requests v cio) (p2_established tls ep opts)), 0, length (p2_established tls ep opts))"
    by (rule p2_run_start_ok [OF assms(2)]) (auto simp: defs split: sum.splits)
  show "p2_weight st \<le> 3 + sum_list (map conn_weight (p2_established tls ep opts))"
    by (rule p2_run_start_ok [OF assms(2)]) (auto simp: defs split: sum.splits)
  have addrs: "task_addrs cio (Bootstrap attempt) = (remote_address cio \<circ> nc_connection) ` {conn. Inr conn = attempt}" for attempt
    by (cases attempt) auto
  show "table_ok cio ((remote_address cio \<circ> nc_connection) ` set (p2_established tls ep opts)) st"
    by (rule p2_run_start_ok [OF assms(2)]) (auto simp: defs addrs split: sum.splits)
qed

lemma p2_reaches_end: "\<exists>st'. (p2_step io cio)\<^sup>*\<^sup>* st st' \<and> \<not> (\<exists>st''. p2_step io cio st' st'')"
  using bounded_run_ends [of "p2_step io cio" st "p2_weight st"] p2_run_weight
  by (metis add_leD2 relpowp_imp_rtranclp add.commute)

subsection \<open>A concrete peer\<close>

definition sample_cio :: "(pipe, u32, unit) connection_io" where
  "sample_cio = \<lparr>open_uni = (\<lambda>_. Inl ()), open_bi = (\<lambda>_. Inr \<lparr>p_in = [], p_out = [], p_fin = False\<rparr>), remote_address = (\<lambda>ip. V4 ip 4433)\<rparr>"

definition sample_conn :: "u32 \<Rightarrow> u8 list \<Rightarrow> (pipe, u32, unit) new_connection" where
  "sample_conn ip req = \<lparr>nc_connection = ip, nc_incoming = [Inr (Bi \<lparr>p_in = req, p_out = [], p_fin = False\<rparr>), Inl ()]\<rparr>"

definition sample_ep :: "(unit, unit, pipe, u32, unit) endpoint_io" where
  "sample_ep = \<lparr>set_certificate = (\<lambda>_ _. Inr ()), bind_endpoint = (\<lambda>_ _. Inr [sample_conn 7 [1, 2]]),
     connect_with = (\<lambda>_ _. Inr (Inl ())), driver_result = Inr ()\<rparr>"

definition sample_opts :: "socket_addr peer_opt" where
  "sample_opts = \<lparr>bootstrap_peer = Some (V4 9 9), listen = V4 0 4433, ca = None, key = ''server.rsa'', cert = ''server.chain'',
     logproto = False\<rparr>"

lemma sample_established: "p2_established (sample_tls 2) sample_ep sample_opts = [sample_conn 7 [1, 2]]"
  by (simp add: p2_established_def load_tls_keys_def sample_tls_def sample_ep_def sample_opts_def numeral_2_eq_2)

lemma sample_conn_ok: "conn_ok sample_cio (sample_conn ip req)" "opens_fresh pipe_view sample_cio"
  by (simp_all add: conn_ok_def sample_conn_def can_open_def sample_cio_def opens_fresh_def pipe_view_def)

text \<open>The same connections, on which no stream can be opened.\<close>

definition lost_cio :: "(pipe, u32, unit) connection_io" where
  "lost_cio = sample_cio\<lparr>open_bi := (\<lambda>_. Inl ())\<rparr>"

lemma lost_conn: "\<not> conn_ok lost_cio (sample_conn ip req)" "opens_fresh pipe_view lost_cio"
  by (simp_all add: conn_ok_def can_open_def lost_cio_def opens_fresh_def)

lemma sample_starts:
  obtains st0 st where "peer2_new sample_opts (Inr () :: unit + unit) (\<lambda>as. as) = Inr st0"
    and "p2_run_start (sample_tls 2) sample_ep st0 = Inr (Inr st)"
proof -
  obtain st0 where st0: "peer2_new sample_opts (Inr () :: unit + unit) (\<lambda>as. as) = Inr (st0 :: (pipe, u32, unit) peer2)" by (simp add: peer2_new_def)
  have "\<exists>st. p2_run_start (sample_tls 2) sample_ep st0 = Inr (Inr st)"
    using st0 by (auto simp: peer2_new_def p2_run_start_def load_tls_keys_def sample_tls_def sample_ep_def sample_opts_def
        numeral_2_eq_2 Let_def)
  then show ?thesis using that st0 by blast
qed

subsection \<open>Properties\<close>

text \<open>
  The escaped text of a request is always produced, is plain ASCII and determines the bytes:
  reading it back gives them.
\<close>

theorem escaped_roundtrip:
  "\<exists>s. escaped bs = Inr s \<and> set s \<subseteq> {..<0x80} \<and> unescape s = Some bs"
  by (auto simp: escaped_eq unescape_concat escape_ascii)

text \<open>
  C11. Requests of the second peer, over streams that work, however the tasks and the worker
  interleave. Nothing is delivered that was not asked: what the worker has taken is always among the
  requests of at most 64 KiB on the streams opened before a connection's first error, each at most
  once and with the address of its connection. A task panics only with one of two messages and only
  if on some connection the other side opens a unidirectional stream or no stream can be opened for
  the greeting; once there is nothing left to do, a task has panicked exactly in that case. If none
  has, the worker has then taken all of these requests, as many streams have been closed, and every
  connection was sent its greeting.
\<close>

theorem second_peer_delivers:
  assumes "stream_laws io v" and "opens_fresh v cio" and "peer2_new opts runtime order = Inr st0"
    and "p2_run_start tls ep st0 = Inr (Inr st)" and "(p2_step io cio)\<^sup>*\<^sup>* st st'"
  shows "mset (p2_taken st') \<subseteq># sum_list (map (conn_requests v cio) (p2_established tls ep opts)) \<and>
    (\<forall>p. p2_panic st' = Some p \<longrightarrow> task_panic p \<and> (\<exists>conn \<in> set (p2_established tls ep opts). \<not> conn_ok cio conn)) \<and>
    (\<not> (\<exists>st''. p2_step io cio st' st'') \<longrightarrow>
      (p2_panic st' = None \<longleftrightarrow> (\<forall>conn \<in> set (p2_established tls ep opts). conn_ok cio conn)) \<and>
      (p2_panic st' = None \<longrightarrow>
        mset (p2_taken st') = sum_list (map (conn_requests v cio) (p2_established tls ep opts)) \<and>
        length (p2_closed st') = length (p2_taken st') \<and> length (p2_greeted st') = length (p2_established tls ep opts)))"
proof -
  let ?conns = "p2_established tls ep opts"
  note start = p2_started [OF assms(3,4)]
  have inv: "p2_inv cio (list_all (conn_ok cio) ?conns) st'" "ledger v cio st' = ledger v cio st"
    using p2.inv_steps [OF _ assms(5), of v "list_all (conn_ok cio) ?conns" "ledger v cio st"] assms(1,2) start(1) by simp_all
  have led: "mset (p2_taken st') + mset (ch_queue (p2_control st')) + sum_list (map (owed v cio) (p2_tasks st')) =
      sum_list (map (conn_requests v cio) ?conns)"
    "length (p2_closed st') = length (p2_taken st') + length (ch_queue (p2_control st'))"
    "length (p2_greeted st') + sum_list (map greetings (p2_tasks st')) = length ?conns"
    using trans [OF inv(2) start(2)] unfolding ledger_def account_def prod.inject by simp_all
  have sub: "mset (p2_taken st') \<subseteq># sum_list (map (conn_requests v cio) ?conns)"
    unfolding led(1) [symmetric] by (simp add: add.assoc)
  have panic: "\<forall>p. p2_panic st' = Some p \<longrightarrow> task_panic p \<and> (\<exists>conn \<in> set ?conns. \<not> conn_ok cio conn)"
    using inv(1) by (auto simp: p2_inv_def list_all_iff)
  show ?thesis
  proof (cases "\<exists>st''. p2_step io cio st' st''")
    case False
    then have stuck: "p2_panic st' = None \<Longrightarrow> p2_tasks st' = []" "ch_queue (p2_control st') = []" using p2_stuck by blast+
    have "p2_panic st' = None \<longleftrightarrow> (\<forall>conn \<in> set ?conns. conn_ok cio conn)"
      using inv(1) stuck(1) panic by (cases "p2_panic st'") (auto simp: p2_inv_def list_all_iff)
    moreover have "mset (p2_taken st') = sum_list (map (conn_requests v cio) ?conns) \<and>
        length (p2_closed st') = length (p2_taken st') \<and> length (p2_greeted st') = length ?conns" if "p2_panic st' = None"
      using led stuck(1) [OF that] stuck(2) by simp
    ultimately show ?thesis using sub panic by blast
  qed (use sub panic in simp)
qed

theorem second_peer_delivers_witness:
  "\<exists>st0 st st' lost. peer2_new sample_opts (Inr () :: unit + unit) (\<lambda>as. as) = Inr st0 \<and>
     p2_run_start (sample_tls 2) sample_ep st0 = Inr (Inr st) \<and>
     (p2_step pipe_io sample_cio)\<^sup>*\<^sup>* st st' \<and> p2_panic st' = None \<and> p2_taken st' = [(V4 7 4433, Raw [1, 2])] \<and>
     (p2_step pipe_io lost_cio)\<^sup>*\<^sup>* st lost \<and> p2_panic lost \<noteq> None"
proof -
  obtain st0 st where st: "peer2_new sample_opts (Inr () :: unit + unit) (\<lambda>as. as) = Inr st0"
    "p2_run_start (sample_tls 2) sample_ep st0 = Inr (Inr st)" by (rule sample_starts)
  obtain st' where st': "(p2_step pipe_io sample_cio)\<^sup>*\<^sup>* st st'" "\<not> (\<exists>st''. p2_step pipe_io sample_cio st' st'')"
    using p2_reaches_end by blast
  from second_peer_delivers [OF pipe_laws sample_conn_ok(2) st st'(1)] st'(2)
  have good: "p2_panic st' = None" "mset (p2_taken st') = {#(V4 7 4433, Raw [1, 2])#}"
    by (simp_all add: sample_established sample_conn_ok conn_requests_def) (simp add: sample_conn_def sample_cio_def pipe_view_def)
  obtain lost where lost: "(p2_step pipe_io lost_cio)\<^sup>*\<^sup>* st lost" "\<not> (\<exists>st''. p2_step pipe_io lost_cio lost st'')"
    using p2_reaches_end by blast
  from second_peer_delivers [OF pipe_laws lost_conn(2) st lost(1)] lost(2)
  have "p2_panic lost \<noteq> None" by (auto simp: sample_established lost_conn)
  then show ?thesis using st st'(1) lost(1) good by auto
qed

text \<open>
  C15. The second peer always comes to rest: from its start at most three steps, and three for every
  connection and every stream on it, happen, whatever the library does and also if a task panics.
\<close>

theorem second_peer_terminates:
  assumes "peer2_new opts runtime order = Inr st0" and "p2_run_start tls ep st0 = Inr (Inr st)"
    and "(p2_step io cio ^^ n) st st'"
  shows "n \<le> 3 + sum_list (map (\<lambda>conn. 3 + 3 * length (nc_incoming conn)) (p2_established tls ep opts))"
  using p2_run_weight [OF assms(3)] p2_started(3) [OF assms(1,2)] unfolding conn_weight_def [abs_def] by linarith

theorem second_peer_terminates_witness:
  "\<exists>st0 st. peer2_new sample_opts (Inr () :: unit + unit) (\<lambda>as. as) = Inr st0 \<and>
     p2_run_start (sample_tls 2) sample_ep st0 = Inr (Inr st) \<and>
     \<not> (\<exists>st'. (p2_step pipe_io sample_cio ^^ 13) st st')"
proof -
  obtain st0 st where st: "peer2_new sample_opts (Inr () :: unit + unit) (\<lambda>as. as) = Inr st0"
    "p2_run_start (sample_tls 2) sample_ep st0 = Inr (Inr st)" by (rule sample_starts)
  show ?thesis using second_peer_terminates [OF st, where n = 13] st by (force simp: sample_established sample_conn_def)
qed

text \<open>
  The connection table: a connection always stands under its own remote address, and once no
  task is left the table has an entry for exactly the addresses of the established connections.
\<close>

theorem second_peer_table:
  assumes "peer2_new opts runtime order = Inr st0" and "p2_run_start tls ep st0 = Inr (Inr st)"
    and "(p2_step io cio)\<^sup>*\<^sup>* st st'"
  shows "(\<forall>a c. hm_get (p2_connections st') a = Some c \<longrightarrow> remote_address cio c = a) \<and>
    (p2_tasks st' = [] \<longrightarrow>
      dom (hm_get (p2_connections st')) = (\<lambda>conn. remote_address cio (nc_connection conn)) ` set (p2_established tls ep opts))"
  using p2_table.inv_steps [OF p2_started(4) [OF assms(1,2)] assms(3)] by (auto simp: table_ok_def comp_def)

theorem second_peer_table_witness:
  "\<exists>st0 st. peer2_new sample_opts (Inr () :: unit + unit) (\<lambda>as. as) = Inr st0 \<and>
     p2_run_start (sample_tls 2) sample_ep st0 = Inr (Inr st) \<and>
     (\<exists>st'. (p2_step pipe_io sample_cio)\<^sup>*\<^sup>* st st' \<and> dom (hm_get (p2_connections st')) = {V4 7 4433})"
proof -
  obtain st0 st where st: "peer2_new sample_opts (Inr () :: unit + unit) (\<lambda>as. as) = Inr st0"
    "p2_run_start (sample_tls 2) sample_ep st0 = Inr (Inr st)" by (rule sample_starts)
  obtain st' where st': "(p2_step pipe_io sample_cio)\<^sup>*\<^sup>* st st'" "\<not> (\<exists>st''. p2_step pipe_io sample_cio st' st'')"
    using p2_reaches_end by blast
  have "p2_inv sample_cio True st"
    using p2_started(1) [OF st, of sample_cio] by (simp add: sample_established sample_conn_ok)
  then have "p2_inv sample_cio True st'"
    using p2.inv_steps [OF _ st'(1), of pipe_view True "ledger pipe_view sample_cio st"] pipe_laws sample_conn_ok(2) by simp
  then have "p2_tasks st' = []" using p2_stuck [of pipe_io sample_cio st'] st'(2) by (cases "p2_panic st'") (auto simp: p2_inv_def)
  then have "dom (hm_get (p2_connections st')) = {V4 7 4433}"
    using second_peer_table [OF st st'(1)] by (simp add: sample_established sample_conn_def sample_cio_def)
  then show ?thesis using st st'(1) by blast
qed

text \<open>
  C38. Starting the second peer: it panics exactly when both PEM files can be read and the key file
  holds no RSA key; it gets to running the driver exactly when there is a key, the certificate is
  accepted, the address can be bound, and a connection to the bootstrap peer can be begun if
  there is one. In every other case it returns an error.
\<close>

theorem second_peer_start_iff:
  "(p2_run_start tls ep st = Inl p \<longleftrightarrow>
      p = IndexOutOfBounds 0 0 \<and> (\<exists>cs. tls_files tls (key (p2_options st)) (cert (p2_options st)) [] cs)) \<and>
   ((\<exists>st'. p2_run_start tls ep st = Inr (Inr st')) \<longleftrightarrow>
      (\<exists>k ks cs conns. tls_files tls (key (p2_options st)) (cert (p2_options st)) (k # ks) cs \<and> set_certificate ep cs k = Inr () \<and>
         bind_endpoint ep (peer_builder (p2_options st) cs k) (listen (p2_options st)) = Inr conns \<and>
         (case bootstrap_peer (p2_options st) of None \<Rightarrow> True | Some a \<Rightarrow> \<exists>attempt. connect_with ep a ''some_peer'' = Inr attempt)))"
proof
  show "p2_run_start tls ep st = Inl p \<longleftrightarrow>
      p = IndexOutOfBounds 0 0 \<and> (\<exists>cs. tls_files tls (key (p2_options st)) (cert (p2_options st)) [] cs)"
    by (cases "bootstrap_peer (p2_options st)")
      (auto simp: p2_run_start_def try_bind_Inl_iff res_bind_Inl_iff Let_def vec_get_0_Inl load_tls_keys_iff)
  show "(\<exists>st'. p2_run_start tls ep st = Inr (Inr st')) \<longleftrightarrow>
      (\<exists>k ks cs conns. tls_files tls (key (p2_options st)) (cert (p2_options st)) (k # ks) cs \<and> set_certificate ep cs k = Inr () \<and>
         bind_endpoint ep (peer_builder (p2_options st) cs k) (listen (p2_options st)) = Inr conns \<and>
         (case bootstrap_peer (p2_options st) of None \<Rightarrow> True | Some a \<Rightarrow> \<exists>attempt. connect_with ep a ''some_peer'' = Inr attempt))"
    by (cases "bootstrap_peer (p2_options st)")
      (auto simp: p2_run_start_def try_bind_Inr_iff res_bind_Inr_iff Let_def vec_get_0_Inr load_tls_keys_iff; blast)+
qed

end
