(* ===== verification/Test_Stream.thy ===== *)
theory Test_Stream
  imports Std_Mpsc "HOL-Library.Sublist"
begin

text \<open>
  The model of \<open>src/src/connection_tests.rs\<close>: a pair of streams connected by two channels of bytes,
  made to test the code that talks over a connection, and the tests of the pair itself. The
  channels are shared by the two streams, so they live in a store and a stream holds the indices of
  the two channels it sends to and receives from.
\<close>

subsection \<open>The streams\<close>

type_synonym channels = "u8 chan list"

record test_stream =
  send_stream :: nat
  recv_stream :: nat

definition new_pair :: "channels \<Rightarrow> (test_stream \<times> test_stream) \<times> channels" where
  "new_pair chs =
     (let c1 = length chs; chs = chs @ [chan_new]; c2 = length chs; chs = chs @ [chan_new];
          stream1 = \<lparr>send_stream = c1, recv_stream = c2\<rparr>;
          stream2 = \<lparr>send_stream = c2, recv_stream = c1\<rparr>
      in ((stream1, stream2), chs))"

text \<open>A stream goes out of scope: its sender and its receiver are dropped.\<close>

definition drop_stream :: "test_stream \<Rightarrow> channels \<Rightarrow> channels" where
  "drop_stream s chs =
     (let chs = chs[send_stream s := drop_sender (chs ! send_stream s)]
      in chs[recv_stream s := drop_receiver (chs ! recv_stream s)])"

text \<open>\<open>futures::Async\<close> and \<open>io::Error\<close> with its kind, of which only one is made.\<close>

datatype 'a async = Ready 'a | NotReady

datatype io_error = NotConnected string

datatype read_error = Read_Finished

subsection \<open>Writing\<close>

text \<open>The loop that sends a buffer, byte by byte.\<close>

definition send_bytes :: "test_stream \<Rightarrow> u8 list \<Rightarrow> channels \<Rightarrow> channels outcome" where
  "send_bytes s buf chs =
     res_fold (\<lambda>b chs. res_map (\<lambda>ch. chs[send_stream s := ch])
       (expect ''Could not send byte'' (chan_send b (chs ! send_stream s)))) buf chs"

definition quinn_poll_write :: "test_stream \<Rightarrow> u8 list \<Rightarrow> channels \<Rightarrow> (('e + nat async) \<times> channels) outcome" where
  "quinn_poll_write s buf chs = res_map (\<lambda>chs. (Inr (Ready (length buf)), chs)) (send_bytes s buf chs)"

definition poll_finish :: "test_stream \<Rightarrow> channels \<Rightarrow> ('e + unit async) \<times> channels" where
  "poll_finish s chs = (Inr (Ready ()), chs)"

definition stream_reset :: "test_stream \<Rightarrow> u16 \<Rightarrow> channels \<Rightarrow> channels" where
  "stream_reset s error_code chs = chs"

definition stream_write :: "test_stream \<Rightarrow> u8 list \<Rightarrow> channels \<Rightarrow> ((io_error + nat) \<times> channels) outcome" where
  "stream_write s buf chs = res_map (\<lambda>chs. (Inr (length buf), chs)) (send_bytes s buf chs)"

definition stream_flush :: "test_stream \<Rightarrow> channels \<Rightarrow> (io_error + unit) \<times> channels" where
  "stream_flush s chs = (Inr (), chs)"

definition stream_shutdown :: "test_stream \<Rightarrow> channels \<Rightarrow> (io_error + unit async) \<times> channels" where
  "stream_shutdown s chs = (Inr (Ready ()), chs)"

subsection \<open>Reading\<close>

text \<open>The loop of \<open>read\<close> over the indices of the buffer; the result, the buffer and the channels.\<close>

fun read_loop :: "test_stream \<Rightarrow> nat list \<Rightarrow> u8 list \<Rightarrow> channels \<Rightarrow> ((io_error + nat) \<times> u8 list \<times> channels) outcome" where
  "read_loop s [] buf chs = Inr (Inr (length buf), buf, chs)"
| "read_loop s (i # is) buf chs =
     (case chan_try_recv (chs ! recv_stream s) of
        (Inr b, ch) \<Rightarrow> res_bind (vec_set buf i b) (\<lambda>buf. read_loop s is buf (chs[recv_stream s := ch]))
      | (Inl Empty, ch) \<Rightarrow> Inr (Inr i, buf, chs[recv_stream s := ch])
      | (Inl Disconnected, ch) \<Rightarrow> Inr (Inl (NotConnected ''Channel closed''), buf, chs[recv_stream s := ch]))"

definition stream_read :: "test_stream \<Rightarrow> u8 list \<Rightarrow> channels \<Rightarrow> ((io_error + nat) \<times> u8 list \<times> channels) outcome" where
  "stream_read s buf chs = (if length buf = 0 then Inr (Inr 0, buf, chs) else read_loop s [0..<length buf] buf chs)"

definition quinn_poll_read :: "test_stream \<Rightarrow> u8 list \<Rightarrow> channels \<Rightarrow> ((read_error + nat async) \<times> u8 list \<times> channels) outcome" where
  "quinn_poll_read s buf chs =
     res_map (\<lambda>(r, buf, chs). (case r of Inl _ \<Rightarrow> Inl Read_Finished | Inr res \<Rightarrow> Inr (Ready res), buf, chs)) (stream_read s buf chs)"

definition poll_read_unordered :: "test_stream \<Rightarrow> channels \<Rightarrow> ((read_error + (u8 list \<times> u64) async) \<times> channels) outcome" where
  "poll_read_unordered s chs =
     (let buf = [] in
      res_map (\<lambda>(r, buf, chs).
          (case r of Inl e \<Rightarrow> Inl e | Inr (Ready _) \<Rightarrow> Inr (Ready (buf, 0)) | Inr NotReady \<Rightarrow> Inr NotReady, chs))
        (quinn_poll_read s buf chs))"

definition stream_stop :: "test_stream \<Rightarrow> u16 \<Rightarrow> channels \<Rightarrow> channels" where
  "stream_stop s error_code chs = chs"

subsection \<open>The tests\<close>

definition test_msg :: "u8 list" where
  "test_msg = [0x46, 0x6F, 0x6F, 0x21]"

definition test_io_read_write :: "unit outcome" where
  "test_io_read_write =
     (let ((s1, s2), chs) = new_pair []; msg = test_msg in
      res_bind (stream_write s1 msg chs) (\<lambda>(r, chs).
      res_bind (unwrap r) (\<lambda>sent_bytes.
      res_bind (assert_eq sent_bytes (length msg)) (\<lambda>_.
      let (r, chs) = stream_flush s1 chs in
      res_bind (unwrap r) (\<lambda>_.
      let recv_buf = replicate 4 0 in
      res_bind (stream_read s2 recv_buf chs) (\<lambda>(r, recv_buf, chs).
      res_bind (unwrap r) (\<lambda>received_bytes.
      res_bind (assert_eq received_bytes (length msg)) (\<lambda>_.
      res_bind (assert_eq recv_buf msg) (\<lambda>_.
      res_bind (stream_read s2 recv_buf chs) (\<lambda>(r, recv_buf, chs).
      res_bind (unwrap r) (\<lambda>received_bytes.
      assert_eq received_bytes 0)))))))))))"

text \<open>
  The default methods of \<open>AsyncWrite\<close> and \<open>AsyncRead\<close>, which turn the result of \<open>write\<close>, \<open>flush\<close> and
  \<open>read\<close> into an \<open>Async\<close>, are code of the crate \<open>tokio_io\<close> and arguments.
\<close>

record async_defaults =
  async_usize :: "io_error + nat \<Rightarrow> io_error + nat async"
  async_unit :: "io_error + unit \<Rightarrow> io_error + unit async"

definition test_async_io_read_write :: "async_defaults \<Rightarrow> unit outcome" where
  "test_async_io_read_write d =
     (let ((s1, s2), chs) = new_pair []; msg = test_msg in
      res_bind (stream_write s1 msg chs) (\<lambda>(r, chs).
      res_bind (unwrap (async_usize d r)) (\<lambda>sent_bytes.
      res_bind (assert_eq sent_bytes (Ready (length msg))) (\<lambda>_.
      let (r, chs) = stream_flush s1 chs in
      res_bind (unwrap (async_unit d r)) (\<lambda>_.
      let recv_buf = replicate 4 0 in
      res_bind (stream_read s2 recv_buf chs) (\<lambda>(r, recv_buf, chs).
      res_bind (unwrap (async_usize d r)) (\<lambda>received_bytes.
      res_bind (assert_eq received_bytes (Ready (length msg))) (\<lambda>_.
      res_bind (assert_eq recv_buf msg) (\<lambda>_.
      res_bind (stream_read s2 recv_buf chs) (\<lambda>(r, recv_buf, chs).
      res_bind (unwrap (async_usize d r)) (\<lambda>received_bytes.
      assert_eq received_bytes (Ready 0))))))))))))"

definition test_quinn_io_read_write :: "unit outcome" where
  "test_quinn_io_read_write =
     (let ((s1, s2), chs) = new_pair []; msg = test_msg in
      res_bind (quinn_poll_write s1 msg chs :: ((unit + nat async) \<times> channels) outcome) (\<lambda>(r, chs).
      res_bind (unwrap r) (\<lambda>sent_bytes.
      res_bind (assert_eq sent_bytes (Ready (length msg))) (\<lambda>_.
      let recv_buf = replicate 4 0 in
      res_bind (quinn_poll_read s2 recv_buf chs) (\<lambda>(r, recv_buf, chs).
      res_bind (unwrap r) (\<lambda>received_bytes.
      res_bind (assert_eq received_bytes (Ready (length msg))) (\<lambda>_.
      res_bind (assert_eq recv_buf msg) (\<lambda>_.
      res_bind (quinn_poll_read s2 recv_buf chs) (\<lambda>(r, recv_buf, chs).
      res_bind (unwrap r) (\<lambda>received_bytes.
      assert_eq received_bytes (Ready 0)))))))))))"

subsection \<open>What the operations do to a channel\<close>

text \<open>The channels a stream uses exist and are not the same.\<close>

definition stream_ok :: "test_stream \<Rightarrow> channels \<Rightarrow> bool" where
  "stream_ok s chs \<longleftrightarrow> send_stream s < length chs \<and> recv_stream s < length chs \<and> send_stream s \<noteq> recv_stream s"

lemma send_bytes_open:
  "send_stream s < length chs \<Longrightarrow> ch_receiver (chs ! send_stream s) \<Longrightarrow>
   send_bytes s buf chs =
     Inr (chs[send_stream s := (chs ! send_stream s)\<lparr>ch_queue := ch_queue (chs ! send_stream s) @ buf\<rparr>])"
  unfolding send_bytes_def by (induction buf arbitrary: chs) simp_all

lemma send_bytes_closed:
  "\<not> ch_receiver (chs ! send_stream s) \<Longrightarrow>
   send_bytes s buf chs = (if buf = [] then Inr chs else Inl (Expectation ''Could not send byte''))"
  by (cases buf) (simp_all add: send_bytes_def chan_send_def)

lemma read_loop_spec:
  "recv_stream s < length chs \<Longrightarrow> i \<le> length buf \<Longrightarrow> ch = chs ! recv_stream s \<Longrightarrow> q = ch_queue ch \<Longrightarrow> n = length buf - i \<Longrightarrow>
   read_loop s [i..<length buf] buf chs =
     Inr (if n \<le> length q then Inr (length buf)
          else if ch_senders ch = 0 then Inl (NotConnected ''Channel closed'') else Inr (i + length q),
          take i buf @ take n q @ drop (i + length q) buf, chs[recv_stream s := ch\<lparr>ch_queue := drop n q\<rparr>])"
proof (induction n arbitrary: i buf chs ch q)
  case 0
  then show ?case by simp
next
  case (Suc n)
  then have i: "[i..<length buf] = i # [Suc i..<length buf]" and less: "i < length buf" by (simp_all add: upt_conv_Cons)
  show ?case
  proof (cases q)
    case Nil
    then have "ch\<lparr>ch_queue := []\<rparr> = ch" using Suc.prems(4) by (cases ch) simp
    then have "chs[recv_stream s := (chs ! recv_stream s)\<lparr>ch_queue := []\<rparr>] = chs"
      using Suc.prems(3) by (metis list_update_id)
    with Suc.prems less Nil show ?thesis by (simp add: i chan_try_recv_def)
  next
    case (Cons b bs)
    let ?chs = "chs[recv_stream s := ch\<lparr>ch_queue := bs\<rparr>]"
    have recv: "chan_try_recv (chs ! recv_stream s) = (Inr b, ch\<lparr>ch_queue := bs\<rparr>)"
      unfolding chan_try_recv_Inr using Suc.prems(3,4) Cons by metis
    have "read_loop s [i..<length buf] buf chs = read_loop s [Suc i..<length (buf[i := b])] (buf[i := b]) ?chs"
      using less by (simp add: i recv)
    also have "\<dots> = Inr (if n \<le> length bs then Inr (length (buf[i := b]))
          else if ch_senders ch = 0 then Inl (NotConnected ''Channel closed'') else Inr (Suc i + length bs),
          take (Suc i) (buf[i := b]) @ take n bs @ drop (Suc i + length bs) (buf[i := b]), 
          ?chs[recv_stream s := (ch\<lparr>ch_queue := bs\<rparr>)\<lparr>ch_queue := drop n bs\<rparr>])"
      by (subst Suc.IH [of ?chs "Suc i" "buf[i := b]" "ch\<lparr>ch_queue := bs\<rparr>" bs]) (use Suc.prems less in simp_all)
    finally show ?thesis
      using less Cons by (simp add: take_Suc_conv_app_nth flip: Suc.prems(5))
  qed
qed

text \<open>\<open>read\<close> with its early return is the loop, which does nothing for an empty buffer.\<close>

lemma stream_read_eq:
  assumes "recv_stream s < length chs" and "ch = chs ! recv_stream s" and "q = ch_queue ch"
  shows "stream_read s buf chs =
    Inr (if length buf \<le> length q then Inr (length buf)
         else if ch_senders ch = 0 then Inl (NotConnected ''Channel closed'') else Inr (length q),
         take (length buf) q @ drop (length q) buf, chs[recv_stream s := ch\<lparr>ch_queue := drop (length buf) q\<rparr>])"
  using read_loop_spec [OF assms(1) _ assms(2,3), of 0 buf "length buf"] assms by (simp add: stream_read_def)

subsection \<open>Sequences of operations on a pair\<close>

text \<open>
  What the two ends do, in any order: an end (\<open>True\<close> is the first stream) writes bytes or reads into
  a buffer of some length. \<open>ts_got\<close> are the bytes an end has read so far.
\<close>

datatype ts_op = Write_To bool "u8 list" | Read_From bool nat

record ts_log =
  ts_chs :: channels
  ts_got :: "bool \<Rightarrow> u8 list"

definition end_of :: "test_stream \<times> test_stream \<Rightarrow> bool \<Rightarrow> test_stream" where
  "end_of ss e = (if e then fst ss else snd ss)"

fun ts_do :: "test_stream \<times> test_stream \<Rightarrow> ts_op \<Rightarrow> ts_log \<Rightarrow> ts_log outcome" where
  "ts_do ss (Write_To e buf) l =
     res_bind (stream_write (end_of ss e) buf (ts_chs l)) (\<lambda>(r, chs).
     res_map (\<lambda>_. l\<lparr>ts_chs := chs\<rparr>) (unwrap r))"
| "ts_do ss (Read_From e k) l =
     res_bind (stream_read (end_of ss e) (replicate k 0) (ts_chs l)) (\<lambda>(r, buf, chs).
     res_map (\<lambda>n. l\<lparr>ts_chs := chs, ts_got := (ts_got l)(e := ts_got l e @ take n buf)\<rparr>) (unwrap r))"

fun written_by :: "bool \<Rightarrow> ts_op list \<Rightarrow> u8 list" where
  "written_by e [] = []"
| "written_by e (Write_To e' buf # ops) = (if e' = e then buf else []) @ written_by e ops"
| "written_by e (Read_From e' k # ops) = written_by e ops"

lemma written_by_append: "written_by e (ops @ ops') = written_by e ops @ written_by e ops'"
  by (induction e ops rule: written_by.induct) auto

text \<open>The bytes on the way from an end to the other one.\<close>

definition in_flight :: "test_stream \<times> test_stream \<Rightarrow> bool \<Rightarrow> channels \<Rightarrow> u8 list" where
  "in_flight ss e chs = ch_queue (chs ! send_stream (end_of ss e))"

text \<open>Two streams connected with each other, both alive.\<close>

definition pair_ok :: "test_stream \<times> test_stream \<Rightarrow> channels \<Rightarrow> bool" where
  "pair_ok ss chs \<longleftrightarrow> stream_ok (fst ss) chs \<and>
     snd ss = \<lparr>send_stream = recv_stream (fst ss), recv_stream = send_stream (fst ss)\<rparr> \<and>
     (\<forall>e. ch_receiver (chs ! send_stream (end_of ss e)) \<and> 0 < ch_senders (chs ! send_stream (end_of ss e)))"

lemma new_pair_ok:
  assumes "new_pair chs = (ss, chs')"
  shows "pair_ok ss chs'" and "in_flight ss e chs' = []" and "take (length chs) chs' = chs" and "length chs \<le> send_stream (end_of ss e)"
  using assms by (auto simp: end_of_def new_pair_def pair_ok_def stream_ok_def in_flight_def Let_def nth_append chan_new_def)

lemma pair_okD:
  assumes "pair_ok ss chs"
  shows "send_stream (end_of ss e) < length chs" and "ch_receiver (chs ! send_stream (end_of ss e))"
    and "0 < ch_senders (chs ! send_stream (end_of ss e))" and "recv_stream (end_of ss e) = send_stream (end_of ss (\<not> e))"
    and "send_stream (end_of ss e) \<noteq> send_stream (end_of ss (\<not> e))"
  using assms by (auto simp: pair_ok_def stream_ok_def end_of_def split: if_splits)

lemma pair_ok_update:
  assumes "pair_ok ss chs" and "ch_receiver ch" and "0 < ch_senders ch"
  shows "pair_ok ss (chs[send_stream (end_of ss e) := ch])"
    and "in_flight ss e' (chs[send_stream (end_of ss e) := ch]) = (if e' = e then ch_queue ch else in_flight ss e' chs)"
proof -
  show "pair_ok ss (chs[send_stream (end_of ss e) := ch])"
    using assms unfolding pair_ok_def stream_ok_def end_of_def by (cases e) (auto simp: nth_list_update)
  show "in_flight ss e' (chs[send_stream (end_of ss e) := ch]) = (if e' = e then ch_queue ch else in_flight ss e' chs)"
    using pair_okD(1,5) [OF assms(1), of e] by (cases e'; cases e) (auto simp: in_flight_def)
qed

text \<open>The channels that were there before are not touched, as the pair's are new.\<close>

lemma take_update_beyond: "n \<le> i \<Longrightarrow> take n (xs[i := x]) = take n xs"
  by (simp add: take_update_swap list_update_beyond)

lemma pair_write:
  assumes "pair_ok ss chs"
  obtains chs' where "stream_write (end_of ss e) buf chs = Inr (Inr (length buf), chs')" and "pair_ok ss chs'"
    and "\<forall>e'. in_flight ss e' chs' = in_flight ss e' chs @ (if e' = e then buf else [])"
    and "\<forall>n \<le> send_stream (end_of ss e). take n chs' = take n chs"
proof -
  let ?c = "chs ! send_stream (end_of ss e)"
  note ok = pair_okD [OF assms, of e]
  have "stream_write (end_of ss e) buf chs =
      Inr (Inr (length buf), chs[send_stream (end_of ss e) := ?c\<lparr>ch_queue := in_flight ss e chs @ buf\<rparr>])"
    unfolding stream_write_def in_flight_def by (subst send_bytes_open [OF ok(1,2)]) simp
  moreover note pair_ok_update [OF assms, where ch = "?c\<lparr>ch_queue := in_flight ss e chs @ buf\<rparr>" and e = e]
  ultimately show ?thesis
    by (intro that [of "chs[send_stream (end_of ss e) := ?c\<lparr>ch_queue := in_flight ss e chs @ buf\<rparr>]"])
      (use ok(2,3) in \<open>simp_all add: take_update_beyond\<close>)
qed

lemma pair_read:
  assumes "pair_ok ss chs"
  obtains chs' where "stream_read (end_of ss e) buf chs = Inr (Inr (min (length buf) (length (in_flight ss (\<not> e) chs))),
        take (length buf) (in_flight ss (\<not> e) chs) @ drop (length (in_flight ss (\<not> e) chs)) buf, chs')" and "pair_ok ss chs'"
    and "\<forall>e'. in_flight ss e' chs' = drop (if e' = e then 0 else length buf) (in_flight ss e' chs)"
    and "\<forall>n \<le> send_stream (end_of ss (\<not> e)). take n chs' = take n chs"
proof -
  let ?c = "chs ! send_stream (end_of ss (\<not> e))"
  note ok = pair_okD [OF assms, of "\<not> e"] pair_okD(4) [OF assms, of e]
  have "stream_read (end_of ss e) buf chs =
      Inr (Inr (min (length buf) (length (in_flight ss (\<not> e) chs))),
        take (length buf) (in_flight ss (\<not> e) chs) @ drop (length (in_flight ss (\<not> e) chs)) buf,
        chs[send_stream (end_of ss (\<not> e)) := ?c\<lparr>ch_queue := drop (length buf) (in_flight ss (\<not> e) chs)\<rparr>])"
    unfolding in_flight_def
    by (subst stream_read_eq [OF _ refl refl]) (use ok in \<open>simp_all add: min_def\<close>)
  moreover note pair_ok_update [OF assms, where ch = "?c\<lparr>ch_queue := drop (length buf) (in_flight ss (\<not> e) chs)\<rparr>" and e = "\<not> e"]
  ultimately show ?thesis
    by (intro that [of "chs[send_stream (end_of ss (\<not> e)) := ?c\<lparr>ch_queue := drop (length buf) (in_flight ss (\<not> e) chs)\<rparr>]"])
      (use ok(2,3) in \<open>auto simp: take_update_beyond\<close>)
qed

lemma ts_do_spec:
  assumes "pair_ok ss (ts_chs l)"
  shows "\<exists>l'. ts_do ss op l = Inr l' \<and> pair_ok ss (ts_chs l') \<and>
    (\<forall>e. ts_got l' (\<not> e) @ in_flight ss e (ts_chs l') = ts_got l (\<not> e) @ in_flight ss e (ts_chs l) @ written_by e [op]) \<and>
    (\<forall>n. (\<forall>e. n \<le> send_stream (end_of ss e)) \<longrightarrow> take n (ts_chs l') = take n (ts_chs l))"
proof (cases op)
  case (Write_To e buf)
  obtain chs' where "stream_write (end_of ss e) buf (ts_chs l) = Inr (Inr (length buf), chs')" "pair_ok ss chs'"
      "\<forall>e'. in_flight ss e' chs' = in_flight ss e' (ts_chs l) @ (if e' = e then buf else [])"
      "\<forall>n \<le> send_stream (end_of ss e). take n chs' = take n (ts_chs l)"
    by (rule pair_write [OF assms, of e buf])
  then show ?thesis by (simp add: Write_To unwrap_def)
next
  case (Read_From e k)
  let ?q = "in_flight ss (\<not> e) (ts_chs l)"
  obtain chs' where chs': "stream_read (end_of ss e) (replicate k 0) (ts_chs l) = Inr (Inr (min k (length ?q)),
        take k ?q @ drop (length ?q) (replicate k 0), chs')" "pair_ok ss chs'"
      "\<forall>e'. in_flight ss e' chs' = drop (if e' = e then 0 else k) (in_flight ss e' (ts_chs l))"
      "\<forall>n \<le> send_stream (end_of ss (\<not> e)). take n chs' = take n (ts_chs l)"
    by (rule pair_read [OF assms, of e "replicate k 0"]) simp
  then have "ts_do ss op l = Inr (l\<lparr>ts_chs := chs', ts_got := (ts_got l)(e := ts_got l e @ take k ?q)\<rparr>)"
    by (simp add: Read_From unwrap_def min_def)
  moreover have "(\<not> e') = e \<or> e' = e" for e' by blast
  ultimately show ?thesis using chs'(2-4) by (auto simp: Read_From)
qed

lemma ts_run_spec:
  assumes "pair_ok ss (ts_chs l)"
  shows "\<exists>l'. res_fold (ts_do ss) ops l = Inr l' \<and> pair_ok ss (ts_chs l') \<and>
    (\<forall>e. ts_got l' (\<not> e) @ in_flight ss e (ts_chs l') = ts_got l (\<not> e) @ in_flight ss e (ts_chs l) @ written_by e ops) \<and>
    (\<forall>n. (\<forall>e. n \<le> send_stream (end_of ss e)) \<longrightarrow> take n (ts_chs l') = take n (ts_chs l))"
  using assms
proof (induction ops arbitrary: l)
  case (Cons op ops)
  obtain l1 where l1: "ts_do ss op l = Inr l1" "pair_ok ss (ts_chs l1)"
      "\<And>e. ts_got l1 (\<not> e) @ in_flight ss e (ts_chs l1) = ts_got l (\<not> e) @ in_flight ss e (ts_chs l) @ written_by e [op]"
      "\<And>n. \<forall>e. n \<le> send_stream (end_of ss e) \<Longrightarrow> take n (ts_chs l1) = take n (ts_chs l)"
    using ts_do_spec [OF Cons.prems, of op] by blast
  obtain l' where l': "res_fold (ts_do ss) ops l1 = Inr l'" "pair_ok ss (ts_chs l')"
      "\<And>e. ts_got l' (\<not> e) @ in_flight ss e (ts_chs l') = ts_got l1 (\<not> e) @ in_flight ss e (ts_chs l1) @ written_by e ops"
      "\<And>n. \<forall>e. n \<le> send_stream (end_of ss e) \<Longrightarrow> take n (ts_chs l') = take n (ts_chs l1)"
    using Cons.IH [OF l1(2)] by blast
  have "ts_got l' (\<not> e) @ in_flight ss e (ts_chs l') = ts_got l (\<not> e) @ in_flight ss e (ts_chs l) @ written_by e (op # ops)" for e
    using l1(3) [of e] l'(3) [of e] written_by_append [of e "[op]" ops] by (metis append_assoc append_Cons append_Nil)
  then show ?case using l1(1,4) l'(1,2,4) by simp
qed simp

subsection \<open>Properties\<close>

text \<open>
  C39. A pair of test streams delivers: in whatever order the two ends write and read, nothing
  panics or fails, and what an end has written is what the other end has read so far, followed by
  what is still on its way. Bytes are neither lost nor changed nor reordered, and the channels of
  other streams are not touched.
\<close>

theorem test_stream_delivers:
  assumes "new_pair chs = (ss, chs0)"
  shows "\<exists>l. res_fold (ts_do ss) ops \<lparr>ts_chs = chs0, ts_got = \<lambda>_. []\<rparr> = Inr l \<and>
    written_by True ops = ts_got l False @ ch_queue (ts_chs l ! send_stream (fst ss)) \<and>
    written_by False ops = ts_got l True @ ch_queue (ts_chs l ! send_stream (snd ss)) \<and>
    take (length chs) (ts_chs l) = chs"
proof -
  note new = new_pair_ok [OF assms]
  obtain l where l: "res_fold (ts_do ss) ops \<lparr>ts_chs = chs0, ts_got = \<lambda>_. []\<rparr> = Inr l"
      "\<And>e. ts_got l (\<not> e) @ in_flight ss e (ts_chs l) = written_by e ops" "take (length chs) (ts_chs l) = chs"
    using ts_run_spec [of ss "\<lparr>ts_chs = chs0, ts_got = \<lambda>_. []\<rparr>" ops] new by auto
  from l(2) [of True] l(2) [of False] l(1,3) show ?thesis by (auto simp: in_flight_def end_of_def)
qed

theorem test_stream_delivers_witness:
  "\<exists>l. res_fold (ts_do (fst (new_pair []))) [Write_To True [1, 2, 3], Read_From False 2, Write_To True [4], Read_From False 2]
     \<lparr>ts_chs = snd (new_pair []), ts_got = \<lambda>_. []\<rparr> = Inr l \<and> prefix (ts_got l False) [1, 2, 3, 4]"
  using test_stream_delivers [of "[]" "fst (new_pair [])" "snd (new_pair [])"
      "[Write_To True [1, 2, 3], Read_From False 2, Write_To True [4], Read_From False 2]"] by auto

text \<open>
  C40. What \<open>read\<close> does in every case. It takes as many bytes off the channel as the buffer holds and
  there are, and puts them at the front of the buffer. It returns their number, unless the
  channel runs empty and the other end is gone: then it returns an error, although the bytes it
  took are off the channel. The last bytes of a stream that ends are so lost for a caller that
  offers a larger buffer.
\<close>

theorem test_stream_read_spec:
  assumes "recv_stream s < length chs"
  shows "\<exists>r chs'. stream_read s buf chs =
      Inr (r, take (length buf) (ch_queue (chs ! recv_stream s)) @ drop (length (ch_queue (chs ! recv_stream s))) buf, chs') \<and>
    ch_queue (chs' ! recv_stream s) = drop (length buf) (ch_queue (chs ! recv_stream s)) \<and>
    r = (if length (ch_queue (chs ! recv_stream s)) < length buf \<and> ch_senders (chs ! recv_stream s) = 0
         then Inl (NotConnected ''Channel closed'')
         else Inr (min (length buf) (length (ch_queue (chs ! recv_stream s)))))"
  unfolding stream_read_eq [OF assms refl refl] using assms by (auto simp: min_def)

theorem test_stream_read_spec_witness:
  "\<exists>buf chs'. stream_read \<lparr>send_stream = 0, recv_stream = 1\<rparr> [0, 0]
     [chan_new, \<lparr>ch_queue = [7], ch_senders = 0, ch_receiver = True\<rparr>] = Inr (Inl (NotConnected ''Channel closed''), buf, chs') \<and>
     ch_queue (chs' ! 1) = []"
  using test_stream_read_spec [of "\<lparr>send_stream = 0, recv_stream = 1\<rparr>"
      "[chan_new, \<lparr>ch_queue = [7], ch_senders = 0, ch_receiver = True\<rparr>]" "[0, 0]"] by auto

text \<open>
  Further behaviour of the streams: \<open>poll_read_unordered\<close> never hands over a byte, because it reads
  into an empty buffer, and writing to a stream whose other end is gone panics unless there is
  nothing to write.
\<close>

theorem poll_read_unordered_empty: "poll_read_unordered s chs = Inr (Inr (Ready ([], 0)), chs)"
  by (simp add: poll_read_unordered_def quinn_poll_read_def stream_read_def)

theorem write_to_dropped_panics:
  assumes "pair_ok ss chs" and "chs' = drop_stream (end_of ss (\<not> e)) chs"
  shows "stream_write (end_of ss e) buf chs' =
    (if buf = [] then Inr (Inr 0, chs') else Inl (Expectation ''Could not send byte''))"
proof -
  have "\<not> ch_receiver (chs' ! send_stream (end_of ss e))"
    using pair_okD(1,4,5) [OF assms(1), of e] pair_okD(4) [OF assms(1), of "\<not> e"] assms(2)
    by (simp add: drop_stream_def drop_receiver_def)
  then show ?thesis by (simp add: stream_write_def send_bytes_closed)
qed

text \<open>The tests of the pair pass.\<close>

lemmas test_eval = new_pair_def stream_write_def quinn_poll_write_def stream_read_eq quinn_poll_read_def send_bytes_open
  unwrap_def assert_eq_def stream_flush_def test_msg_def chan_new_def Let_def

theorem test_stream_tests_pass:
  "test_io_read_write = Inr ()" "test_quinn_io_read_write = Inr ()"
  "(\<And>r. async_usize d (Inr r) = Inr (Ready r)) \<Longrightarrow> async_unit d (Inr ()) = Inr (Ready ()) \<Longrightarrow> test_async_io_read_write d = Inr ()"
  by (simp_all add: test_io_read_write_def test_quinn_io_read_write_def test_async_io_read_write_def test_eval)

end
