(* ===== verification/Spec2Isabelle.thy ===== *)
theory Spec2Isabelle
  imports Hash Types PeerMap FlatPeerMap Proto Worker Sim Network Fair_Runs Unit_Tests Peer_Binary Peer_Main
    Handshake Introductions Carriers Old_Peer Old_Peer_Net Old_Tests Second_Peer Test_Stream
begin

text \<open>
  WorldDat is a sketch of a distributed hash table after Kademlia. A peer is identified by a
  256-bit hash. It keeps a routing table of other peers in buckets by distance rank, and a worker
  thread answers the messages \<open>Ping\<close>, \<open>Pong\<close> and \<open>FindPeer\<close> and learns peers from \<open>Pong\<close>. A simulator
  runs many workers in one process and carries their messages; a separate binary exchanges byte
  strings over QUIC. Two older versions of the networked peer are still in the repository.

  \<^bold>\<open>Theories and sources.\<close>

  \<^item> \<open>WD_Prelude\<close>: machine integers, panics as values (\<open>'a outcome\<close>, left for a panic), vectors with
    checked indexing, \<open>usize\<close> arithmetic, tables split into buckets (locale \<open>bucketing\<close>),
    reachability and inductive invariants (locale \<open>inductive_invariant\<close>).
  \<^item> \<open>Hash\<close>: \<open>src/src/hash.rs\<close>, \<open>Blake2Hash\<close> with its order, exclusive or, serialisation and
    \<open>leading_zeros\<close>, whose loop is modelled as it is written.
  \<^item> \<open>Std_HashMap\<close>, \<open>Std_Mpsc\<close>, \<open>Std_Net\<close>, \<open>Std_Utf8\<close>: what the program uses of the standard
    library. A hash map has an arbitrary iteration order (locale \<open>finite_map\<close>), a channel knows its
    senders and whether its receiver is alive (locale \<open>fifo\<close>).
  \<^item> \<open>Types\<close>: \<open>PeerId\<close>, \<open>Message\<close> and \<open>Contact\<close> of \<open>src/src/types.rs\<close>.
  \<^item> \<open>PeerMap\<close>: \<open>Bucket\<close> and \<open>PeerMap\<close> of \<open>src/src/types.rs\<close>, with the contracts of a routing table
    (locales \<open>peer_table\<close> and \<open>exact_peer_table\<close>) that the definitions interpret.
  \<^item> \<open>FlatPeerMap\<close>: the second table of \<open>src/src/types.rs\<close>, a flat vector that evicts; it
    interprets \<open>peer_table\<close>.
  \<^item> \<open>Worker\<close>: \<open>src/src/worker.rs\<close>. The record \<open>worker\<close> holds the thread's state and both channels it
    shares with its handle; \<open>worker_step\<close> is a turn of \<open>run\<close>, and \<open>quit\<close>, \<open>recv_message\<close>,
    \<open>controller\<close> and \<open>controller_message\<close> are the handle's operations. The locale \<open>protocol_node\<close> is the
    contract of a node: what it learns from a message (\<open>learns\<close>) and what it may answer (\<open>answers\<close>).
  \<^item> \<open>Handshake\<close>: two workers whose messages are carried to each other through their handles
    (\<open>pair_step\<close>), and the stages of an introduction. \<open>Introductions\<close>: any number of workers and any
    messages between them, carried in order (\<open>many_step\<close>). \<open>Carriers\<close>: any number of workers over a network
    that may delay, reorder, repeat and lose messages and into which anybody may inject messages
    (\<open>fabric_step\<close>).
  \<^item> \<open>Sim\<close>: \<open>src/src/bin/sim.rs\<close>. The threads are a store and a handle is an index into it;
    \<open>main_step\<close> is a step of the loop of \<open>WorkerSim::run\<close> and \<open>sim_step\<close> interleaves it with the
    steps of the threads. The clock the loop reads is any time that does not run backwards.
  \<^item> \<open>Network\<close>: an abstract network of nodes, the refinement of the simulator to it, and what its
    nodes can know. \<open>Fair_Runs\<close>: runs of the simulator under a fair schedule. The properties that rest
    on both are in this theory.
  \<^item> \<open>Unit_Tests\<close>: the test functions of \<open>hash.rs\<close> and \<open>types.rs\<close> as programs that may panic.
  \<^item> \<open>Proto\<close>: the types of \<open>src/src/proto.rs\<close>.
  \<^item> \<open>Transport\<close>: streams, whose operations are arguments, with the documented behaviour of a working
    stream as the hypothesis \<open>stream_laws\<close>. \<open>Peer_Setup\<close>: what the QUIC peers share, that is the
    options, the errors of the crate \<open>failure\<close>, the question mark operator (\<open>try_bind\<close>), the TLS
    keys, connections, the builder of an endpoint with its log level, and endpoints.
  \<^item> \<open>Peer_Binary\<close>, \<open>Peer_Main\<close>: \<open>src/src/bin/peer.rs\<close>; the first has the exchange of a request and a
    response, the second certificates, the set-up of the server and the clients, and \<open>main\<close>.
  \<^item> \<open>Old_Peer\<close>, \<open>Old_Peer_Net\<close>: \<open>src/src/peer.rs\<close>; the first has the table and the message handlers,
    the second \<open>talk_to_peer\<close>, the accept loop, \<open>start\<close> and \<open>run\<close>. The two futures \<open>talk_to_peer\<close> joins
    advance in any order (\<open>join_loop\<close>, with the choice as an argument). \<open>Old_Tests\<close>: \<open>src/src/tests.rs\<close>,
    the test of a client of this peer.
  \<^item> \<open>Test_Stream\<close>: \<open>src/src/connection_tests.rs\<close>, a pair of streams over two channels, which are in a
    store that the streams index, and the tests of the pair.
  \<^item> \<open>Std_Ascii\<close>, \<open>Second_Peer\<close>: \<open>src/src/peer2.rs\<close>. The record \<open>peer2\<close> holds the connection table, the
    channel to the worker and the spawned tasks; \<open>run_task\<close> is one turn of a task and \<open>p2_step\<close>
    interleaves the tasks and the worker.

  \<^bold>\<open>What is shown.\<close> The tables: insertion and lookup never panic on well-formed tables and refine
  maps from ids to addresses; the searches return known peers, in the order of the buckets the
  loops visit, with the buckets they miss and the entries they repeat stated exactly. The worker:
  a message is handled without a panic as the abstract node prescribes; a run drains the queue;
  \<open>quit\<close> returns; a dropped handle makes the thread panic exactly when a reply is due; a \<open>Ping\<close>
  introduces two workers to each other in every order of their turns; any number of introductions at
  the same time succeed, and the traffic is bounded by the messages at the start; over an unreliable
  network whatever a worker knows wrongly was forged. The two tables answer alike as
  long as no bucket overflows. The simulator: in every interleaving the loop does not panic and every live thread keeps its
  invariant; steps refine the network; workers other than the bootstrap worker never learn a peer;
  what is known is true; at most nine steps per worker do more than move the loop on; every fair run comes to rest,
  and there the bootstrap worker knows everybody. The hash: the cases where \<open>leading_zeros\<close> is what
  its comment says, round trips and panics of the serialisation. The tests: those without random
  numbers pass, and for the others exactly on which numbers they pass; the test of the old peer
  passes with and without a server. The test streams: bytes arrive unchanged and in order, and what
  \<open>read\<close> returns in every case. The binary: the limit of a
  request, the streams a connection serves, what the ten clients of \<open>main\<close> print, and when \<open>main\<close>
  ends, returns or panics. The old peer: its sorted table, its exchange with a peer in every order of the two
  futures, and that its accept loop ends with the first connection that fails. The second peer:
  escaped text can be read back; in every interleaving each request reaches the worker exactly once
  and with the address of its connection, unless a task panics, which happens exactly for a
  connection with a unidirectional stream or on which none can be opened; it comes to rest within a bound; its connection table; and
  when its start fails or panics.

  \<^bold>\<open>Bounds and termination.\<close> Nothing uses fuel. The loops of the searches end because the search
  width is bounded by \<open>max_power\<close>, a worker's run because every turn takes a message or ends the
  thread (\<open>pending_turns\<close>), an exchange of the old peer because each future does a part of what is
  left (\<open>talk_left\<close>), the second peer because every turn of a task lowers the weight of the tasks
  (\<open>p2_weight\<close>). The steps of a crowd of workers are counted by \<open>potential\<close>, the number of steps the
  messages on their way can still cause. The simulator's loop does not end and is a step relation;
  its progress is measured by \<open>net_work\<close>. \<open>usize\<close> has 64 bits and overflow panics, as in a debug build.

  \<^bold>\<open>Granularity.\<close> A turn of a worker thread, from taking a message to its last reply, is one step.
  Other threads see of a turn only what it sends, and taking a message off the outbox commutes with
  sending another one (\<open>recv_send_commute\<close>); in the simulator no turn sends more than one message. A turn
  of a task of the second peer goes from one point where it waits to the next; a request that is read
  is read to its end in one turn, and a read that waits for ever is a task that takes no turn. The
  locks of \<open>peer.rs\<close> are not modelled: no code panics while it holds one, so that none is poisoned.

  \<^bold>\<open>Not modelled.\<close> The argument \<open>count()\<close> of a \<open>debug!\<close> in \<open>PeerMap::insert\<close>, whose sum would
  overflow with more than four thousand million peers. The output of the log, and the parsing of
  command line options: they have effects outside the program only. \<open>duration_secs\<close> of \<open>peer.rs\<close>, a conversion to floating point
  that no code calls. The enumerations of \<open>proto.rs\<close> without a variant, which have no values.
  \<open>lib.rs\<close>, which declares modules. The digest, the random number generator, \<open>bytemuck\<close>, base64,
  MessagePack, the IPv6 parser, \<open>rcgen\<close>, \<open>quinn\<close>, \<open>rustls\<close>, \<open>url\<close> and the file system are arguments. The connections and
  streams a library hands over are finite sequences: an endpoint that is closed at some time.

  \<^bold>\<open>What is left.\<close> Every function of the sources with an effect on the state is a definition; the
  lines that no definition translates are imports, module declarations, log statements, derived
  traits and comments. Not proved: what the workers of a simulator come to know when several of
  them share an address.
\<close>

section \<open>The simulated network\<close>

text \<open>
  C7. The simulator with its threads, channels, handles and hash maps refines the abstract network
  of nodes: a run starts as a network whose nodes have not joined, and every step of the loop or
  of a thread is a step of the network or leaves it unchanged.
\<close>

theorem sim_refines_network:
  assumes "externals_ok e" and "sim_setup e boot specs = Inr sim" and "distinct_addresses e specs"
    and "parse_socket_addr (parse_v6 e) boot = Some b" and "sim_step\<^sup>*\<^sup>* (run_start sim) s" and "sim_step s s'"
  shows "net_init b (net_of (run_start sim)) \<and> (net_of s' = net_of s \<or> net_step (net_of s) (net_of s'))"
  using net_init_run_start [OF assms(1-4)] sim_run_net [OF assms(1-5)] sim_step_net [OF _ assms(6)] by blast

theorem sim_refines_network_witness:
  "\<exists>sim s'. heckin_simulator sample_externals = Inr sim \<and> sim_step (run_start sim) s' \<and>
     net_init (V4 167772161 4433) (net_of (run_start sim)) \<and>
     (net_of s' = net_of (run_start sim) \<or> net_step (net_of (run_start sim)) (net_of s'))"
proof -
  obtain sim where sim: "heckin_simulator sample_externals = Inr sim"
    using heckin_simulator_ok [OF sample_externals_ok] by blast
  let ?s = "run_start sim"
  have "\<exists>s'. main_step (clock ?s) ?s = Some s'" by (simp add: main_step_def run_start_def Let_def)
  then obtain s' where "sim_step ?s s'" using main_turn by blast
  then show ?thesis
    using sim_refines_network [OF sample_externals_ok sim [unfolded heckin_simulator_setup] conjunct1 [OF heckin_specs_ok]
        parse_sim_addrs(1) rtranclp.rtrancl_refl] sim by blast
qed

text \<open>
  C12. In every reachable state every worker but the one at the bootstrap address knows exactly
  itself: the messages \<open>add_new_worker\<close> puts into the worker's own channel introduce it to the
  bootstrap worker and never teach it anything.
\<close>

theorem workers_know_only_themselves:
  assumes "externals_ok e" and "sim_setup e boot specs = Inr sim" and "distinct_addresses e specs"
    and "parse_socket_addr (parse_v6 e) boot = Some b" and "sim_step\<^sup>*\<^sup>* (run_start sim) s"
    and "(a, h) \<in> set (homes s)" and "a \<noteq> b"
  shows "worker_view (sim_threads s ! h) = [w_peer_id (sim_threads s ! h) \<mapsto> a]"
proof -
  let ?w = "sim_threads s ! h"
  from sim_run_net [OF assms(1-5)] have inv: "addr_inv s" and auth: "net_auth b (net_of s)" by auto
  note node = nodes_net_of_home [OF inv assms(6)]
  with net_auth_node [OF auth] have ok: "node_ok (id_at (net_of s)) b a (node_of ?w)" by blast
  note ids = id_at_home [OF inv assms(6)]
  have "worker_view ?w p = [w_peer_id ?w \<mapsto> a] p" for p
  proof (cases "worker_view ?w p")
    case None
    then show ?thesis using ok by (auto simp: node_ok_def node_of_def)
  next
    case (Some x)
    then have "x = a \<and> id_at (net_of s) x = Some p" using ok assms(7) by (simp add: node_ok_def node_of_def)
    then have "x = a" and "p = w_peer_id ?w" using ids by auto
    then show ?thesis using Some by simp
  qed
  then show ?thesis by blast
qed

theorem workers_know_only_themselves_witness:
  "\<exists>sim h. heckin_simulator sample_externals = Inr sim \<and> (V4 167772162 4433, h) \<in> set (homes (run_start sim)) \<and>
     worker_view (sim_threads (run_start sim) ! h) =
       [w_peer_id (sim_threads (run_start sim) ! h) \<mapsto> V4 167772162 4433]"
proof -
  obtain sim where sim: "heckin_simulator sample_externals = Inr sim"
    using heckin_simulator_ok [OF sample_externals_ok] by blast
  note started = sim [unfolded heckin_simulator_setup]
  obtain h where "(V4 167772162 4433, h) \<in> set (homes (run_start sim))"
    using heckin_homes [OF sample_externals_ok sim] by blast
  then show ?thesis
    using workers_know_only_themselves [OF sample_externals_ok started conjunct1 [OF heckin_specs_ok]
        parse_sim_addrs(1) rtranclp.rtrancl_refl] sim by auto
qed

text \<open>
  C13. What the bootstrap worker knows is true in every reachable state: if it has an address for an
  id, a worker with that id lives at that address. So does every worker's answer about a peer.
\<close>

theorem bootstrap_knowledge_genuine:
  assumes "externals_ok e" and "sim_setup e boot specs = Inr sim" and "distinct_addresses e specs"
    and "parse_socket_addr (parse_v6 e) boot = Some b" and "sim_step\<^sup>*\<^sup>* (run_start sim) s"
    and "(a, h) \<in> set (homes s)" and "worker_view (sim_threads s ! h) p = Some x"
  shows "\<exists>h'. (x, h') \<in> set (homes s) \<and> w_peer_id (sim_threads s ! h') = p"
proof -
  from sim_run_net [OF assms(1-5)] have inv: "addr_inv s" and auth: "net_auth b (net_of s)" by auto
  have "id_at (net_of s) x = Some p"
    using net_auth_node [OF auth nodes_net_of_home [OF inv assms(6)]] assms(7) by (simp add: node_ok_def node_of_def)
  then show ?thesis by (rule id_at_net_ofD)
qed

theorem bootstrap_knowledge_genuine_witness:
  "\<exists>sim h h'. heckin_simulator sample_externals = Inr sim \<and> (V4 167772162 4433, h) \<in> set (homes (run_start sim)) \<and>
     (V4 167772162 4433, h') \<in> set (homes (run_start sim)) \<and>
     w_peer_id (sim_threads (run_start sim) ! h') = w_peer_id (sim_threads (run_start sim) ! h)"
proof -
  obtain sim where sim: "heckin_simulator sample_externals = Inr sim"
    using heckin_simulator_ok [OF sample_externals_ok] by blast
  note started = sim [unfolded heckin_simulator_setup]
  let ?s = "run_start sim" and ?a = "V4 167772162 4433"
  obtain h where h: "(?a, h) \<in> set (homes ?s)" using heckin_homes [OF sample_externals_ok sim] by blast
  then have "worker_view (sim_threads ?s ! h) (w_peer_id (sim_threads ?s ! h)) = Some ?a"
    using heckin_homes [OF sample_externals_ok sim] by auto
  from bootstrap_knowledge_genuine [OF sample_externals_ok started conjunct1 [OF heckin_specs_ok]
      parse_sim_addrs(1) rtranclp.rtrancl_refl h this] show ?thesis using sim h by blast
qed

text \<open>
  C14. The traffic of the simulator is bounded: of the steps of any run, at most nine for each worker
  do anything but move the loop on, that is add a worker, run a turn of a thread, or collect,
  deliver or lose a message. The workers have distinct addresses, as in \<open>heckin_simulator\<close>.
\<close>

theorem sim_traffic_bounded:
  assumes "externals_ok e" and "sim_setup e boot specs = Inr sim" and "distinct_addresses e specs"
    and "parse_socket_addr (parse_v6 e) boot = Some b"
    and "ss 0 = run_start sim" and "\<And>i. i < n \<Longrightarrow> sim_step (ss i) (ss (Suc i))"
  shows "card {i. i < n \<and> \<not> only_loops (ss i) (ss (Suc i))} \<le> 9 * length specs"
proof -
  let ?D = "dom (nodes (net_of (run_start sim)))"
  have "finite ?D" "net_work ?D (net_of (run_start sim)) \<le> 9 * length specs" using net_init_work [OF assms(1-4)] by blast+
  moreover have "net_auth b (net_of (run_start sim))" using net_init_auth net_init_run_start [OF assms(1-4)] by blast
  ultimately show ?thesis
    using busy_steps_bounded [of ss b ?D n] all_homes_run_start [OF assms(1-4)] assms(5,6) by fastforce
qed

theorem sim_traffic_bounded_witness:
  "\<exists>sim s'. heckin_simulator sample_externals = Inr sim \<and> sim_step (run_start sim) s' \<and>
     \<not> only_loops (run_start sim) s' \<and>
     card {i. i < 1 \<and> \<not> only_loops ((\<lambda>i. if i = 0 then run_start sim else s') i) ((\<lambda>i. if i = 0 then run_start sim else s') (Suc i))} \<le> 27"
proof -
  obtain sim where sim: "heckin_simulator sample_externals = Inr sim"
    using heckin_simulator_ok [OF sample_externals_ok] by blast
  note started = sim [unfolded heckin_simulator_setup]
  let ?s = "run_start sim"
  obtain b q a h d where q: "setup_ok b sim" "worker_add_queue ?s = q @ [(a, h, d)]"
  proof -
    from sim_setup_ok [OF sample_externals_ok started] obtain b where "setup_ok b sim"
      "length (worker_add_queue sim) = length heckin_specs" by (metis length_map)
    moreover have "length (worker_add_queue ?s) = length (worker_add_queue sim)" by (simp add: run_start_def sort_queue_def)
    ultimately show ?thesis using that by (cases "worker_add_queue ?s" rule: rev_cases) auto
  qed
  let ?s1 = "(add_due (Suc d) ?s)\<lparr>clock := Suc d\<rparr>"
  let ?s' = "?s1\<lparr>pc := Collecting (hm_iter (sim_workers ?s1))\<rparr>"
  have "main_step (Suc d) ?s = Some ?s'" by (simp add: main_step_def run_start_def Let_def)
  then have step: "sim_step ?s ?s'" by (rule main_turn [rotated]) (simp add: run_start_def)
  have "worker_add_queue ?s' = q" by (simp add: add_due_snoc [OF q(2)] add_worker_def hm_insert_def split: option.split)
  then have busy: "\<not> only_loops ?s ?s'" using q(2) by (simp add: only_loops_def)
  have "card {i. i < 1 \<and> \<not> only_loops ((\<lambda>i. if i = 0 then ?s else ?s') i) ((\<lambda>i. if i = 0 then ?s else ?s') (Suc i))} \<le> 9 * length heckin_specs"
    by (rule sim_traffic_bounded [OF sample_externals_ok started conjunct1 [OF heckin_specs_ok] parse_sim_addrs(1)])
      (use step in simp_all)
  then show ?thesis using sim step busy by (intro exI [of _ sim] exI [of _ ?s']) simp
qed

text \<open>
  From every reachable state the simulator can come to rest: there is a run after which all
  workers have joined and no message is in a channel or in the loop's vector.
\<close>

theorem network_converges:
  assumes "externals_ok e" and "sim_setup e boot specs = Inr sim" and "distinct_addresses e specs"
    and "parse_socket_addr (parse_v6 e) boot = Some b" and "sim_step\<^sup>*\<^sup>* (run_start sim) s"
  shows "\<exists>s'. sim_step\<^sup>*\<^sup>* s s' \<and> quiescent s'"
  using sim_converges sim_run_net [OF assms] by blast

theorem network_converges_witness:
  "\<exists>sim s. heckin_simulator sample_externals = Inr sim \<and> sim_step\<^sup>*\<^sup>* (run_start sim) s \<and> quiescent s"
proof -
  obtain sim where sim: "heckin_simulator sample_externals = Inr sim"
    using heckin_simulator_ok [OF sample_externals_ok] by blast
  then show ?thesis
    using network_converges [OF sample_externals_ok sim [unfolded heckin_simulator_setup] conjunct1 [OF heckin_specs_ok]
        parse_sim_addrs(1) rtranclp.rtrancl_refl] by blast
qed

text \<open>
  C5. The simulator converges in every fair run: if every thread and the loop get their turns again
  and again and the clock goes on, and the bootstrap worker joins first, then from some point on
  all workers have joined, no message is left in a channel or in the loop's vector, and the
  bootstrap worker knows every worker.
\<close>

theorem fair_runs_converge:
  assumes "externals_ok e" and "sim_setup e boot specs = Inr sim" and "distinct_addresses e specs"
    and "parse_socket_addr (parse_v6 e) boot = Some b" and "bootstrap_first e boot specs"
    and "fair (length (sim_threads sim)) \<rho>"
  shows "\<exists>N. \<forall>j \<ge> N. quiescent (exec \<rho> (run_start sim) j) \<and> informed b (exec \<rho> (run_start sim) j)"
proof -
  let ?s = "run_start sim"
  note start = sim_run_net [OF assms(1-4) rtranclp.rtrancl_refl]
  have "\<forall>(a, h) \<in> set (homes ?s). h < length (sim_threads sim)"
    using start sim_inv_home [of ?s] by (auto simp: addr_inv_def run_start_def)
  from fair_run_rests [OF _ _ assms(6) this] start obtain N where
    N: "\<And>j. j \<ge> N \<Longrightarrow> quiescent (exec \<rho> ?s j)" by blast
  have "informed b (exec \<rho> ?s j)" if "j \<ge> N" for j
    unfolding informed_def
  proof (rule net_prog_quiet_knows [OF _ _ N [OF that]])
    note run = sim_run_net [OF assms(1-4) exec_steps]
    show "addr_inv (exec \<rho> ?s j)" using run by blast
    show "net_prog b (net_of (exec \<rho> ?s j))"
      using progress.inv_steps [OF progress.inv_init [OF net_init_first_run_start [OF assms(1-5)]]] run by blast
  qed
  then show ?thesis using N by blast
qed

theorem fair_runs_converge_witness:
  "\<exists>sim N. heckin_simulator sample_externals = Inr sim \<and>
     quiescent (exec (round_robin 3) (run_start sim) N) \<and> informed (V4 167772161 4433) (exec (round_robin 3) (run_start sim) N)"
proof -
  obtain sim where sim: "heckin_simulator sample_externals = Inr sim"
    using heckin_simulator_ok [OF sample_externals_ok] by blast
  note started = sim [unfolded heckin_simulator_setup]
  from sim_setup_ok [OF sample_externals_ok started] have "length (worker_add_queue sim) = 3" and "\<exists>b. setup_ok b sim"
    by (auto dest: arg_cong [of _ _ length])
  then have "length (sim_threads sim) = 3" by (auto simp: setup_ok_def dest: arg_cong [of _ _ length])
  then have "fair (length (sim_threads sim)) (round_robin 3)" using round_robin_fair by simp
  from fair_runs_converge [OF sample_externals_ok started conjunct1 [OF heckin_specs_ok] parse_sim_addrs(1)
      conjunct2 [OF heckin_specs_ok] this] sim show ?thesis by auto
qed

text \<open>
  C6. No introduction is lost when the bootstrap worker joins first: once the simulator is at rest,
  the worker at the bootstrap address knows the id of every worker, at the address of a worker
  with that id.
\<close>

theorem bootstrap_learns_all:
  assumes "externals_ok e" and "sim_setup e boot specs = Inr sim" and "distinct_addresses e specs"
    and "parse_socket_addr (parse_v6 e) boot = Some b" and "sim_step\<^sup>*\<^sup>* (run_start sim) s"
    and "bootstrap_first e boot specs" and "quiescent s"
  shows "\<exists>hb. (b, hb) \<in> set (homes s) \<and>
    (\<forall>(a, h) \<in> set (homes s). \<exists>x h'. worker_view (sim_threads s ! hb) (w_peer_id (sim_threads s ! h)) = Some x \<and>
       (x, h') \<in> set (homes s) \<and> w_peer_id (sim_threads s ! h') = w_peer_id (sim_threads s ! h))"
  using net_prog_quiet_knows sim_run_net [OF assms(1-5)]
    progress.inv_steps [OF progress.inv_init [OF net_init_first_run_start [OF assms(1-4,6)]]] assms(7) by blast

theorem bootstrap_learns_all_witness:
  "\<exists>sim s hb. heckin_simulator sample_externals = Inr sim \<and> sim_step\<^sup>*\<^sup>* (run_start sim) s \<and> quiescent s \<and>
     (V4 167772161 4433, hb) \<in> set (homes s)"
proof -
  obtain sim where sim: "heckin_simulator sample_externals = Inr sim"
    using heckin_simulator_ok [OF sample_externals_ok] by blast
  note started = sim [unfolded heckin_simulator_setup]
  obtain s where s: "sim_step\<^sup>*\<^sup>* (run_start sim) s" "quiescent s"
    using sim_converges sim_run_net [OF sample_externals_ok started conjunct1 [OF heckin_specs_ok] parse_sim_addrs(1)
        rtranclp.rtrancl_refl] by blast
  then show ?thesis
    using bootstrap_learns_all [OF sample_externals_ok started conjunct1 [OF heckin_specs_ok] parse_sim_addrs(1)
        s(1) conjunct2 [OF heckin_specs_ok] s(2)] sim by blast
qed

end
